(* ===== verification/Cpp_Prelude.thy ===== *)
theory Cpp_Prelude
  imports Main "HOL-Library.Word"
begin

text \<open>
  The vocabulary shared by the component theories: what the C++ sources take from the language and
  its standard library. It holds the failures a call can end in, the result type that carries them,
  \<open>size_t\<close> arithmetic with its wrap-around written out, bounds-checked access to a block of memory,
  the C reading of integer division, and decimal printing as \<open>snprintf\<close> does it.
  The collection \<open>size_simps\<close> holds the rules that remove wrap-around under bounds, \<open>mem_simps\<close> the
  rules for memory blocks.
\<close>

named_theorems size_simps \<open>size_t arithmetic without wrap-around under bounds\<close>
named_theorems mem_simps \<open>reads and writes of memory blocks\<close>

section \<open>Failures\<close>

text \<open>
  A call of the library returns, or it ends in one of these: \<open>std::vector::resize\<close> throws
  \<open>std::length_error\<close>, \<open>new\<close> throws \<open>std::bad_alloc\<close>, an access leaves its block or goes through a null
  pointer or to a freed object, a signed addition overflows (undefined behaviour), the standard library
  throws \<open>std::system_error\<close> or calls \<open>std::terminate\<close>, or \<open>LOG_FATAL\<close> aborts the process.
\<close>

datatype fault = LengthError | BadAlloc | OutOfBounds | NullDeref | UseAfterFree | Overflow | SystemError | Terminate | Fatal string

type_synonym 'a result = "fault + 'a"

definition rbind :: "'a result \<Rightarrow> ('a \<Rightarrow> 'b result) \<Rightarrow> 'b result" where
  "rbind m f = (case m of Inl e \<Rightarrow> Inl e | Inr x \<Rightarrow> f x)"

lemma rbind_simps [simp]:
  "rbind (Inl e) f = Inl e"
  "rbind (Inr x) f = f x"
  by (simp_all add: rbind_def)

lemma rbind_eq_Inr: "rbind m f = Inr y \<longleftrightarrow> (\<exists>x. m = Inr x \<and> f x = Inr y)"
  by (cases m) auto

text \<open>
  A call that returns a value with property \<open>P\<close>, or ends in one of the failures \<open>A\<close>; the rule for
  sequencing.
\<close>

definition ends :: "fault set \<Rightarrow> ('a \<Rightarrow> bool) \<Rightarrow> 'a result \<Rightarrow> bool" where
  "ends A P r = (case r of Inl e \<Rightarrow> e \<in> A | Inr x \<Rightarrow> P x)"

lemma ends_simps [simp]:
  "ends A P (Inl e) = (e \<in> A)"
  "ends A P (Inr x) = P x"
  by (simp_all add: ends_def)

lemma ends_rbind:
  assumes "ends A P m" "\<And>x. m = Inr x \<Longrightarrow> P x \<Longrightarrow> ends A Q (f x)"
  shows "ends A Q (rbind m f)"
  using assms by (cases m) auto

lemma ends_mono: "ends A P r \<Longrightarrow> (\<And>x. P x \<Longrightarrow> Q x) \<Longrightarrow> ends A Q r"
  by (cases r) auto

section \<open>Components as machines\<close>

text \<open>
  A component is driven by a sequence of operations. The contract: from a good state, an operation whose
  environment keeps its part ends in a good state or in one of the failures \<open>bad\<close>, and it extends what
  is observed of the component by its own output. Then the same holds of every sequence.
\<close>

locale op_machine =
  fixes exec :: "'op \<Rightarrow> 's \<Rightarrow> 's result"
    and pre :: "'op \<Rightarrow> 's \<Rightarrow> bool"
    and inv :: "'s \<Rightarrow> bool"
    and bad :: "fault set"
    and obs :: "'s \<Rightarrow> 'o list"
    and out :: "'op \<Rightarrow> 's \<Rightarrow> 'o list"
  assumes step: "inv s \<Longrightarrow> pre oper s \<Longrightarrow> ends bad (\<lambda>s'. inv s' \<and> obs s' = obs s @ out oper s) (exec oper s)"
begin

fun run :: "'op list \<Rightarrow> 's \<Rightarrow> 's result" where
  "run [] s = Inr s"
| "run (oper # opers) s = rbind (exec oper s) (run opers)"

fun pres :: "'op list \<Rightarrow> 's \<Rightarrow> bool" where
  "pres [] s = True"
| "pres (oper # opers) s = (pre oper s \<and> (case exec oper s of Inl _ \<Rightarrow> True | Inr s' \<Rightarrow> pres opers s'))"

fun outs :: "'op list \<Rightarrow> 's \<Rightarrow> 'o list" where
  "outs [] s = []"
| "outs (oper # opers) s = out oper s @ (case exec oper s of Inl _ \<Rightarrow> [] | Inr s' \<Rightarrow> outs opers s')"

lemma run_ok: "inv s \<Longrightarrow> pres opers s \<Longrightarrow> ends bad (\<lambda>s'. inv s' \<and> obs s' = obs s @ outs opers s) (run opers s)"
proof (induction opers arbitrary: s)
  case Nil
  then show ?case by simp
next
  case (Cons oper opers)
  show ?case
  proof (cases "exec oper s")
    case (Inl e)
    then show ?thesis using step [OF Cons.prems(1), of oper] Cons.prems(2) by simp
  next
    case (Inr s1)
    then have s1: "inv s1" "obs s1 = obs s @ out oper s" "pres opers s1"
      using step [OF Cons.prems(1), of oper] Cons.prems(2) by simp_all
    from Cons.IH [OF s1(1,3)] Inr s1(2) show ?thesis by (cases "run opers s1") simp_all
  qed
qed

end

section \<open>\<open>size_t\<close>\<close>

text \<open>A \<open>size_t\<close> is a natural number below \<open>2 ^ 64\<close>; sums and differences wrap.\<close>

type_synonym size_t = nat

definition sz_add :: "size_t \<Rightarrow> size_t \<Rightarrow> size_t" where
  "sz_add a b = (a + b) mod 2 ^ 64"

definition sz_sub :: "size_t \<Rightarrow> size_t \<Rightarrow> size_t" where
  "sz_sub a b = (a + 2 ^ 64 - b) mod 2 ^ 64"

lemma sz_add_small [size_simps]: "a + b < 2 ^ 64 \<Longrightarrow> sz_add a b = a + b"
  by (simp add: sz_add_def)

lemma sz_sub_small [size_simps]: "b \<le> a \<Longrightarrow> a < 2 ^ 64 \<Longrightarrow> sz_sub a b = a - b"
proof -
  assume b: "b \<le> a" and a: "a < 2 ^ 64"
  have "a + 2 ^ 64 - b = (a - b) + 2 ^ 64"
    using b by (rule add_diff_assoc2 [symmetric])
  moreover have "a - b < 2 ^ 64"
    using a by (rule less_imp_diff_less)
  ultimately show ?thesis
    by (simp only: sz_sub_def mod_add_self2 mod_less)
qed

lemma sz_add_lt [simp]: "sz_add a b < 2 ^ 64"
  by (simp add: sz_add_def)

text \<open>\<open>std::vector<char>::max_size()\<close> is \<open>PTRDIFF_MAX\<close>.\<close>

definition max_size :: size_t where
  "max_size = 2 ^ 63 - 1"

lemma max_size_lt: "max_size + max_size < 2 ^ 64"
  by (simp add: max_size_def)

text \<open>The value an \<open>std::atomic_int\<close> holds after an increment past its limit.\<close>

definition wrap32 :: "int \<Rightarrow> int" where
  "wrap32 i = (i + 2 ^ 31) mod 2 ^ 32 - 2 ^ 31"

section \<open>Blocks of memory\<close>

text \<open>
  \<open>read_range xs i n\<close> copies \<open>n\<close> elements from offset \<open>i\<close>, \<open>write_at xs i ys\<close> stores \<open>ys\<close> at offset
  \<open>i\<close>. Both fail when the range leaves the block.
\<close>

definition read_range :: "'a list \<Rightarrow> nat \<Rightarrow> nat \<Rightarrow> 'a list result" where
  "read_range xs i n = (if i + n \<le> length xs then Inr (take n (drop i xs)) else Inl OutOfBounds)"

definition write_at :: "'a list \<Rightarrow> nat \<Rightarrow> 'a list \<Rightarrow> 'a list result" where
  "write_at xs i ys =
     (if i + length ys \<le> length xs
      then Inr (take i xs @ ys @ drop (i + length ys) xs) else Inl OutOfBounds)"

text \<open>\<open>std::vector<char>::resize\<close>: truncates, or pads with value-initialised elements.\<close>

definition vec_resize :: "char list \<Rightarrow> size_t \<Rightarrow> char list result" where
  "vec_resize xs n =
     (if n > max_size then Inl LengthError
      else Inr (take n xs @ replicate (n - length xs) (CHR 0x00)))"

lemma read_range_ok [mem_simps]:
  "i + n \<le> length xs \<Longrightarrow> read_range xs i n = Inr (take n (drop i xs))"
  by (simp add: read_range_def)

lemma write_at_ok [mem_simps]:
  "i + length ys \<le> length xs \<Longrightarrow>
    write_at xs i ys = Inr (take i xs @ ys @ drop (i + length ys) xs)"
  by (simp add: write_at_def)

lemma vec_resize_ok [mem_simps]:
  "n \<le> max_size \<Longrightarrow> vec_resize xs n = Inr (take n xs @ replicate (n - length xs) (CHR 0x00))"
  by (simp add: vec_resize_def)

lemma length_write_at: "write_at xs i ys = Inr zs \<Longrightarrow> length zs = length xs"
  by (auto simp: write_at_def split: if_splits)

text \<open>The slice \<open>[i, j)\<close> of a block, and what a write just behind it does to it.\<close>

definition slice :: "'a list \<Rightarrow> nat \<Rightarrow> nat \<Rightarrow> 'a list" where
  "slice xs i j = take (j - i) (drop i xs)"

lemma length_slice [simp]: "j \<le> length xs \<Longrightarrow> length (slice xs i j) = j - i"
  by (simp add: slice_def)

lemma slice_empty [simp]: "slice xs i i = []"
  by (simp add: slice_def)

lemma drop_slice [simp]: "drop n (slice xs i j) = slice xs (i + n) j"
  by (simp add: slice_def drop_take add.commute)

lemma slice_write_behind:
  assumes "i \<le> j" "j + length ys \<le> length xs"
  shows "slice (take j xs @ ys @ drop (j + length ys) xs) i (j + length ys) = slice xs i j @ ys"
proof -
  let ?p = "take (j - i) (drop i xs)"
  have len: "length ?p = j - i" and n: "j + length ys - i = length (?p @ ys)"
    using assms by simp_all
  have "slice (take j xs @ ys @ drop (j + length ys) xs) i (j + length ys)
      = take (length (?p @ ys)) ((?p @ ys) @ drop (j + length ys) xs)"
    using assms n by (simp add: slice_def drop_take)
  also have "\<dots> = ?p @ ys"
    by (rule append_eq_conv_conj [THEN iffD1, THEN conjunct1, symmetric]) (rule refl)
  finally show ?thesis
    by (simp only: slice_def)
qed

lemma slice_take_prefix: "j \<le> n \<Longrightarrow> j \<le> length xs \<Longrightarrow> slice (take n xs @ ys) i j = slice xs i j"
  by (cases "i \<le> j") (auto simp: slice_def drop_take min_def)

lemma slice_append_prefix: "j \<le> length xs \<Longrightarrow> slice (xs @ ys) i j = slice xs i j"
  by (cases "i \<le> j") (auto simp: slice_def)

section \<open>C integers\<close>

text \<open>C++ division and remainder truncate towards zero.\<close>

definition cdiv :: "int \<Rightarrow> int \<Rightarrow> int" where
  "cdiv a b = sgn a * sgn b * (\<bar>a\<bar> div \<bar>b\<bar>)"

definition crem :: "int \<Rightarrow> int \<Rightarrow> int" where
  "crem a b = a - b * cdiv a b"

lemma cdiv_nonneg: "0 \<le> a \<Longrightarrow> 0 < b \<Longrightarrow> cdiv a b = a div b"
  by (cases "a = 0") (auto simp: cdiv_def)

lemma crem_nonneg: "0 \<le> a \<Longrightarrow> 0 < b \<Longrightarrow> crem a b = a mod b"
  by (simp add: crem_def cdiv_nonneg minus_mult_div_eq_mod)

definition int_range :: "nat \<Rightarrow> int set" where
  "int_range w = {- (2 ^ (w - 1)) ..< 2 ^ (w - 1)}"

section \<open>Decimal printing\<close>

text \<open>\<open>%d\<close> of \<open>snprintf\<close>: decimal digits, a minus sign in front of a negative number.\<close>

definition digit_char :: "nat \<Rightarrow> char" where
  "digit_char d = char_of (48 + d)"

lemma digit_char_simps [simp]:
  "digit_char 0 = CHR ''0''" "digit_char 1 = CHR ''1''" "digit_char (Suc 0) = CHR ''1''"
  "digit_char 2 = CHR ''2''" "digit_char 3 = CHR ''3''" "digit_char 4 = CHR ''4''"
  "digit_char 5 = CHR ''5''" "digit_char 6 = CHR ''6''" "digit_char 7 = CHR ''7''"
  "digit_char 8 = CHR ''8''" "digit_char 9 = CHR ''9''"
  by code_simp+

fun nat_dec :: "nat \<Rightarrow> string" where
  "nat_dec n = (if n < 10 then [digit_char n] else nat_dec (n div 10) @ [digit_char (n mod 10)])"

declare nat_dec.simps [simp del]

definition int_dec :: "int \<Rightarrow> string" where
  "int_dec i = (if i < 0 then CHR ''-'' # nat_dec (nat (- i)) else nat_dec (nat i))"

text \<open>\<open>%0kd\<close>: padded with zeros on the left to width \<open>k\<close> (the sign counts).\<close>

definition int_dec0 :: "nat \<Rightarrow> int \<Rightarrow> string" where
  "int_dec0 k i =
     (if i < 0 then CHR ''-'' # replicate (k - 1 - length (nat_dec (nat (- i)))) (CHR ''0'')
         @ nat_dec (nat (- i))
      else replicate (k - length (nat_dec (nat i))) (CHR ''0'') @ nat_dec (nat i))"

text \<open>\<open>snprintf (buf, n, \<dots>)\<close> stores at most \<open>n - 1\<close> characters.\<close>

definition snprintf_trunc :: "nat \<Rightarrow> string \<Rightarrow> string" where
  "snprintf_trunc n s = take (n - 1) s"

text \<open>Reading a decimal back, for round trips.\<close>

definition digit_val :: "char \<Rightarrow> nat" where
  "digit_val c = of_char c - 48"

definition dec_val :: "string \<Rightarrow> nat" where
  "dec_val s = foldl (\<lambda>a c. 10 * a + digit_val c) 0 s"

lemma digit_val_char [simp]: "d < 10 \<Longrightarrow> digit_val (digit_char d) = d"
  by (simp add: digit_val_def digit_char_def)

lemma dec_val_snoc [simp]: "dec_val (s @ [c]) = 10 * dec_val s + digit_val c"
  by (simp add: dec_val_def)

lemma dec_val_nat_dec [simp]: "dec_val (nat_dec n) = n"
proof (induction n rule: nat_dec.induct)
  case (1 n)
  show ?case
  proof (cases "n < 10")
    case True
    then show ?thesis by (subst nat_dec.simps) (simp add: dec_val_def)
  next
    case False
    with 1 show ?thesis by (subst nat_dec.simps) simp
  qed
qed

lemma nat_dec_inject [simp]: "nat_dec m = nat_dec n \<longleftrightarrow> m = n"
  by (metis dec_val_nat_dec)

lemma length_nat_dec: "n < 10 ^ k \<Longrightarrow> 0 < k \<Longrightarrow> length (nat_dec n) \<le> k"
proof (induction n arbitrary: k rule: nat_dec.induct)
  case (1 n)
  show ?case
  proof (cases "n < 10")
    case True
    with 1(3) show ?thesis by (subst nat_dec.simps) simp
  next
    case False
    with 1(2) obtain k' where k: "k = Suc k'" "0 < k'"
      by (metis One_nat_def gr0_conv_Suc not_gr_zero power_0 power_one_right less_one
          power_Suc0_right less_trans not_less_eq 1(3) One_nat_def)
    with 1(2) have "n div 10 < 10 ^ k'" by auto
    with 1(1) False k show ?thesis by (subst nat_dec.simps) simp
  qed
qed

text \<open>A text with a separator is read in one way only.\<close>

lemma cut_unique:
  assumes "c \<notin> set xs" "c \<notin> set ys"
  shows "xs @ c # zs = ys @ c # ws \<longleftrightarrow> xs = ys \<and> zs = ws"
  using assms
proof (induction xs arbitrary: ys)
  case Nil
  then show ?case by (cases ys) auto
next
  case (Cons x xs)
  then show ?case by (cases ys) auto
qed

text \<open>Changing one element changes a count by that element.\<close>

lemma length_filter_update:
  "i < length xs \<Longrightarrow>
    length (filter P (xs[i := x])) + of_bool (P (xs ! i)) = length (filter P xs) + of_bool (P x)"
proof (induction xs arbitrary: i)
  case (Cons y xs)
  show ?case
  proof (cases i)
    case (Suc j)
    then show ?thesis using Cons.IH [of j] Cons.prems by auto
  qed auto
qed simp

end
