(* ===== verification/Log_Stream.thy ===== *)
theory Log_Stream
  imports Cpp_Prelude
begin

text \<open>
  \<open>src/logger/FixedBuffer.h\<close>, \<open>LogStream.h\<close> and \<open>LogStream.cc\<close>: a character array of fixed size with
  a write position, and the stream operators that print into it. Writes go through \<open>write_at\<close>, so
  leaving the array is a failure. The lemmas show that no operator ever leaves it, that an item is
  printed completely or not at all, and that numbers are printed in the notation of the C library.
\<close>

section \<open>FixedBuffer\<close>

record FixedBuffer =
  fb_data :: "char list"
  fb_cur :: nat

definition kSmallBuffer :: nat where "kSmallBuffer = 4096"
definition kLargeBuffer :: nat where "kLargeBuffer = 4096 * 1024"

definition FixedBuffer_new :: "nat \<Rightarrow> FixedBuffer" where
  "FixedBuffer_new SIZE = \<lparr>fb_data = replicate SIZE (CHR 0x00), fb_cur = 0\<rparr>"

definition avail :: "FixedBuffer \<Rightarrow> int" where
  "avail b = int (length (fb_data b)) - int (fb_cur b)"

text \<open>\<open>static_cast<size_t>\<close> of an \<open>int\<close>.\<close>

definition size_of_int :: "int \<Rightarrow> size_t" where
  "size_of_int i = nat (i mod 2 ^ 64)"

definition FixedBuffer_append :: "FixedBuffer \<Rightarrow> char list \<Rightarrow> FixedBuffer result" where
  "FixedBuffer_append b buf =
     (if size_of_int (avail b) > length buf
      then rbind (write_at (fb_data b) (fb_cur b) buf)
             (\<lambda>d. Inr \<lparr>fb_data = d, fb_cur = fb_cur b + length buf\<rparr>)
      else Inr b)"

definition FixedBuffer_length :: "FixedBuffer \<Rightarrow> int" where
  "FixedBuffer_length b = int (fb_cur b)"

definition FixedBuffer_add :: "FixedBuffer \<Rightarrow> nat \<Rightarrow> FixedBuffer" where
  "FixedBuffer_add b len = b\<lparr>fb_cur := fb_cur b + len\<rparr>"

definition FixedBuffer_reset :: "FixedBuffer \<Rightarrow> FixedBuffer" where
  "FixedBuffer_reset b = b\<lparr>fb_cur := 0\<rparr>"

definition FixedBuffer_bzero :: "FixedBuffer \<Rightarrow> FixedBuffer" where
  "FixedBuffer_bzero b = b\<lparr>fb_data := replicate (length (fb_data b)) (CHR 0x00)\<rparr>"

definition FixedBuffer_toString :: "FixedBuffer \<Rightarrow> string" where
  "FixedBuffer_toString b = take (fb_cur b) (fb_data b)"

text \<open>The write position is always strictly inside the array.\<close>

definition FixedBuffer_inv :: "FixedBuffer \<Rightarrow> bool" where
  "FixedBuffer_inv b \<longleftrightarrow> fb_cur b < length (fb_data b) \<and> length (fb_data b) < 2 ^ 31"

lemma size_of_int_avail:
  "FixedBuffer_inv b \<Longrightarrow> size_of_int (avail b) = length (fb_data b) - fb_cur b"
  by (simp add: FixedBuffer_inv_def size_of_int_def avail_def nat_diff_distrib)

lemma append_guard:
  "FixedBuffer_inv b \<Longrightarrow> size_of_int (avail b) > n \<longleftrightarrow> avail b > int n"
  using size_of_int_avail [of b] by (auto simp: avail_def FixedBuffer_inv_def)

lemma FixedBuffer_new_ok:
  assumes "0 < n" "n < 2 ^ 31"
  shows "FixedBuffer_inv (FixedBuffer_new n)" "FixedBuffer_toString (FixedBuffer_new n) = []"
    "length (fb_data (FixedBuffer_new n)) = n"
  using assms by (simp_all add: FixedBuffer_inv_def FixedBuffer_new_def FixedBuffer_toString_def)

lemma FixedBuffer_reset_ok:
  assumes "FixedBuffer_inv b"
  shows "FixedBuffer_inv (FixedBuffer_reset b)" "FixedBuffer_toString (FixedBuffer_reset b) = []"
    "fb_data (FixedBuffer_reset b) = fb_data b"
  using assms by (auto simp: FixedBuffer_inv_def FixedBuffer_reset_def FixedBuffer_toString_def)

lemma length_toString [simp]:
  "FixedBuffer_inv b \<Longrightarrow> length (FixedBuffer_toString b) = fb_cur b"
  by (simp add: FixedBuffer_inv_def FixedBuffer_toString_def)

text \<open>
  Storing \<open>xs\<close> followed by \<open>ys\<close> at the write position and advancing over \<open>xs\<close>: the one shape of
  write all operators have (\<open>ys\<close> is the terminator of a printed number).
\<close>

lemma FixedBuffer_store:
  assumes "FixedBuffer_inv b" "fb_cur b + length xs < length (fb_data b)"
    "fb_cur b + length xs + length ys \<le> length (fb_data b)"
  shows "\<exists>d. write_at (fb_data b) (fb_cur b) (xs @ ys) = Inr d \<and> length d = length (fb_data b) \<and>
    FixedBuffer_inv \<lparr>fb_data = d, fb_cur = fb_cur b + length xs\<rparr> \<and>
    FixedBuffer_toString \<lparr>fb_data = d, fb_cur = fb_cur b + length xs\<rparr>
      = FixedBuffer_toString b @ xs"
  using assms by (auto simp: write_at_def FixedBuffer_inv_def FixedBuffer_toString_def)

lemma FixedBuffer_append_ok:
  assumes "FixedBuffer_inv b"
  shows "\<exists>b'. FixedBuffer_append b xs = Inr b' \<and> FixedBuffer_inv b' \<and>
    length (fb_data b') = length (fb_data b) \<and>
    FixedBuffer_toString b' = FixedBuffer_toString b @ (if avail b > int (length xs) then xs else [])"
proof (cases "avail b > int (length xs)")
  case True
  then have "fb_cur b + length xs < length (fb_data b)" by (simp add: avail_def)
  with FixedBuffer_store [OF assms, of xs "[]"] True show ?thesis
    by (auto simp: FixedBuffer_append_def append_guard [OF assms])
next
  case False
  then show ?thesis
    using assms by (simp add: FixedBuffer_append_def append_guard [OF assms])
qed

section \<open>Number formatting\<close>

definition log_digits :: string where "log_digits = ''9876543210123456789''"
definition digitsHex :: string where "digitsHex = ''0123456789ABCDEF''"

definition kMaxNumericSize :: int where "kMaxNumericSize = 48"

text \<open>
  The loop of \<open>formatInteger\<close>: remainder and quotient truncate towards zero, so a negative number
  gives negative remainders, which index the table left of its middle.
\<close>

function format_loop :: "int \<Rightarrow> string" where
  "format_loop num =
     log_digits ! nat (9 + crem num 10) #
     (if cdiv num 10 \<noteq> 0 then format_loop (cdiv num 10) else [])"
  by pat_completeness auto
termination
proof (relation "measure (\<lambda>n. nat \<bar>n\<bar>)")
  fix num :: int
  assume "cdiv num 10 \<noteq> 0"
  then have "num \<noteq> 0" by (auto simp: cdiv_def)
  then have "\<bar>cdiv num 10\<bar> < \<bar>num\<bar>"
    by (simp add: cdiv_def abs_mult abs_sgn_eq)
  then show "(cdiv num 10, num) \<in> measure (\<lambda>n. nat \<bar>n\<bar>)" by simp
qed simp

declare format_loop.simps [simp del]

text \<open>The characters as they stand in the buffer after \<open>std::reverse\<close>.\<close>

definition formatted :: "int \<Rightarrow> string" where
  "formatted num = rev (format_loop num @ (if num < 0 then ''-'' else []))"

definition formatInteger :: "FixedBuffer \<Rightarrow> int \<Rightarrow> FixedBuffer result" where
  "formatInteger b num =
     (if avail b \<ge> kMaxNumericSize
      then rbind (write_at (fb_data b) (fb_cur b) (formatted num @ [CHR 0x00]))
             (\<lambda>d. Inr (FixedBuffer_add (b\<lparr>fb_data := d\<rparr>) (length (formatted num))))
      else Inr b)"

function hex_loop :: "nat \<Rightarrow> string" where
  "hex_loop i = digitsHex ! (i mod 16) # (if i div 16 \<noteq> 0 then hex_loop (i div 16) else [])"
  by pat_completeness auto
termination
  by (relation "measure id") auto

declare hex_loop.simps [simp del]

definition convertHex :: "nat \<Rightarrow> string" where
  "convertHex value = rev (hex_loop value)"

definition put_pointer :: "FixedBuffer \<Rightarrow> nat \<Rightarrow> FixedBuffer result" where
  "put_pointer b v =
     (if avail b \<ge> kMaxNumericSize
      then rbind (write_at (fb_data b) (fb_cur b) (''0x'' @ convertHex v @ [CHR 0x00]))
             (\<lambda>d. Inr (FixedBuffer_add (b\<lparr>fb_data := d\<rparr>) (length (convertHex v) + 2)))
      else Inr b)"

subsection \<open>The digits are the decimal notation\<close>

lemma log_digits_table:
  "list_all (\<lambda>d. log_digits ! nat (9 + int d) = digit_char d \<and>
     log_digits ! nat (9 - int d) = digit_char d) [0..<10]"
  by code_simp

lemma log_digits_pos: "d < 10 \<Longrightarrow> log_digits ! nat (9 + int d) = digit_char d"
  using log_digits_table by (simp add: list_all_iff)

lemma log_digits_neg: "d < 10 \<Longrightarrow> log_digits ! nat (9 - int d) = digit_char d"
  using log_digits_table by (simp add: list_all_iff)

lemma format_loop_pos: "rev (format_loop (int n)) = nat_dec n"
proof (induction n rule: nat_dec.induct)
  case (1 n)
  have d: "cdiv (int n) 10 = int (n div 10)" "crem (int n) 10 = int (n mod 10)"
    by (simp_all add: cdiv_nonneg crem_nonneg zdiv_int zmod_int)
  show ?case
  proof (cases "n < 10")
    case True
    then show ?thesis
      using d by (subst format_loop.simps, subst nat_dec.simps) (simp add: log_digits_pos)
  next
    case False
    then have "n div 10 \<noteq> 0" by auto
    with 1 d False show ?thesis
      by (subst format_loop.simps, subst nat_dec.simps) (simp add: log_digits_pos)
  qed
qed

lemma cdiv_neg: "cdiv (- int n) 10 = - int (n div 10)"
  by (cases "n = 0") (simp_all add: cdiv_def zdiv_int)

lemma crem_neg: "crem (- int n) 10 = - int (n mod 10)"
proof -
  have n: "int n = 10 * int (n div 10) + int (n mod 10)"
    by (metis mult_div_mod_eq of_nat_add of_nat_mult of_nat_numeral)
  have "crem (- int n) 10 = - int n + 10 * int (n div 10)"
    by (simp only: crem_def cdiv_neg)
  with n show ?thesis by linarith
qed

lemma format_loop_neg: "rev (format_loop (- int n)) = nat_dec n"
proof (induction n rule: nat_dec.induct)
  case (1 n)
  show ?case
  proof (cases "n < 10")
    case True
    then show ?thesis
      by (subst format_loop.simps, subst nat_dec.simps) (simp add: cdiv_neg crem_neg log_digits_neg)
  next
    case False
    then have "n div 10 \<noteq> 0" by auto
    with 1 False show ?thesis
      by (subst format_loop.simps, subst nat_dec.simps) (simp add: cdiv_neg crem_neg log_digits_neg)
  qed
qed

lemma formatted_is_dec: "formatted num = int_dec num"
proof (cases "num < 0")
  case True
  then show ?thesis using format_loop_neg [of "nat (- num)"] by (simp add: int_dec_def formatted_def)
next
  case False
  then show ?thesis using format_loop_pos [of "nat num"] by (simp add: int_dec_def formatted_def)
qed

lemma length_int_dec: "- (2 ^ 63) \<le> i \<Longrightarrow> i < 2 ^ 64 \<Longrightarrow> length (int_dec i) \<le> 21"
proof -
  assume "- (2 ^ 63) \<le> i" "i < 2 ^ 64"
  then have "nat i < 10 ^ 20" "nat (- i) < 10 ^ 20" by auto
  then have "length (nat_dec (nat i)) \<le> 20" "length (nat_dec (nat (- i))) \<le> 20"
    by (auto intro!: length_nat_dec)
  then show ?thesis by (simp add: int_dec_def)
qed


lemma formatInteger_ok:
  assumes inv: "FixedBuffer_inv b" and rng: "- (2 ^ 63) \<le> num" "num < 2 ^ 64"
  shows "\<exists>b'. formatInteger b num = Inr b' \<and> FixedBuffer_inv b' \<and>
    length (fb_data b') = length (fb_data b) \<and>
    FixedBuffer_toString b' =
      FixedBuffer_toString b @ (if avail b \<ge> kMaxNumericSize then int_dec num else [])"
proof (cases "avail b \<ge> kMaxNumericSize")
  case True
  have "length (int_dec num) \<le> 21" using rng by (rule length_int_dec)
  with True obtain d where
      "write_at (fb_data b) (fb_cur b) (int_dec num @ [CHR 0x00]) = Inr d"
      "length d = length (fb_data b)"
      "FixedBuffer_inv \<lparr>fb_data = d, fb_cur = fb_cur b + length (int_dec num)\<rparr>"
      "FixedBuffer_toString \<lparr>fb_data = d, fb_cur = fb_cur b + length (int_dec num)\<rparr>
        = FixedBuffer_toString b @ int_dec num"
    using FixedBuffer_store [OF inv, of "int_dec num" "[CHR 0x00]"]
    by (force simp: avail_def kMaxNumericSize_def)
  then show ?thesis
    using True
    by (simp add: formatInteger_def formatted_is_dec FixedBuffer_add_def
        FixedBuffer_inv_def FixedBuffer_toString_def)
next
  case False
  then show ?thesis using inv by (simp add: formatInteger_def)
qed

subsection \<open>Hexadecimal\<close>

definition hex_digit :: "char \<Rightarrow> nat" where
  "hex_digit c = (if of_char c < (58::nat) then of_char c - 48 else of_char c - 55)"

definition hex_val :: "string \<Rightarrow> nat" where
  "hex_val s = foldl (\<lambda>a c. 16 * a + hex_digit c) 0 s"

lemma hex_digits_table: "list_all (\<lambda>d. hex_digit (digitsHex ! d) = d) [0..<16]"
  by code_simp

lemma hex_digit_nth: "d < 16 \<Longrightarrow> hex_digit (digitsHex ! d) = d"
  using hex_digits_table by (simp only: list_all_iff set_upt) auto

lemma hex_val_convertHex: "hex_val (convertHex n) = n"
proof (induction n rule: hex_loop.induct)
  case (1 i)
  have "hex_digit (digitsHex ! (i mod 16)) = i mod 16" by (simp add: hex_digit_nth)
  with 1 show ?case
    by (cases "i div 16 = 0")
      (simp_all add: convertHex_def hex_val_def hex_loop.simps [of i] del: div_eq_0_iff)
qed

lemma length_hex_loop: "n < 16 ^ k \<Longrightarrow> 0 < k \<Longrightarrow> length (hex_loop n) \<le> k"
proof (induction n arbitrary: k rule: hex_loop.induct)
  case (1 i)
  then obtain k' where k: "k = Suc k'" by (auto simp: gr0_conv_Suc)
  show ?case
  proof (cases "i div 16 = 0")
    case True
    then show ?thesis using k by (simp add: hex_loop.simps [of i])
  next
    case False
    with 1(2) k have "0 < k'" "i div 16 < 16 ^ k'" by (auto intro: ccontr)
    with 1(1) False k show ?thesis by (simp add: hex_loop.simps [of i])
  qed
qed

lemma put_pointer_ok:
  assumes inv: "FixedBuffer_inv b" and rng: "v < 2 ^ 64"
  shows "\<exists>b'. put_pointer b v = Inr b' \<and> FixedBuffer_inv b' \<and>
    length (fb_data b') = length (fb_data b) \<and>
    FixedBuffer_toString b' =
      FixedBuffer_toString b @ (if avail b \<ge> kMaxNumericSize then ''0x'' @ convertHex v else [])"
proof (cases "avail b \<ge> kMaxNumericSize")
  case True
  let ?s = "''0x'' @ convertHex v"
  have "length (convertHex v) \<le> 16"
    using length_hex_loop [of v 16] rng by (simp add: convertHex_def)
  with True obtain d where
      "write_at (fb_data b) (fb_cur b) (?s @ [CHR 0x00]) = Inr d"
      "length d = length (fb_data b)"
      "FixedBuffer_inv \<lparr>fb_data = d, fb_cur = fb_cur b + length ?s\<rparr>"
      "FixedBuffer_toString \<lparr>fb_data = d, fb_cur = fb_cur b + length ?s\<rparr>
        = FixedBuffer_toString b @ ?s"
    using FixedBuffer_store [OF inv, of ?s "[CHR 0x00]"]
    by (force simp: avail_def kMaxNumericSize_def)
  then show ?thesis
    using True
    by (simp add: put_pointer_def FixedBuffer_add_def FixedBuffer_inv_def FixedBuffer_toString_def
        algebra_simps)
next
  case False
  then show ?thesis using inv by (simp add: put_pointer_def)
qed

section \<open>The stream operators\<close>

text \<open>
  One constructor per overload. The integer overloads (\<open>short\<close> to \<open>unsigned long long\<close>) all end in
  \<open>formatInteger\<close> with the value unchanged. \<open>PutDouble\<close> carries what \<open>snprintf\<close> prints for \<open>%.12g\<close>.
  A \<open>const char*\<close> may be null. A \<open>GeneralTemplate\<close> is a pointer into a block and a length.
\<close>

datatype log_item =
    PutBool bool | PutInteger int | PutDouble string | PutChar char | PutPointer nat
  | PutCString "string option" | PutString string | PutBuffer FixedBuffer
  | PutTemplate string nat

fun LogStream_put :: "FixedBuffer \<Rightarrow> log_item \<Rightarrow> FixedBuffer result" where
  "LogStream_put b (PutBool v) = FixedBuffer_append b (if v then ''1'' else ''0'')"
| "LogStream_put b (PutInteger v) = formatInteger b v"
| "LogStream_put b (PutDouble text) =
     (if avail b \<ge> kMaxNumericSize
      then rbind (write_at (fb_data b) (fb_cur b)
                    (snprintf_trunc (nat kMaxNumericSize) text @ [CHR 0x00]))
             (\<lambda>d. Inr (FixedBuffer_add (b\<lparr>fb_data := d\<rparr>) (length text)))
      else Inr b)"
| "LogStream_put b (PutChar v) = FixedBuffer_append b [v]"
| "LogStream_put b (PutPointer v) = put_pointer b v"
| "LogStream_put b (PutCString str) =
     (case str of Some s \<Rightarrow> FixedBuffer_append b s | None \<Rightarrow> FixedBuffer_append b ''(null)'')"
| "LogStream_put b (PutString str) = FixedBuffer_append b str"
| "LogStream_put b (PutBuffer buf) = FixedBuffer_append b (FixedBuffer_toString buf)"
| "LogStream_put b (PutTemplate block len) =
     rbind (read_range block 0 len) (\<lambda>s. FixedBuffer_append b s)"

fun LogStream_puts :: "FixedBuffer \<Rightarrow> log_item list \<Rightarrow> FixedBuffer result" where
  "LogStream_puts b [] = Inr b"
| "LogStream_puts b (i # is) = rbind (LogStream_put b i) (\<lambda>b'. LogStream_puts b' is)"

text \<open>What an item stands for, when it is well-formed, and whether the stream takes it.\<close>

fun item_text :: "log_item \<Rightarrow> string" where
  "item_text (PutBool v) = (if v then ''1'' else ''0'')"
| "item_text (PutInteger v) = int_dec v"
| "item_text (PutDouble text) = text"
| "item_text (PutChar v) = [v]"
| "item_text (PutPointer v) = ''0x'' @ convertHex v"
| "item_text (PutCString str) = (case str of Some s \<Rightarrow> s | None \<Rightarrow> ''(null)'')"
| "item_text (PutString str) = str"
| "item_text (PutBuffer buf) = FixedBuffer_toString buf"
| "item_text (PutTemplate block len) = take len block"

fun item_ok :: "log_item \<Rightarrow> bool" where
  "item_ok (PutInteger v) = (- (2 ^ 63) \<le> v \<and> v < 2 ^ 64)"
| "item_ok (PutDouble text) = (length text < 48)"
| "item_ok (PutPointer v) = (v < 2 ^ 64)"
| "item_ok (PutTemplate block len) = (len \<le> length block)"
| "item_ok _ = True"

fun item_numeric :: "log_item \<Rightarrow> bool" where
  "item_numeric (PutInteger v) = True"
| "item_numeric (PutDouble text) = True"
| "item_numeric (PutPointer v) = True"
| "item_numeric _ = False"

definition item_fits :: "int \<Rightarrow> log_item \<Rightarrow> bool" where
  "item_fits free i = (if item_numeric i then free \<ge> kMaxNumericSize
     else free > int (length (item_text i)))"

lemma put_double_ok:
  assumes inv: "FixedBuffer_inv b" and len: "length shown < 48"
  shows "\<exists>b'. LogStream_put b (PutDouble shown) = Inr b' \<and> FixedBuffer_inv b' \<and>
    length (fb_data b') = length (fb_data b) \<and>
    FixedBuffer_toString b' =
      FixedBuffer_toString b @ (if avail b \<ge> kMaxNumericSize then shown else [])"
proof (cases "avail b \<ge> kMaxNumericSize")
  case True
  with len obtain d where
      "write_at (fb_data b) (fb_cur b) (shown @ [CHR 0x00]) = Inr d"
      "length d = length (fb_data b)"
      "FixedBuffer_inv \<lparr>fb_data = d, fb_cur = fb_cur b + length shown\<rparr>"
      "FixedBuffer_toString \<lparr>fb_data = d, fb_cur = fb_cur b + length shown\<rparr>
        = FixedBuffer_toString b @ shown"
    using FixedBuffer_store [OF inv, of shown "[CHR 0x00]"]
    by (force simp: avail_def kMaxNumericSize_def)
  moreover have "snprintf_trunc (nat kMaxNumericSize) shown = shown"
    using len by (simp add: snprintf_trunc_def kMaxNumericSize_def)
  ultimately show ?thesis
    using True
    by (simp add: FixedBuffer_add_def FixedBuffer_inv_def FixedBuffer_toString_def)
next
  case False
  then show ?thesis using inv by simp
qed

lemma put_plain:
  "item_ok i \<Longrightarrow> \<not> item_numeric i \<Longrightarrow> LogStream_put b i = FixedBuffer_append b (item_text i)"
  by (cases i) (auto simp: mem_simps split: option.splits)

lemma put_numeric_ok:
  assumes inv: "FixedBuffer_inv b" and ok: "item_ok i" and num: "item_numeric i"
  shows "\<exists>b'. LogStream_put b i = Inr b' \<and> FixedBuffer_inv b' \<and>
    length (fb_data b') = length (fb_data b) \<and>
    FixedBuffer_toString b' =
      FixedBuffer_toString b @ (if avail b \<ge> kMaxNumericSize then item_text i else [])"
proof (cases i)
  case (PutInteger v)
  then show ?thesis using formatInteger_ok [OF inv, of v] ok by auto
next
  case (PutDouble shown)
  then show ?thesis using put_double_ok [OF inv, of shown] ok by (simp only: item_text.simps item_ok.simps)
next
  case (PutPointer v)
  then show ?thesis using put_pointer_ok [OF inv, of v] ok by auto
qed (use num in simp_all)

lemma LogStream_put_ok:
  assumes inv: "FixedBuffer_inv b" and ok: "item_ok i"
  shows "\<exists>b'. LogStream_put b i = Inr b' \<and> FixedBuffer_inv b' \<and>
    length (fb_data b') = length (fb_data b) \<and>
    FixedBuffer_toString b' =
      FixedBuffer_toString b @ (if item_fits (avail b) i then item_text i else [])"
proof (cases "item_numeric i")
  case True
  then show ?thesis using put_numeric_ok [OF inv ok] by (simp only: item_fits_def if_True)
next
  case False
  then show ?thesis
    using FixedBuffer_append_ok [OF inv, of "item_text i"] put_plain [OF ok False]
    by (simp only: item_fits_def if_False)
qed

text \<open>The specification of a sequence of operators: items are taken while they fit.\<close>

fun accept_text :: "int \<Rightarrow> log_item list \<Rightarrow> string" where
  "accept_text free [] = []"
| "accept_text free (i # is) =
     (if item_fits free i then item_text i @ accept_text (free - int (length (item_text i))) is
      else accept_text free is)"

lemma avail_toString:
  "FixedBuffer_inv b \<Longrightarrow> avail b = int (length (fb_data b)) - int (length (FixedBuffer_toString b))"
  by (simp add: avail_def)

lemma LogStream_puts_ok:
  "FixedBuffer_inv b \<Longrightarrow> \<forall>i\<in>set is. item_ok i \<Longrightarrow>
    \<exists>b'. LogStream_puts b is = Inr b' \<and> FixedBuffer_inv b' \<and>
      length (fb_data b') = length (fb_data b) \<and>
      FixedBuffer_toString b' = FixedBuffer_toString b @ accept_text (avail b) is"
proof (induction "is" arbitrary: b)
  case Nil
  then show ?case by simp
next
  case (Cons i rest)
  then obtain b1 where b1: "LogStream_put b i = Inr b1" "FixedBuffer_inv b1"
      "length (fb_data b1) = length (fb_data b)"
      "FixedBuffer_toString b1 =
        FixedBuffer_toString b @ (if item_fits (avail b) i then item_text i else [])"
    using LogStream_put_ok [of b i] by auto
  then have "avail b1 = (if item_fits (avail b) i then avail b - int (length (item_text i)) else avail b)"
    using avail_toString [OF b1(2)] avail_toString [OF Cons.prems(1)] by simp
  then show ?case using Cons.IH [of b1] Cons.prems b1 by auto
qed

lemma item_fits_spare:
  "item_ok i \<Longrightarrow> free \<ge> int (length (item_text i)) + kMaxNumericSize \<Longrightarrow> item_fits free i"
  by (auto simp: item_fits_def kMaxNumericSize_def)

lemma accept_text_spare:
  "\<forall>i\<in>set is. item_ok i \<Longrightarrow>
    int (length (concat (map item_text is))) + kMaxNumericSize \<le> free \<Longrightarrow>
    accept_text free is = concat (map item_text is)"
proof (induction "is" arbitrary: free)
  case Nil
  then show ?case by simp
next
  case (Cons i rest)
  have "int (length (item_text i)) + kMaxNumericSize \<le> free"
    using Cons.prems(2) by simp
  then have "item_fits free i"
    using Cons.prems(1) item_fits_spare by simp
  with Cons show ?case by simp
qed

section \<open>Properties\<close>

text \<open>C20: the log stream never writes outside its array. Any sequence of stream operators on a
  well-formed stream succeeds; each item is printed completely or, when the array has too little
  room, left out completely; what is printed follows what was there in order.\<close>

theorem LogStream_never_overflows:
  assumes "FixedBuffer_inv b" "\<forall>i\<in>set is. item_ok i"
  shows "\<exists>b'. LogStream_puts b is = Inr b' \<and> FixedBuffer_inv b' \<and>
    FixedBuffer_toString b' = FixedBuffer_toString b @ accept_text (avail b) is"
  using LogStream_puts_ok [OF assms] by blast

theorem LogStream_never_overflows_witness:
  "\<exists>b'. LogStream_puts (FixedBuffer_new 50)
      [PutString ''ab'', PutInteger (- 7), PutInteger 9, PutChar (CHR ''c'')] = Inr b' \<and>
    FixedBuffer_inv b' \<and> FixedBuffer_toString b' = ''ab-7c''"
  using LogStream_never_overflows [of "FixedBuffer_new 50"
      "[PutString ''ab'', PutInteger (- 7), PutInteger 9, PutChar (CHR ''c'')]"]
    FixedBuffer_new_ok [of 50]
  by (auto simp: item_fits_def kMaxNumericSize_def avail_def FixedBuffer_new_def int_dec_def
      nat_dec.simps)

text \<open>A record that leaves 48 bytes of the array free is printed in full: the stream then holds
  the concatenation of the texts of all items.\<close>

lemma LogStream_prints_all:
  assumes "FixedBuffer_inv b" "\<forall>i\<in>set is. item_ok i"
    and "int (length (concat (map item_text is))) + kMaxNumericSize \<le> avail b"
  shows "\<exists>b'. LogStream_puts b is = Inr b' \<and>
    FixedBuffer_toString b' = FixedBuffer_toString b @ concat (map item_text is)"
  using LogStream_puts_ok [OF assms(1,2)] accept_text_spare [OF assms(2,3)] by auto

text \<open>Reading a printed integer back.\<close>

definition int_val :: "string \<Rightarrow> int" where
  "int_val s = (case s of [] \<Rightarrow> 0
     | c # cs \<Rightarrow> if c = CHR ''-'' then - int (dec_val cs) else int (dec_val s))"

lemma nat_dec_hd: "\<exists>d cs. nat_dec n = digit_char d # cs \<and> d < 10"
proof (induction n rule: nat_dec.induct)
  case (1 n)
  show ?case
  proof (cases "n < 10")
    case True
    then show ?thesis by (subst nat_dec.simps) auto
  next
    case False
    with 1 obtain d cs where "nat_dec (n div 10) = digit_char d # cs" "d < 10" by blast
    with False show ?thesis by (subst nat_dec.simps) auto
  qed
qed

lemma digit_char_not_minus: "d < 10 \<Longrightarrow> digit_char d \<noteq> CHR ''-''"
proof
  assume "d < 10" "digit_char d = CHR ''-''"
  then have "digit_val (CHR ''-'') = d" by (metis digit_val_char)
  moreover have "digit_val (CHR ''-'') = 0" by (simp add: digit_val_def)
  ultimately have "d = 0" by simp
  with \<open>digit_char d = CHR ''-''\<close> show False by simp
qed

lemma int_val_int_dec: "int_val (int_dec i) = i"
proof (cases "i < 0")
  case True
  then show ?thesis by (simp add: int_dec_def int_val_def)
next
  case False
  obtain d cs where "nat_dec (nat i) = digit_char d # cs" "d < 10"
    using nat_dec_hd by blast
  moreover from this have "dec_val (digit_char d # cs) = nat i"
    using dec_val_nat_dec [of "nat i"] by simp
  ultimately show ?thesis
    using False digit_char_not_minus by (simp add: int_dec_def int_val_def)
qed

text \<open>C40: \<open>formatInteger\<close> is a faithful printer for every integer type from \<open>short\<close> to
  \<open>unsigned long long\<close>: with 48 free bytes it appends a text, stays inside the array, and reading
  the text back gives the number, the most negative \<open>long long\<close> included.\<close>

theorem formatInteger_roundtrip:
  assumes "FixedBuffer_inv b" "avail b \<ge> kMaxNumericSize" "- (2 ^ 63) \<le> num" "num < 2 ^ 64"
  shows "\<exists>b' s. formatInteger b num = Inr b' \<and> FixedBuffer_inv b' \<and>
    FixedBuffer_toString b' = FixedBuffer_toString b @ s \<and> int_val s = num \<and> length s \<le> 21"
  using formatInteger_ok [OF assms(1,3,4)] assms(2) length_int_dec [OF assms(3,4)]
    int_val_int_dec [of num]
  by auto

theorem formatInteger_roundtrip_witness:
  "\<exists>b' s. formatInteger (FixedBuffer_new 64) (- (2 ^ 63)) = Inr b' \<and>
    FixedBuffer_toString b' = s \<and> int_val s = - 9223372036854775808"
  using formatInteger_roundtrip [of "FixedBuffer_new 64" "- (2 ^ 63)"] FixedBuffer_new_ok [of 64]
  by (auto simp: kMaxNumericSize_def avail_def FixedBuffer_new_def)

text \<open>\<open>convertHex\<close> prints a pointer so that the hexadecimal reading of the text is the value, in
  at most sixteen digits.\<close>

lemma convertHex_roundtrip:
  assumes "v < 2 ^ 64"
  shows "hex_val (convertHex v) = v \<and> length (convertHex v) \<le> 16"
  using assms hex_val_convertHex [of v] length_hex_loop [of v 16] by (simp add: convertHex_def)

end
