(* ===== verification/Log_File.thy ===== *)
theory Log_File
  imports Cpp_Prelude
begin

text \<open>
  \<open>src/logger/FileUtil\<close> and \<open>LogFile\<close>: a buffered file, and a log that starts a new file when the
  current one is too large or a new day has begun. The \<open>stdio\<close> stream is an argument: its \<open>c\<close>-th
  \<open>fwrite_unlocked\<close> call, asked for \<open>n\<close> bytes, accepts \<open>fw c n\<close> of them, and \<open>ferr c\<close> tells whether
  \<open>ferror\<close> is set after it. The write loop has no exit on an error, so it is a partial function and
  not returning is \<open>None\<close>. The clock is read through explicit arguments; \<open>fopen\<close> tells which files can be
  opened.
\<close>

section \<open>FileUtil\<close>

text \<open>\<open>fu_stream\<close> is what the stream accepted since the file was opened, \<open>fu_calls\<close> counts its calls.\<close>

record FileUtil =
  fu_name :: string
  writtenBytes :: nat
  fu_stream :: "char list"
  fu_calls :: nat
  fu_errors :: nat
  fu_flushes :: nat

definition FileUtil_new :: "string \<Rightarrow> FileUtil" where
  "FileUtil_new fileName =
     \<lparr>fu_name = fileName, writtenBytes = 0, fu_stream = [], fu_calls = 0, fu_errors = 0, fu_flushes = 0\<rparr>"

text \<open>
  The constructor gives the result of \<open>fopen\<close> to \<open>setbuffer\<close> untested: a file that cannot be opened ends in
  a null pointer.
\<close>

definition FileUtil_open :: "(string \<Rightarrow> bool) \<Rightarrow> string \<Rightarrow> FileUtil result" where
  "FileUtil_open fopen fileName = (if fopen fileName then Inr (FileUtil_new fileName) else Inl NullDeref)"

definition FileUtil_write :: "(nat \<Rightarrow> nat \<Rightarrow> nat) \<Rightarrow> char list \<Rightarrow> FileUtil \<Rightarrow> nat \<times> FileUtil" where
  "FileUtil_write fw data f =
     (let n = fw (fu_calls f) (length data)
      in (n, f\<lparr>fu_stream := fu_stream f @ take n data, fu_calls := fu_calls f + 1\<rparr>))"

text \<open>The loop of \<open>append\<close>: an error is reported on \<open>stderr\<close>, and the loop goes on.\<close>

partial_function (option) append_loop ::
  "(nat \<Rightarrow> nat \<Rightarrow> nat) \<Rightarrow> (nat \<Rightarrow> bool) \<Rightarrow> char list \<Rightarrow> nat \<Rightarrow> FileUtil \<Rightarrow> (nat \<times> FileUtil) option" where
  "append_loop fw ferr data written f =
     (if written \<noteq> length data
      then let remain = sz_sub (length data) written;
               wr = FileUtil_write fw (take remain (drop written data)) f;
               f' = (if fst wr \<noteq> remain \<and> ferr (fu_calls f)
                     then (snd wr)\<lparr>fu_errors := fu_errors (snd wr) + 1\<rparr> else snd wr)
           in append_loop fw ferr data (sz_add written (fst wr)) f'
      else Some (written, f))"

definition FileUtil_append ::
  "(nat \<Rightarrow> nat \<Rightarrow> nat) \<Rightarrow> (nat \<Rightarrow> bool) \<Rightarrow> char list \<Rightarrow> FileUtil \<Rightarrow> FileUtil option" where
  "FileUtil_append fw ferr data f =
     (case append_loop fw ferr data 0 f of
        None \<Rightarrow> None
      | Some (written, f') \<Rightarrow> Some (f'\<lparr>writtenBytes := writtenBytes f' + written\<rparr>))"

definition FileUtil_flush :: "FileUtil \<Rightarrow> FileUtil" where
  "FileUtil_flush f = f\<lparr>fu_flushes := fu_flushes f + 1\<rparr>"

text \<open>\<open>fwrite\<close> accepts at most what it is given.\<close>

definition fwrite_spec :: "(nat \<Rightarrow> nat \<Rightarrow> nat) \<Rightarrow> bool" where
  "fwrite_spec fw \<longleftrightarrow> (\<forall>c n. fw c n \<le> n)"

text \<open>The stream is not stuck: later on there is always another call that makes progress.\<close>

definition fwrite_progress :: "(nat \<Rightarrow> nat \<Rightarrow> nat) \<Rightarrow> bool" where
  "fwrite_progress fw \<longleftrightarrow> (\<forall>c. \<exists>c'\<ge>c. \<forall>n>0. 0 < fw c' n)"

text \<open>One round of the loop on a request of ordinary size.\<close>

lemma append_loop_step:
  assumes "fwrite_spec fw" "written < length data" "length data < 2 ^ 63"
  shows "\<exists>f'. append_loop fw ferr data written f =
      append_loop fw ferr data (written + fw (fu_calls f) (length data - written)) f' \<and>
    fu_stream f' = fu_stream f @ take (fw (fu_calls f) (length data - written)) (drop written data) \<and>
    fu_calls f' = Suc (fu_calls f) \<and> writtenBytes f' = writtenBytes f \<and> fu_name f' = fu_name f \<and>
    fu_flushes f' = fu_flushes f"
proof -
  let ?r = "length data - written" let ?n = "fw (fu_calls f) ?r"
  have n: "?n \<le> ?r" using assms(1) by (simp add: fwrite_spec_def)
  have r: "sz_sub (length data) written = ?r" using assms(2,3) by (simp add: size_simps)
  have s: "sz_add written ?n = written + ?n" using assms(2,3) n by (simp add: size_simps)
  let ?g = "f\<lparr>fu_stream := fu_stream f @ take ?n (drop written data), fu_calls := fu_calls f + 1\<rparr>"
  let ?f = "if ?n \<noteq> ?r \<and> ferr (fu_calls f) then ?g\<lparr>fu_errors := fu_errors ?g + 1\<rparr> else ?g"
  have "append_loop fw ferr data written f = append_loop fw ferr data (written + ?n) ?f"
    using assms(2) n
    by (subst append_loop.simps) (simp add: r s FileUtil_write_def Let_def min_absorb1)
  then show ?thesis by (intro exI [of _ ?f]) simp
qed

lemma append_loop_complete:
  assumes spec: "fwrite_spec fw" and prog: "fwrite_progress fw" and len: "length data < 2 ^ 63"
  shows "written \<le> length data \<Longrightarrow>
    \<exists>f'. append_loop fw ferr data written f = Some (length data, f') \<and>
      fu_stream f' = fu_stream f @ drop written data \<and> writtenBytes f' = writtenBytes f \<and>
      fu_name f' = fu_name f \<and> fu_flushes f' = fu_flushes f"
proof (induction "length data - written" arbitrary: written f rule: less_induct)
  case less
  note outer = less
  obtain c' where c': "fu_calls f \<le> c'" "\<forall>n>0. 0 < fw c' n"
    using prog unfolding fwrite_progress_def by blast
  from c'(1) outer(2) show ?case
  proof (induction "c' - fu_calls f" arbitrary: f)
    case (0 f)
    then have now: "c' = fu_calls f" by simp
    show ?case
    proof (cases "written = length data")
      case True
      then show ?thesis by (simp add: append_loop.simps)
    next
      case False
      with 0 have lt: "written < length data" by simp
      let ?n = "fw (fu_calls f) (length data - written)"
      have n: "0 < ?n" "?n \<le> length data - written"
        using c'(2) now lt spec by (auto simp: fwrite_spec_def)
      obtain f1 where f1: "append_loop fw ferr data written f = append_loop fw ferr data (written + ?n) f1"
          "fu_stream f1 = fu_stream f @ take ?n (drop written data)" "writtenBytes f1 = writtenBytes f"
          "fu_name f1 = fu_name f" "fu_flushes f1 = fu_flushes f"
        using append_loop_step [OF spec lt len] by blast
      have "\<exists>f'. append_loop fw ferr data (written + ?n) f1 = Some (length data, f') \<and>
          fu_stream f' = fu_stream f1 @ drop (written + ?n) data \<and> writtenBytes f' = writtenBytes f1 \<and>
          fu_name f' = fu_name f1 \<and> fu_flushes f' = fu_flushes f1"
        using n lt by (intro outer(1)) auto
      moreover have "take ?n (drop written data) @ drop (written + ?n) data = drop written data"
        by (metis append_take_drop_id drop_drop add.commute)
      ultimately show ?thesis using f1 by auto
    qed
  next
    case (Suc d f)
    show ?case
    proof (cases "written = length data")
      case True
      then show ?thesis by (simp add: append_loop.simps)
    next
      case False
      with Suc have lt: "written < length data" by simp
      let ?n = "fw (fu_calls f) (length data - written)"
      have n: "?n \<le> length data - written" using spec by (simp add: fwrite_spec_def)
      obtain f1 where f1: "append_loop fw ferr data written f = append_loop fw ferr data (written + ?n) f1"
          "fu_stream f1 = fu_stream f @ take ?n (drop written data)" "fu_calls f1 = Suc (fu_calls f)"
          "writtenBytes f1 = writtenBytes f" "fu_name f1 = fu_name f" "fu_flushes f1 = fu_flushes f"
        using append_loop_step [OF spec lt len] by blast
      have "\<exists>f'. append_loop fw ferr data (written + ?n) f1 = Some (length data, f') \<and>
          fu_stream f' = fu_stream f1 @ drop (written + ?n) data \<and> writtenBytes f' = writtenBytes f1 \<and>
          fu_name f' = fu_name f1 \<and> fu_flushes f' = fu_flushes f1"
      proof (cases "?n = 0")
        case True
        have "d = c' - fu_calls f1" "fu_calls f1 \<le> c'" using Suc(2) f1(3) by auto
        then show ?thesis using Suc(1) [of f1] Suc(4) True by simp
      next
        case False
        then show ?thesis using n lt by (intro outer(1)) auto
      qed
      moreover have "take ?n (drop written data) @ drop (written + ?n) data = drop written data"
        by (metis append_take_drop_id drop_drop add.commute)
      ultimately show ?thesis using f1 by auto
    qed
  qed
qed

text \<open>
  A loop that returns with something to write has met a call that accepted a byte.
\<close>

lemma append_loop_stuck:
  assumes "append_loop fw ferr data written f = Some r"
  shows "written \<noteq> length data \<longrightarrow> written < 2 ^ 64 \<longrightarrow> (\<exists>c\<ge>fu_calls f. \<exists>n. fw c n \<noteq> 0)"
proof (rule append_loop.raw_induct [where P = "\<lambda>fw ferr data written f r.
    written \<noteq> length data \<longrightarrow> written < 2 ^ 64 \<longrightarrow> (\<exists>c\<ge>fu_calls f. \<exists>n. fw c n \<noteq> 0)", OF _ assms],
    intro impI)
  fix loop fw ferr data written f r
  assume IH: "\<And>fw ferr data written f r. loop fw ferr data written f = Some r \<Longrightarrow>
      written \<noteq> length data \<longrightarrow> written < 2 ^ 64 \<longrightarrow> (\<exists>c\<ge>fu_calls f. \<exists>n. fw c n \<noteq> 0)"
    and eq: "(if written \<noteq> length data
      then let remain = sz_sub (length data) written;
               wr = FileUtil_write fw (take remain (drop written data)) f;
               f' = (if fst wr \<noteq> remain \<and> ferr (fu_calls f)
                     then (snd wr)\<lparr>fu_errors := fu_errors (snd wr) + 1\<rparr> else snd wr)
           in loop fw ferr data (sz_add written (fst wr)) f'
      else Some (written, f)) = Some r"
    and ne: "written \<noteq> length data" and lt: "written < 2 ^ 64"
  let ?x = "take (sz_sub (length data) written) (drop written data)"
  show "\<exists>c\<ge>fu_calls f. \<exists>n. fw c n \<noteq> 0"
  proof (cases "fw (fu_calls f) (length ?x) = 0")
    case False
    then show ?thesis by blast
  next
    case True
    have w: "sz_add written 0 = written" using lt by (simp add: sz_add_def)
    let ?wr = "FileUtil_write fw ?x f"
    have wr: "fst ?wr = 0" "fu_calls (snd ?wr) = Suc (fu_calls f)"
      using True by (simp_all add: FileUtil_write_def Let_def)
    let ?f' = "if fst ?wr \<noteq> sz_sub (length data) written \<and> ferr (fu_calls f)
      then (snd ?wr)\<lparr>fu_errors := fu_errors (snd ?wr) + 1\<rparr> else snd ?wr"
    have "loop fw ferr data (sz_add written (fst ?wr)) ?f' = Some r"
      using eq ne by (simp only: Let_def if_True simp_thms)
    then have "loop fw ferr data written ?f' = Some r" by (simp only: wr(1) w)
    moreover have "fu_calls ?f' = Suc (fu_calls f)" using wr(2) by simp
    ultimately obtain f' where "fu_calls f' = Suc (fu_calls f)" "loop fw ferr data written f' = Some r"
      by blast
    with IH [of fw ferr data written f' r] ne lt obtain c n where "c \<ge> Suc (fu_calls f)" "fw c n \<noteq> 0"
      by auto
    then show ?thesis by (intro exI [of _ c]) auto
  qed
qed


lemma FileUtil_append_ok:
  assumes "fwrite_spec fw" "fwrite_progress fw" "length data < 2 ^ 63"
  shows "\<exists>f'. FileUtil_append fw ferr data f = Some f' \<and> fu_stream f' = fu_stream f @ data \<and>
    writtenBytes f' = writtenBytes f + length data \<and> fu_name f' = fu_name f \<and>
    fu_flushes f' = fu_flushes f"
  using append_loop_complete [OF assms, of 0 ferr f] by (auto simp: FileUtil_append_def)

section \<open>LogFile\<close>

record LogFile =
  lf_basename :: string
  rollSize :: int
  flushInterval :: int
  checkEveryN :: int
  lf_count :: int
  startOfPeriod :: int
  lastRoll :: int
  lastFlush :: int
  lf_file :: "FileUtil option"
  lf_closed :: "FileUtil list"

definition kRollPerSeconds :: int where "kRollPerSeconds = 60 * 60 * 24"

text \<open>\<open>stamp now\<close> is what \<open>strftime\<close> gives for \<open>%Y%m%d-%H%M%S\<close> in local time.\<close>

definition getLogFileName :: "(int \<Rightarrow> string) \<Rightarrow> string \<Rightarrow> int \<Rightarrow> string" where
  "getLogFileName stamp bname now = bname @ ''.'' @ stamp now @ ''.'' @ ''.log''"

text \<open>
  \<open>file_.reset\<close> closes the old file, which is kept in \<open>lf_closed\<close> in the order of closing.
\<close>

definition rollFile ::
  "(string \<Rightarrow> bool) \<Rightarrow> (int \<Rightarrow> string) \<Rightarrow> int \<Rightarrow> LogFile \<Rightarrow> (LogFile \<times> bool) result" where
  "rollFile fopen stamp now lf =
     (let filename = getLogFileName stamp (lf_basename lf) now;
          start = cdiv now kRollPerSeconds * kRollPerSeconds
      in if now > lastRoll lf
         then rbind (FileUtil_open fopen filename) (\<lambda>f'.
                Inr (lf\<lparr>lastRoll := now, lastFlush := now, startOfPeriod := start, lf_file := Some f',
                  lf_closed := lf_closed lf @ (case lf_file lf of None \<Rightarrow> [] | Some f \<Rightarrow> [f])\<rparr>, True))
         else Inr (lf, False))"

definition LogFile_new ::
  "(string \<Rightarrow> bool) \<Rightarrow> (int \<Rightarrow> string) \<Rightarrow> int \<Rightarrow> string \<Rightarrow> int \<Rightarrow> int \<Rightarrow> int \<Rightarrow> LogFile result" where
  "LogFile_new fopen stamp now bname roll flush check =
     rbind (rollFile fopen stamp now
       \<lparr>lf_basename = bname, rollSize = roll, flushInterval = flush, checkEveryN = check,
        lf_count = 0, startOfPeriod = 0, lastRoll = 0, lastFlush = 0, lf_file = None, lf_closed = []\<rparr>)
       (\<lambda>(lf, rolled). Inr lf)"

definition LogFile_flush :: "LogFile \<Rightarrow> LogFile result" where
  "LogFile_flush lf =
     (case lf_file lf of None \<Rightarrow> Inl NullDeref
      | Some f \<Rightarrow> Inr (lf\<lparr>lf_file := Some (FileUtil_flush f)\<rparr>))"

text \<open>
  \<open>append_unlocked\<close>: \<open>t_check\<close> is the time read by the periodic check, \<open>t_roll\<close> the time \<open>rollFile\<close>
  reads. \<open>append\<close> is the same under the mutex, when there is one.
\<close>

definition append_unlocked ::
  "(nat \<Rightarrow> nat \<Rightarrow> nat) \<Rightarrow> (nat \<Rightarrow> bool) \<Rightarrow> (string \<Rightarrow> bool) \<Rightarrow> (int \<Rightarrow> string) \<Rightarrow> int \<Rightarrow> int \<Rightarrow> char list
    \<Rightarrow> LogFile \<Rightarrow> LogFile result option" where
  "append_unlocked fw ferr fopen stamp t_check t_roll logline lf =
     (case lf_file lf of
        None \<Rightarrow> Some (Inl NullDeref)
      | Some f \<Rightarrow>
          (case FileUtil_append fw ferr logline f of
             None \<Rightarrow> None
           | Some f' \<Rightarrow>
               let lf1 = lf\<lparr>lf_file := Some f'\<rparr>
               in if int (writtenBytes f') > rollSize lf1
                  then Some (rbind (rollFile fopen stamp t_roll lf1) (\<lambda>(lf', rolled). Inr lf'))
                  else
                    let lf2 = lf1\<lparr>lf_count := lf_count lf1 + 1\<rparr>
                    in if lf_count lf2 \<ge> checkEveryN lf2
                       then let lf3 = lf2\<lparr>lf_count := 0\<rparr>;
                                thisPeriod = cdiv t_check kRollPerSeconds * kRollPerSeconds
                            in if thisPeriod > startOfPeriod lf3
                               then Some (rbind (rollFile fopen stamp t_roll lf3) (\<lambda>(lf', rolled). Inr lf'))
                               else if t_check - lastFlush lf3 > flushInterval lf3
                               then Some (LogFile_flush (lf3\<lparr>lastFlush := t_check\<rparr>))
                               else Some (Inr lf3)
                       else Some (Inr lf2)))"

text \<open>What the log holds: the closed files and the current one, in order.\<close>

definition LogFile_text :: "LogFile \<Rightarrow> char list" where
  "LogFile_text lf = concat (map fu_stream (lf_closed lf))
     @ (case lf_file lf of None \<Rightarrow> [] | Some f \<Rightarrow> fu_stream f)"

definition LogFile_inv :: "LogFile \<Rightarrow> bool" where
  "LogFile_inv lf \<longleftrightarrow>
     (\<exists>f. lf_file lf = Some f \<and> writtenBytes f = length (fu_stream f)) \<and>
     0 \<le> lf_count lf \<and> lf_count lf < checkEveryN lf \<and> 0 < lastRoll lf \<and>
     startOfPeriod lf \<le> lastRoll lf \<and> lastRoll lf < startOfPeriod lf + kRollPerSeconds"

lemma day_bounds:
  assumes "0 < now"
  shows "cdiv now kRollPerSeconds * kRollPerSeconds \<le> now"
    "now < cdiv now kRollPerSeconds * kRollPerSeconds + kRollPerSeconds"
proof -
  have "cdiv now kRollPerSeconds * kRollPerSeconds = now - now mod kRollPerSeconds"
    using assms by (simp add: cdiv_nonneg kRollPerSeconds_def minus_mod_eq_div_mult)
  then show "cdiv now kRollPerSeconds * kRollPerSeconds \<le> now"
    "now < cdiv now kRollPerSeconds * kRollPerSeconds + kRollPerSeconds"
    by (simp_all add: kRollPerSeconds_def)
qed

text \<open>\<open>rollFile\<close> fails only when the new file cannot be opened; it keeps text and invariant.\<close>

lemma rollFile_ok:
  "ends {NullDeref} (\<lambda>(lf', rolled). LogFile_text lf' = LogFile_text lf \<and> (LogFile_inv lf \<longrightarrow> LogFile_inv lf'))
    (rollFile fopen stamp now lf)"
  using day_bounds [of now]
  by (auto simp: rollFile_def FileUtil_open_def LogFile_inv_def LogFile_text_def FileUtil_new_def Let_def split: option.splits)

lemma rollFile_opens: "(\<And>name. fopen name) \<Longrightarrow> \<exists>r. rollFile fopen stamp now lf = Inr r"
  by (cases "now > lastRoll lf") (simp_all add: rollFile_def FileUtil_open_def Let_def del: split_paired_Ex)

lemma rollFile_done:
  assumes "\<And>name. fopen name"
  shows "\<exists>lf'. rbind (rollFile fopen stamp now lf) (\<lambda>(lf', rolled). Inr lf') = Inr lf' \<and>
    LogFile_text lf' = LogFile_text lf \<and> (LogFile_inv lf \<longrightarrow> LogFile_inv lf')"
  using rollFile_opens [of fopen stamp now lf] rollFile_ok [of lf fopen stamp now] assms by auto

lemma LogFile_new_ok:
  assumes "0 < now" "0 < check" "\<And>name. fopen name"
  shows "\<exists>lf. LogFile_new fopen stamp now bname roll flush check = Inr lf \<and> LogFile_inv lf \<and> LogFile_text lf = []"
  using assms day_bounds [of now]
  by (simp add: LogFile_new_def rollFile_def FileUtil_open_def LogFile_inv_def LogFile_text_def FileUtil_new_def Let_def)

lemma append_unlocked_ok:
  assumes "fwrite_spec fw" "fwrite_progress fw" "length line < 2 ^ 63" "LogFile_inv lf" and fopen: "\<And>name. fopen name"
  shows "\<exists>lf'. append_unlocked fw ferr fopen stamp t_check t_roll line lf = Some (Inr lf') \<and>
    LogFile_inv lf' \<and> LogFile_text lf' = LogFile_text lf @ line"
proof -
  from assms(4) obtain f where f: "lf_file lf = Some f" "writtenBytes f = length (fu_stream f)"
    by (auto simp: LogFile_inv_def)
  obtain f' where f': "FileUtil_append fw ferr line f = Some f'" "fu_stream f' = fu_stream f @ line"
      "writtenBytes f' = length (fu_stream f')"
    using FileUtil_append_ok [OF assms(1-3), of ferr f] f(2) by auto
  let ?lf1 = "lf\<lparr>lf_file := Some f'\<rparr>"
  have inv1: "LogFile_inv ?lf1" and text1: "LogFile_text ?lf1 = LogFile_text lf @ line"
    using assms(4) f f' by (auto simp: LogFile_inv_def LogFile_text_def)
  have count: "LogFile_inv (?lf1\<lparr>lf_count := n\<rparr>)" "LogFile_text (?lf1\<lparr>lf_count := n\<rparr>) = LogFile_text ?lf1"
    if "0 \<le> n" "n < checkEveryN lf" for n
    using inv1 that by (auto simp: LogFile_inv_def LogFile_text_def)
  have zero: "0 < checkEveryN lf" "0 \<le> lf_count lf" using assms(4) by (auto simp: LogFile_inv_def)
  have flushed: "LogFile_inv (?lf1\<lparr>lf_count := 0, lastFlush := t, lf_file := Some (FileUtil_flush f')\<rparr>)"
    "LogFile_text (?lf1\<lparr>lf_count := 0, lastFlush := t, lf_file := Some (FileUtil_flush f')\<rparr>) = LogFile_text ?lf1"
    for t
    using inv1 zero by (auto simp: LogFile_inv_def LogFile_text_def FileUtil_flush_def)
  show ?thesis
    using f(1) f'(1) inv1 text1 count [of 0] count [of "lf_count lf + 1"] zero flushed [of t_check]
      rollFile_done [of fopen stamp t_roll ?lf1] rollFile_done [of fopen stamp t_roll "?lf1\<lparr>lf_count := 0\<rparr>"] fopen
    by (auto simp: append_unlocked_def Let_def LogFile_flush_def)
qed


section \<open>The contract: a sink for blocks of text\<close>

text \<open>
  The asynchronous logger needs of its file only that a block handed over is kept behind the earlier
  ones, and that a flush keeps what is there. \<open>log_sink\<close> packs a \<open>LogFile\<close> with the stream, the time stamps and the clock it uses; the
  \<open>k\<close>-th reading of \<open>time\<close> is \<open>ls_clock k\<close>.
\<close>

fun sput_all :: "('s \<Rightarrow> char list \<Rightarrow> 's result option) \<Rightarrow> 's \<Rightarrow> char list list \<Rightarrow> 's result option" where
  "sput_all sput s [] = Some (Inr s)"
| "sput_all sput s (x # xs) =
     (case sput s x of
        None \<Rightarrow> None
      | Some (Inl e) \<Rightarrow> Some (Inl e)
      | Some (Inr s') \<Rightarrow> sput_all sput s' xs)"

locale text_sink =
  fixes sinv :: "'s \<Rightarrow> bool"
    and stext :: "'s \<Rightarrow> char list"
    and sput :: "'s \<Rightarrow> char list \<Rightarrow> 's result option"
    and sflush :: "'s \<Rightarrow> 's result"
  assumes sput_ok: "sinv s \<Longrightarrow> length xs < 2 ^ 63 \<Longrightarrow>
      \<exists>s'. sput s xs = Some (Inr s') \<and> sinv s' \<and> stext s' = stext s @ xs"
    and sflush_ok: "sinv s \<Longrightarrow> \<exists>s'. sflush s = Inr s' \<and> sinv s' \<and> stext s' = stext s"
begin

lemma sput_all_ok:
  "sinv s \<Longrightarrow> \<forall>xs\<in>set xss. length xs < 2 ^ 63 \<Longrightarrow>
    \<exists>s'. sput_all sput s xss = Some (Inr s') \<and> sinv s' \<and> stext s' = stext s @ concat xss"
proof (induction xss arbitrary: s)
  case Nil
  then show ?case by simp
next
  case (Cons x xs)
  then obtain s1 where "sput s x = Some (Inr s1)" "sinv s1" "stext s1 = stext s @ x"
    using sput_ok [of s x] by auto
  with Cons.IH [of s1] Cons.prems(2) show ?case by auto
qed

end

record log_sink =
  ls_fwrite :: "nat \<Rightarrow> nat \<Rightarrow> nat"
  ls_ferror :: "nat \<Rightarrow> bool"
  ls_fopen :: "string \<Rightarrow> bool"
  ls_stamp :: "int \<Rightarrow> string"
  ls_clock :: "nat \<Rightarrow> int"
  ls_tick :: nat
  ls_log :: LogFile

definition LogFile_append :: "log_sink \<Rightarrow> char list \<Rightarrow> log_sink result option" where
  "LogFile_append s logline =
     (case append_unlocked (ls_fwrite s) (ls_ferror s) (ls_fopen s) (ls_stamp s)
             (ls_clock s (ls_tick s)) (ls_clock s (ls_tick s + 1)) logline (ls_log s) of
        None \<Rightarrow> None
      | Some (Inl e) \<Rightarrow> Some (Inl e)
      | Some (Inr lf) \<Rightarrow> Some (Inr (s\<lparr>ls_log := lf, ls_tick := ls_tick s + 2\<rparr>)))"

definition log_sink_inv :: "log_sink \<Rightarrow> bool" where
  "log_sink_inv s \<longleftrightarrow> fwrite_spec (ls_fwrite s) \<and> fwrite_progress (ls_fwrite s) \<and>
     (\<forall>name. ls_fopen s name) \<and> LogFile_inv (ls_log s)"

definition log_sink_text :: "log_sink \<Rightarrow> char list" where
  "log_sink_text s = LogFile_text (ls_log s)"

lemma LogFile_append_ok:
  assumes "log_sink_inv s" "length xs < 2 ^ 63"
  shows "\<exists>s'. LogFile_append s xs = Some (Inr s') \<and> log_sink_inv s' \<and>
    log_sink_text s' = log_sink_text s @ xs"
proof -
  have "fwrite_spec (ls_fwrite s)" "fwrite_progress (ls_fwrite s)" "LogFile_inv (ls_log s)" "\<And>name. ls_fopen s name"
    using assms(1) by (simp_all add: log_sink_inv_def)
  then obtain lf' where "append_unlocked (ls_fwrite s) (ls_ferror s) (ls_fopen s) (ls_stamp s)
        (ls_clock s (ls_tick s)) (ls_clock s (ls_tick s + 1)) xs (ls_log s) = Some (Inr lf')"
      "LogFile_inv lf'" "LogFile_text lf' = LogFile_text (ls_log s) @ xs"
    using append_unlocked_ok assms(2) by blast
  then show ?thesis
    using assms(1) by (auto simp: LogFile_append_def log_sink_inv_def log_sink_text_def)
qed

definition log_sink_flush :: "log_sink \<Rightarrow> log_sink result" where
  "log_sink_flush s = rbind (LogFile_flush (ls_log s)) (\<lambda>lf. Inr (s\<lparr>ls_log := lf\<rparr>))"

lemma log_sink_flush_ok:
  assumes "log_sink_inv s"
  shows "\<exists>s'. log_sink_flush s = Inr s' \<and> log_sink_inv s' \<and> log_sink_text s' = log_sink_text s"
  using assms
  by (auto simp: log_sink_flush_def LogFile_flush_def FileUtil_flush_def log_sink_inv_def log_sink_text_def
      LogFile_inv_def LogFile_text_def)

interpretation logfile: text_sink log_sink_inv log_sink_text LogFile_append log_sink_flush
  by unfold_locales (rule LogFile_append_ok log_sink_flush_ok; assumption)+

section \<open>Properties\<close>

text \<open>C38: the write loop of \<open>FileUtil::append\<close> has no way out of a permanent write error. Once the stream accepts nothing any
  more, as on a full disk, an \<open>append\<close> of at least one byte never returns: the error is reported on
  \<open>stderr\<close> again and again.\<close>

theorem FileUtil_append_never_returns:
  assumes "\<forall>c\<ge>fu_calls f. \<forall>n. fw c n = 0" "data \<noteq> []"
  shows "FileUtil_append fw ferr data f = None"
proof -
  have "append_loop fw ferr data 0 f = None"
    using append_loop_stuck [of fw ferr data 0 f] assms by (cases "append_loop fw ferr data 0 f") auto
  then show ?thesis by (simp add: FileUtil_append_def)
qed

theorem FileUtil_append_never_returns_witness:
  "FileUtil_append (\<lambda>c n. 0) (\<lambda>_. True) ''x'' (FileUtil_new ''log'') = None"
  by (rule FileUtil_append_never_returns) simp_all

fun LogFile_run ::
  "(nat \<Rightarrow> nat \<Rightarrow> nat) \<Rightarrow> (nat \<Rightarrow> bool) \<Rightarrow> (string \<Rightarrow> bool) \<Rightarrow> (int \<Rightarrow> string) \<Rightarrow> LogFile
    \<Rightarrow> (int \<times> int \<times> char list) list \<Rightarrow> LogFile result option" where
  "LogFile_run fw ferr fopen stamp lf [] = Some (Inr lf)"
| "LogFile_run fw ferr fopen stamp lf ((tc, tr, ln) # es) =
     (case append_unlocked fw ferr fopen stamp tc tr ln lf of
        None \<Rightarrow> None
      | Some (Inl e) \<Rightarrow> Some (Inl e)
      | Some (Inr lf') \<Rightarrow> LogFile_run fw ferr fopen stamp lf' es)"

text \<open>C21: rolling loses nothing. From a new log, any sequence of appended lines at any times
  succeeds if files can be opened, never goes through a null file, keeps the bookkeeping of \<open>LogFile\<close> (the count stays below
  \<open>checkEveryN_\<close>, the last roll lies in the day \<open>startOfPeriod_\<close> names, \<open>writtenBytes\<close> is the size of
  the current file), and the files in the order of their creation hold exactly the lines in order.\<close>

theorem LogFile_keeps_every_line:
  assumes "fwrite_spec fw" "fwrite_progress fw" "0 < now" "0 < check" "\<And>name. fopen name"
    and "\<forall>(tc, tr, ln)\<in>set es. length ln < 2 ^ 63"
  shows "\<exists>lf0 lf. LogFile_new fopen stamp now bname roll flush check = Inr lf0 \<and>
    LogFile_run fw ferr fopen stamp lf0 es = Some (Inr lf) \<and>
    LogFile_inv lf \<and> LogFile_text lf = concat (map (snd \<circ> snd) es)"
proof -
  have "\<exists>lf'. LogFile_run fw ferr fopen stamp lf es = Some (Inr lf') \<and> LogFile_inv lf' \<and>
      LogFile_text lf' = LogFile_text lf @ concat (map (snd \<circ> snd) es)" if "LogFile_inv lf" for lf
    using that assms(6)
  proof (induction es arbitrary: lf)
    case Nil
    then show ?case by simp
  next
    case (Cons e es)
    obtain tc tr ln where e: "e = (tc, tr, ln)" by (cases e)
    then obtain lf1 where "append_unlocked fw ferr fopen stamp tc tr ln lf = Some (Inr lf1)"
        "LogFile_inv lf1" "LogFile_text lf1 = LogFile_text lf @ ln"
      using append_unlocked_ok [OF assms(1,2) _ Cons.prems(1) assms(5)] Cons.prems(2) by force
    with Cons.IH [of lf1] Cons.prems(2) e show ?case by auto
  qed
  with LogFile_new_ok [OF assms(3-5), where stamp = stamp and bname = bname and roll = roll and flush = flush] show ?thesis by fastforce
qed

theorem LogFile_keeps_every_line_witness:
  "\<exists>lf0 lf. LogFile_new (\<lambda>_. True) (\<lambda>_. ''s'') 100 ''b'' 3 3 1 = Inr lf0 \<and>
    LogFile_run (\<lambda>c n. n) (\<lambda>_. False) (\<lambda>_. True) (\<lambda>_. ''s'') lf0
      [(200, 200, ''abcd''), (201, 201, ''ef'')] = Some (Inr lf) \<and>
    LogFile_inv lf \<and> LogFile_text lf = ''abcdef''"
  using LogFile_keeps_every_line [of "\<lambda>c n. n" 100 1 "\<lambda>_. True" "[(200, 200, ''abcd''), (201, 201, ''ef'')]"
      "\<lambda>_. ''s''" "''b''" 3 3 "\<lambda>_. False"]
  by (auto simp: fwrite_spec_def fwrite_progress_def)

end
