(* ===== verification/Log_Async.thy ===== *)
theory Log_Async
  imports Log_Stream Log_File
begin

text \<open>
  \<open>src/logger/AsyncLogging\<close>: front-end threads append lines to a large buffer under a mutex, one
  back-end thread swaps the full buffers out and writes them to the log file. Owning pointers are
  \<open>option\<close> values, \<open>None\<close> being null, so going through a moved-from pointer is a failure.
  A critical section is one step; the back end's work between two of them is three steps, so lines and the
  call of \<open>stop\<close> can arrive at any point of it. The file is any \<open>text_sink\<close>; the properties use the one of \<open>Log_File\<close>.
\<close>

section \<open>State and steps\<close>

text \<open>
  Where the back end is: at the test of \<open>running_\<close>, behind it (waiting for full buffers, or on its way into the
  critical section), behind the critical section, behind the writing, behind the loop.
\<close>

datatype backend_pc = AtTop | InWait | Swapped | Written | Finished

text \<open>\<open>al_accepted\<close> records the lines taken so far; nothing in the code reads it.\<close>

record 's AsyncLogging =
  al_running :: bool
  currentBuffer :: "FixedBuffer option"
  nextBuffer :: "FixedBuffer option"
  al_buffers :: "FixedBuffer option list"
  newBuffer1 :: "FixedBuffer option"
  newBuffer2 :: "FixedBuffer option"
  buffersToWrite :: "FixedBuffer option list"
  al_output :: 's
  al_pc :: backend_pc
  al_accepted :: "char list"

text \<open>The constructor, \<open>start\<close>, and the beginning of \<open>threadFunc\<close>.\<close>

definition AsyncLogging_start :: "'s \<Rightarrow> 's AsyncLogging" where
  "AsyncLogging_start output =
     \<lparr>al_running = True,
      currentBuffer = Some (FixedBuffer_bzero (FixedBuffer_new kLargeBuffer)),
      nextBuffer = Some (FixedBuffer_bzero (FixedBuffer_new kLargeBuffer)), al_buffers = [],
      newBuffer1 = Some (FixedBuffer_bzero (FixedBuffer_new kLargeBuffer)),
      newBuffer2 = Some (FixedBuffer_bzero (FixedBuffer_new kLargeBuffer)),
      buffersToWrite = [], al_output = output, al_pc = AtTop, al_accepted = []\<rparr>"

definition AsyncLogging_append :: "char list \<Rightarrow> 's AsyncLogging \<Rightarrow> 's AsyncLogging result" where
  "AsyncLogging_append logline s =
     (case currentBuffer s of
        None \<Rightarrow> Inl NullDeref
      | Some cur \<Rightarrow>
          if avail cur > int (length logline)
          then rbind (FixedBuffer_append cur logline) (\<lambda>cur'.
                 Inr (s\<lparr>currentBuffer := Some cur', al_accepted := al_accepted s @ logline\<rparr>))
          else
            let (cur1, nxt1) = (case nextBuffer s of
                  Some nb \<Rightarrow> (nb, None)
                | None \<Rightarrow> (FixedBuffer_new kLargeBuffer, None))
            in rbind (FixedBuffer_append cur1 logline) (\<lambda>cur'.
                 Inr (s\<lparr>al_buffers := al_buffers s @ [Some cur], currentBuffer := Some cur',
                        nextBuffer := nxt1,
                        al_accepted := al_accepted s @
                          (if avail cur1 > int (length logline) then logline else [])\<rparr>)))"

text \<open>The critical section of \<open>threadFunc\<close>, after the timed wait.\<close>

definition backend_swap :: "'s AsyncLogging \<Rightarrow> 's AsyncLogging" where
  "backend_swap s =
     (let full = al_buffers s @ [currentBuffer s];
          s1 = s\<lparr>currentBuffer := newBuffer1 s, newBuffer1 := None,
                 al_buffers := buffersToWrite s, buffersToWrite := full, al_pc := Swapped\<rparr>
      in if nextBuffer s1 = None then s1\<lparr>nextBuffer := newBuffer2 s1, newBuffer2 := None\<rparr> else s1)"

fun buffer_texts :: "FixedBuffer option list \<Rightarrow> char list list result" where
  "buffer_texts [] = Inr []"
| "buffer_texts (None # bs) = Inl NullDeref"
| "buffer_texts (Some b # bs) = rbind (buffer_texts bs) (\<lambda>ts. Inr (FixedBuffer_toString b # ts))"

text \<open>The loop that writes all buffers to the file.\<close>

definition backend_write ::
  "('s \<Rightarrow> char list \<Rightarrow> 's result option) \<Rightarrow> 's AsyncLogging \<Rightarrow> 's AsyncLogging result option" where
  "backend_write sput s =
     (case buffer_texts (buffersToWrite s) of
        Inl e \<Rightarrow> Some (Inl e)
      | Inr ts \<Rightarrow>
          (case sput_all sput (al_output s) ts of
             None \<Rightarrow> None
           | Some (Inl e) \<Rightarrow> Some (Inl e)
           | Some (Inr out) \<Rightarrow> Some (Inr (s\<lparr>al_output := out, al_pc := Written\<rparr>))))"

text \<open>
  Giving a buffer back: \<open>back\<close> of an empty vector and \<open>reset\<close> through a null pointer are failures.
\<close>

definition take_back :: "FixedBuffer option list \<Rightarrow> (FixedBuffer \<times> FixedBuffer option list) result" where
  "take_back bs =
     (if bs = [] then Inl OutOfBounds
      else case last bs of None \<Rightarrow> Inl NullDeref | Some b \<Rightarrow> Inr (FixedBuffer_reset b, butlast bs))"

definition backend_recycle :: "('s \<Rightarrow> 's result) \<Rightarrow> 's AsyncLogging \<Rightarrow> 's AsyncLogging result" where
  "backend_recycle sflush s =
     (let bs = (if length (buffersToWrite s) > 2 then take 2 (buffersToWrite s) else buffersToWrite s)
      in rbind (case newBuffer1 s of
                  Some b \<Rightarrow> Inr (b, bs)
                | None \<Rightarrow> take_back bs) (\<lambda>(nb1, bs1).
         rbind (case newBuffer2 s of
                  Some b \<Rightarrow> Inr (b, bs1)
                | None \<Rightarrow> take_back bs1) (\<lambda>(nb2, bs2).
         rbind (sflush (al_output s)) (\<lambda>out.
           Inr (s\<lparr>newBuffer1 := Some nb1, newBuffer2 := Some nb2, buffersToWrite := [], al_output := out,
                  al_pc := AtTop\<rparr>)))))"

text \<open>\<open>stop\<close>, up to the join; the destructor stops a logger that runs. Behind its loop the back end flushes once more.\<close>

definition AsyncLogging_stop :: "'s AsyncLogging \<Rightarrow> 's AsyncLogging" where
  "AsyncLogging_stop s = s\<lparr>al_running := False\<rparr>"

definition AsyncLogging_delete :: "'s AsyncLogging \<Rightarrow> 's AsyncLogging" where
  "AsyncLogging_delete s = (if al_running s then AsyncLogging_stop s else s)"

definition backend_exit :: "('s \<Rightarrow> 's result) \<Rightarrow> 's AsyncLogging \<Rightarrow> 's AsyncLogging result" where
  "backend_exit sflush s = rbind (sflush (al_output s)) (\<lambda>out. Inr (s\<lparr>al_output := out, al_pc := Finished\<rparr>))"

datatype async_event = EvAppend "char list" | EvEnter | EvSwap | EvWrite | EvRecycle | EvStop | EvExit

text \<open>
  Who may do what when: appends and \<open>stop\<close> come from other threads at any time; the back end goes
  round its loop while \<open>running_\<close> holds at the top and leaves it otherwise. \<open>None\<close>: not enabled.
\<close>

fun async_exec ::
  "('s \<Rightarrow> char list \<Rightarrow> 's result option) \<Rightarrow> ('s \<Rightarrow> 's result) \<Rightarrow> async_event \<Rightarrow> 's AsyncLogging
    \<Rightarrow> 's AsyncLogging result option"
  where
  "async_exec sput sflush (EvAppend l) s = Some (AsyncLogging_append l s)"
| "async_exec sput sflush EvStop s = Some (Inr (AsyncLogging_stop s))"
| "async_exec sput sflush EvEnter s =
     (if al_pc s = AtTop \<and> al_running s then Some (Inr (s\<lparr>al_pc := InWait\<rparr>)) else None)"
| "async_exec sput sflush EvSwap s = (if al_pc s = InWait then Some (Inr (backend_swap s)) else None)"
| "async_exec sput sflush EvWrite s = (if al_pc s = Swapped then backend_write sput s else None)"
| "async_exec sput sflush EvRecycle s = (if al_pc s = Written then Some (backend_recycle sflush s) else None)"
| "async_exec sput sflush EvExit s =
     (if al_pc s = AtTop \<and> \<not> al_running s then Some (backend_exit sflush s) else None)"

inductive async_reach ::
  "('s \<Rightarrow> char list \<Rightarrow> 's result option) \<Rightarrow> ('s \<Rightarrow> 's result) \<Rightarrow> 's \<Rightarrow> 's AsyncLogging \<Rightarrow> bool"
  for sput :: "'s \<Rightarrow> char list \<Rightarrow> 's result option" and sflush :: "'s \<Rightarrow> 's result" and out :: 's where
  async_init: "async_reach sput sflush out (AsyncLogging_start out)"
| async_step: "async_reach sput sflush out s \<Longrightarrow> async_exec sput sflush e s = Some (Inr s') \<Longrightarrow> async_reach sput sflush out s'"

definition big_ok :: "FixedBuffer \<Rightarrow> bool" where
  "big_ok b \<longleftrightarrow> FixedBuffer_inv b \<and> length (fb_data b) = kLargeBuffer"

definition spare_ok :: "FixedBuffer option \<Rightarrow> bool" where
  "spare_ok x = (case x of None \<Rightarrow> True | Some b \<Rightarrow> big_ok b \<and> FixedBuffer_toString b = [])"

definition full_ok :: "FixedBuffer option \<Rightarrow> bool" where
  "full_ok x = (case x of None \<Rightarrow> False | Some b \<Rightarrow> big_ok b)"

definition opt_text :: "FixedBuffer option \<Rightarrow> char list" where
  "opt_text x = (case x of None \<Rightarrow> [] | Some b \<Rightarrow> FixedBuffer_toString b)"

text \<open>Text that has left the front end but not reached the file, and text still in the front end.\<close>

definition in_flight :: "'s AsyncLogging \<Rightarrow> char list" where
  "in_flight s = (if al_pc s = Swapped then concat (map opt_text (buffersToWrite s)) else [])"

definition waiting :: "'s AsyncLogging \<Rightarrow> char list" where
  "waiting s = concat (map opt_text (al_buffers s)) @ opt_text (currentBuffer s)"

definition backend_ok :: "'s AsyncLogging \<Rightarrow> bool" where
  "backend_ok s \<longleftrightarrow>
     (if al_pc s \<in> {AtTop, InWait, Finished}
      then newBuffer1 s \<noteq> None \<and> newBuffer2 s \<noteq> None \<and> buffersToWrite s = []
      else buffersToWrite s \<noteq> [] \<and> newBuffer1 s = None \<and>
        (newBuffer2 s = None \<longrightarrow> 2 \<le> length (buffersToWrite s)))"

definition async_inv :: "('s \<Rightarrow> bool) \<Rightarrow> ('s \<Rightarrow> char list) \<Rightarrow> char list \<Rightarrow> 's AsyncLogging \<Rightarrow> bool" where
  "async_inv sinv stext t0 s \<longleftrightarrow>
     sinv (al_output s) \<and> full_ok (currentBuffer s) \<and>
     (\<forall>x\<in>set (al_buffers s). full_ok x) \<and> (\<forall>x\<in>set (buffersToWrite s). full_ok x) \<and>
     spare_ok (nextBuffer s) \<and> spare_ok (newBuffer1 s) \<and> spare_ok (newBuffer2 s) \<and>
     (nextBuffer s = None \<longrightarrow> al_buffers s \<noteq> []) \<and> backend_ok s \<and>
     stext (al_output s) @ in_flight s @ waiting s = t0 @ al_accepted s"

lemma kLargeBuffer_bounds: "0 < kLargeBuffer" "kLargeBuffer < 2 ^ 31"
  by (simp_all add: kLargeBuffer_def)

lemma big_new: "big_ok (FixedBuffer_new kLargeBuffer)" "FixedBuffer_toString (FixedBuffer_new kLargeBuffer) = []"
  using FixedBuffer_new_ok [OF kLargeBuffer_bounds] by (simp_all add: big_ok_def)

lemma bzero_new: "FixedBuffer_bzero (FixedBuffer_new n) = FixedBuffer_new n"
  by (simp add: FixedBuffer_bzero_def FixedBuffer_new_def)

lemma big_append:
  assumes "big_ok b"
  shows "\<exists>b'. FixedBuffer_append b xs = Inr b' \<and> big_ok b' \<and>
    FixedBuffer_toString b' = FixedBuffer_toString b @ (if avail b > int (length xs) then xs else [])"
  using FixedBuffer_append_ok [of b xs] assms by (auto simp: big_ok_def)

lemma big_reset: "big_ok b \<Longrightarrow> big_ok (FixedBuffer_reset b) \<and> FixedBuffer_toString (FixedBuffer_reset b) = []"
  by (auto simp: big_ok_def FixedBuffer_reset_ok)

lemma full_ok_Some: "full_ok x \<Longrightarrow> \<exists>b. x = Some b \<and> big_ok b"
  by (cases x) (simp_all add: full_ok_def)

lemma start_inv:
  "sinv out \<Longrightarrow> async_inv sinv stext (stext out) (AsyncLogging_start out)"
  by (simp add: async_inv_def AsyncLogging_start_def bzero_new full_ok_def spare_ok_def big_new
      backend_ok_def in_flight_def waiting_def opt_text_def)

lemma append_inv:
  assumes "async_inv sinv stext t0 s"
  shows "\<exists>s'. AsyncLogging_append l s = Inr s' \<and> async_inv sinv stext t0 s'"
proof -
  obtain cur where cur: "currentBuffer s = Some cur" "big_ok cur"
    using assms full_ok_Some [of "currentBuffer s"] by (auto simp: async_inv_def)
  show ?thesis
  proof (cases "avail cur > int (length l)")
    case True
    obtain b' where "FixedBuffer_append cur l = Inr b'" "big_ok b'"
        "FixedBuffer_toString b' = FixedBuffer_toString cur @ l"
      using big_append [OF cur(2), of l] True by auto
    then show ?thesis
      using assms cur True
      by (auto simp: AsyncLogging_append_def async_inv_def full_ok_def backend_ok_def in_flight_def
          waiting_def opt_text_def)
  next
    case False
    define cur1 where "cur1 = (case nextBuffer s of Some nb \<Rightarrow> nb | None \<Rightarrow> FixedBuffer_new kLargeBuffer)"
    have cur1: "big_ok cur1" "FixedBuffer_toString cur1 = []"
      using assms big_new by (auto simp: cur1_def async_inv_def spare_ok_def split: option.splits)
    obtain b' where b': "FixedBuffer_append cur1 l = Inr b'" "big_ok b'"
        "FixedBuffer_toString b' = (if avail cur1 > int (length l) then l else [])"
      using big_append [OF cur1(1), of l] cur1(2) by auto
    have "AsyncLogging_append l s =
        Inr (s\<lparr>al_buffers := al_buffers s @ [Some cur], currentBuffer := Some b', nextBuffer := None,
             al_accepted := al_accepted s @ (if avail cur1 > int (length l) then l else [])\<rparr>)"
      using cur(1) False b'(1) by (auto simp: AsyncLogging_append_def cur1_def split: option.splits)
    then show ?thesis
      using assms cur b'
      by (auto simp: async_inv_def full_ok_def backend_ok_def in_flight_def waiting_def opt_text_def
          spare_ok_def)
  qed
qed

lemma swap_inv:
  assumes "async_inv sinv stext t0 s" "al_pc s = InWait"
  shows "async_inv sinv stext t0 (backend_swap s)"
proof -
  obtain nb1 nb2 where nb: "newBuffer1 s = Some nb1" "newBuffer2 s = Some nb2"
      and bw: "buffersToWrite s = []"
    using assms by (auto simp: async_inv_def backend_ok_def)
  have ok: "big_ok nb1" "FixedBuffer_toString nb1 = []" "big_ok nb2" "FixedBuffer_toString nb2 = []"
    using assms(1) nb by (simp_all add: async_inv_def spare_ok_def)
  have acc: "stext (al_output s) @ waiting s = t0 @ al_accepted s"
    using assms by (simp add: async_inv_def in_flight_def)
  show ?thesis
  proof (cases "nextBuffer s")
    case None
    then have "1 \<le> length (al_buffers s)"
      using assms(1) by (cases "al_buffers s") (simp_all add: async_inv_def)
    with None nb bw ok acc assms show ?thesis
      by (simp add: async_inv_def backend_swap_def full_ok_def spare_ok_def backend_ok_def
          in_flight_def waiting_def opt_text_def)
  next
    case (Some nx)
    with nb bw ok acc assms show ?thesis
      by (simp add: async_inv_def backend_swap_def full_ok_def spare_ok_def backend_ok_def
          in_flight_def waiting_def opt_text_def)
  qed
qed

lemma buffer_texts_ok:
  "\<forall>x\<in>set bs. full_ok x \<Longrightarrow> buffer_texts bs = Inr (map opt_text bs)"
  by (induction bs rule: buffer_texts.induct) (auto simp: full_ok_def opt_text_def)

lemma opt_text_short: "full_ok x \<Longrightarrow> length (opt_text x) < 2 ^ 63"
  by (auto simp: full_ok_def opt_text_def big_ok_def FixedBuffer_inv_def split: option.splits)

lemma recycle_inv:
  assumes "async_inv sinv stext t0 s" "al_pc s = Written"
    and flush: "sflush (al_output s) = Inr out" "sinv out" "stext out = stext (al_output s)"
  shows "\<exists>s'. backend_recycle sflush s = Inr s' \<and> async_inv sinv stext t0 s'"
proof -
  define bs where "bs = (if length (buffersToWrite s) > 2 then take 2 (buffersToWrite s) else buffersToWrite s)"
  have bs: "bs \<noteq> []" "\<forall>x\<in>set bs. full_ok x" "newBuffer2 s = None \<longrightarrow> length bs = 2"
    using assms by (auto simp: async_inv_def backend_ok_def bs_def dest: in_set_takeD)
  have nb1: "newBuffer1 s = None" using assms by (simp add: async_inv_def backend_ok_def)
  obtain b1 where b1: "last bs = Some b1" "big_ok b1"
    using bs full_ok_Some last_in_set by blast
  then have tb1: "take_back bs = Inr (FixedBuffer_reset b1, butlast bs)"
    using bs(1) by (simp add: take_back_def)
  have "\<exists>nb2 bs2. (case newBuffer2 s of Some b \<Rightarrow> Inr (b, butlast bs) | None \<Rightarrow> take_back (butlast bs))
      = Inr (nb2, bs2) \<and> spare_ok (Some nb2)"
  proof (cases "newBuffer2 s")
    case None
    then have two: "length bs = 2" using bs(3) by simp
    then have ne: "butlast bs \<noteq> []" by (cases bs) auto
    then obtain b2 where "last (butlast bs) = Some b2" "big_ok b2"
      using bs(2) full_ok_Some last_in_set in_set_butlastD by metis
    then show ?thesis
      using None ne big_reset [of b2] by (simp add: take_back_def spare_ok_def)
  next
    case (Some b)
    then show ?thesis using assms(1) by (simp add: async_inv_def spare_ok_def)
  qed
  then obtain nb2 bs2 where nb2:
      "(case newBuffer2 s of Some b \<Rightarrow> Inr (b, butlast bs) | None \<Rightarrow> take_back (butlast bs)) = Inr (nb2, bs2)"
      "spare_ok (Some nb2)"
    by blast
  have "backend_recycle sflush s = Inr (s\<lparr>newBuffer1 := Some (FixedBuffer_reset b1), newBuffer2 := Some nb2,
      buffersToWrite := [], al_output := out, al_pc := AtTop\<rparr>)"
    using nb1 tb1 nb2(1) flush(1) by (simp add: backend_recycle_def bs_def [symmetric] Let_def)
  then show ?thesis
    using assms(1,2) flush(2,3) nb2(2) big_reset [OF b1(2)]
    by (auto simp: async_inv_def backend_ok_def in_flight_def waiting_def spare_ok_def)
qed

lemma stop_frame [simp]:
  "backend_ok (s\<lparr>al_running := r\<rparr>) = backend_ok s"
  "in_flight (s\<lparr>al_running := r\<rparr>) = in_flight s"
  "waiting (s\<lparr>al_running := r\<rparr>) = waiting s"
  by (simp_all add: backend_ok_def in_flight_def waiting_def)

lemma stop_inv: "async_inv sinv stext t0 s \<Longrightarrow> async_inv sinv stext t0 (AsyncLogging_stop s)"
  by (simp add: async_inv_def AsyncLogging_stop_def)

lemma enter_inv:
  "async_inv sinv stext t0 s \<Longrightarrow> al_pc s = AtTop \<Longrightarrow> async_inv sinv stext t0 (s\<lparr>al_pc := InWait\<rparr>)"
  by (simp add: async_inv_def backend_ok_def in_flight_def waiting_def)

lemma exit_inv:
  assumes "async_inv sinv stext t0 s" "al_pc s = AtTop"
    and "sflush (al_output s) = Inr out" "sinv out" "stext out = stext (al_output s)"
  shows "\<exists>s'. backend_exit sflush s = Inr s' \<and> async_inv sinv stext t0 s'"
  using assms by (simp add: backend_exit_def async_inv_def backend_ok_def in_flight_def waiting_def)

context text_sink
begin

lemma write_inv:
  assumes "async_inv sinv stext t0 s" "al_pc s = Swapped"
  shows "\<exists>s'. backend_write sput s = Some (Inr s') \<and> async_inv sinv stext t0 s'"
proof -
  have full: "\<forall>x\<in>set (buffersToWrite s). full_ok x" and si: "sinv (al_output s)"
    using assms by (auto simp: async_inv_def)
  then obtain out where out: "sput_all sput (al_output s) (map opt_text (buffersToWrite s)) = Some (Inr out)"
      "sinv out" "stext out = stext (al_output s) @ concat (map opt_text (buffersToWrite s))"
    using sput_all_ok [of "al_output s" "map opt_text (buffersToWrite s)"] opt_text_short by auto
  have "backend_write sput s = Some (Inr (s\<lparr>al_output := out, al_pc := Written\<rparr>))"
    using buffer_texts_ok [OF full] out(1) by (simp add: backend_write_def)
  then show ?thesis
    using assms out by (auto simp: async_inv_def backend_ok_def in_flight_def waiting_def)
qed

lemma recycle_ok:
  assumes "async_inv sinv stext t0 s" "al_pc s = Written"
  shows "\<exists>s'. backend_recycle sflush s = Inr s' \<and> async_inv sinv stext t0 s'"
proof -
  have "sinv (al_output s)" using assms(1) by (simp add: async_inv_def)
  from sflush_ok [OF this] show ?thesis by (elim exE conjE) (rule recycle_inv [OF assms])
qed

lemma exit_ok:
  assumes "async_inv sinv stext t0 s" "al_pc s = AtTop"
  shows "\<exists>s'. backend_exit sflush s = Inr s' \<and> async_inv sinv stext t0 s'"
proof -
  have "sinv (al_output s)" using assms(1) by (simp add: async_inv_def)
  from sflush_ok [OF this] show ?thesis by (elim exE conjE) (rule exit_inv [OF assms])
qed

lemma exec_inv:
  assumes "async_inv sinv stext t0 s" "async_exec sput sflush e s = Some r"
  shows "\<exists>s'. r = Inr s' \<and> async_inv sinv stext t0 s'"
proof (cases e)
  case EvEnter
  then show ?thesis using enter_inv [OF assms(1)] assms(2) by (auto split: if_splits)
next
  case (EvAppend l)
  then show ?thesis using append_inv [OF assms(1), of l] assms(2) by auto
next
  case EvSwap
  then show ?thesis using swap_inv [OF assms(1)] assms(2) by (auto split: if_splits)
next
  case EvWrite
  then show ?thesis using write_inv [OF assms(1)] assms(2) by (auto split: if_splits)
next
  case EvRecycle
  then show ?thesis using recycle_ok [OF assms(1)] assms(2) by (auto split: if_splits)
next
  case EvStop
  then show ?thesis using stop_inv [OF assms(1)] assms(2) by auto
next
  case EvExit
  then show ?thesis using exit_ok [OF assms(1)] assms(2) by (auto split: if_splits)
qed

lemma reach_inv:
  "async_reach sput sflush out s \<Longrightarrow> sinv out \<Longrightarrow> async_inv sinv stext (stext out) s"
  by (induction rule: async_reach.induct) (auto intro: start_inv dest: exec_inv)

end


lemma AsyncLogging_append_accepts:
  assumes inv: "async_inv sinv stext t0 s" and short: "length l < kLargeBuffer"
  shows "\<exists>s'. AsyncLogging_append l s = Inr s' \<and> al_accepted s' = al_accepted s @ l"
proof -
  obtain cur where cur: "currentBuffer s = Some cur" "big_ok cur"
    using inv full_ok_Some [of "currentBuffer s"] by (auto simp: async_inv_def)
  have fresh: "avail b > int (length l)" if "big_ok b" "FixedBuffer_toString b = []" for b
    using that short avail_toString [of b] by (simp add: big_ok_def)
  have "avail (FixedBuffer_new kLargeBuffer) > int (length l)"
    by (rule fresh) (rule big_new)+
  moreover have "avail nb > int (length l)" if "nextBuffer s = Some nb" for nb
    using that inv by (intro fresh) (simp_all add: async_inv_def spare_ok_def)
  ultimately show ?thesis
    using append_inv [OF inv, of l] cur(1)
    by (auto simp: AsyncLogging_append_def rbind_eq_Inr split: option.splits if_splits)
qed

lemmas async_laws = logfile.exec_inv logfile.reach_inv

section \<open>Properties\<close>

text \<open>C23: however the front end and the back end interleave, the pointers work out. In every reachable
  state, every step that is enabled succeeds: \<open>currentBuffer_\<close> is never null when a line arrives,
  \<open>newBuffer1\<close> and \<open>newBuffer2\<close> are there when the back end hands them over, and the vector is not
  empty when they are refilled from it.\<close>

theorem AsyncLogging_no_null:
  assumes "async_reach LogFile_append log_sink_flush out s" "log_sink_inv out" "async_exec LogFile_append log_sink_flush e s = Some r"
  shows "\<exists>s'. r = Inr s'"
  using async_laws assms by blast

definition sample_sink :: log_sink where
  "sample_sink = \<lparr>ls_fwrite = (\<lambda>c n. n), ls_ferror = (\<lambda>_. False), ls_fopen = (\<lambda>_. True), ls_stamp = (\<lambda>_. ''s''),
     ls_clock = (\<lambda>k. 1000 + int k), ls_tick = 0,
     ls_log = projr (LogFile_new (\<lambda>_. True) (\<lambda>_. ''s'') 1000 ''b'' 100 3 1)\<rparr>"

lemma sample_sink_ok: "log_sink_inv sample_sink" "log_sink_text sample_sink = []"
  using LogFile_new_ok [of 1000 1 "\<lambda>_. True" "\<lambda>_. ''s''" "''b''" 100 3]
  by (auto simp: log_sink_inv_def log_sink_text_def sample_sink_def fwrite_spec_def fwrite_progress_def)

theorem AsyncLogging_no_null_witness:
  "\<exists>s'. AsyncLogging_append ''hi'' (AsyncLogging_start sample_sink) = Inr s'"
  using AsyncLogging_no_null [OF async_init sample_sink_ok(1), of "EvAppend ''hi''"] by simp

text \<open>C9: no line is lost, doubled or moved. In every reachable state the file, the buffers the back
  end is writing, the full buffers and the current buffer hold, in this order, exactly the lines
  accepted so far; a line is accepted unless it is longer than a whole buffer.\<close>

theorem AsyncLogging_conservation:
  assumes "async_reach LogFile_append log_sink_flush out s" "log_sink_inv out"
  shows "log_sink_text (al_output s) @ in_flight s @ waiting s = log_sink_text out @ al_accepted s \<and>
    (\<forall>l. length l < kLargeBuffer \<longrightarrow>
      (\<exists>s'. AsyncLogging_append l s = Inr s' \<and> al_accepted s' = al_accepted s @ l))"
proof (intro conjI allI impI)
  have inv: "async_inv log_sink_inv log_sink_text (log_sink_text out) s"
    using assms by (rule logfile.reach_inv)
  then show "log_sink_text (al_output s) @ in_flight s @ waiting s = log_sink_text out @ al_accepted s"
    by (simp add: async_inv_def)
  fix l :: "char list"
  assume "length l < kLargeBuffer"
  then show "\<exists>s'. AsyncLogging_append l s = Inr s' \<and> al_accepted s' = al_accepted s @ l"
    by (rule AsyncLogging_append_accepts [OF inv])
qed

theorem AsyncLogging_conservation_witness:
  "\<exists>s'. AsyncLogging_append ''hi'' (AsyncLogging_start sample_sink) = Inr s' \<and> al_accepted s' = ''hi''"
  using AsyncLogging_conservation [OF async_init sample_sink_ok(1)]
  by (auto simp: kLargeBuffer_def AsyncLogging_start_def)


text \<open>What the steps leave alone.\<close>

lemma inv_text:
  "async_inv sinv stext t0 s \<Longrightarrow> stext (al_output s) @ in_flight s @ waiting s = t0 @ al_accepted s"
  by (simp add: async_inv_def)

lemma append_frame:
  "AsyncLogging_append l s = Inr s' \<Longrightarrow>
    al_pc s' = al_pc s \<and> al_output s' = al_output s \<and> in_flight s' = in_flight s \<and> al_running s' = al_running s"
  by (auto simp: AsyncLogging_append_def rbind_eq_Inr in_flight_def split: option.splits if_splits)

lemma write_frame:
  "backend_write sput s = Some (Inr s') \<Longrightarrow>
    al_pc s' = Written \<and> al_running s' = al_running s \<and> waiting s' = waiting s \<and>
    al_accepted s' = al_accepted s"
  by (auto simp: backend_write_def waiting_def split: sum.splits option.splits)

lemma recycle_frame:
  "backend_recycle sflush s = Inr s' \<Longrightarrow>
    al_pc s' = AtTop \<and> al_running s' = al_running s \<and> waiting s' = waiting s \<and>
    al_accepted s' = al_accepted s"
  by (auto simp: backend_recycle_def rbind_eq_Inr waiting_def Let_def)

lemma exit_frame:
  "backend_exit sflush s = Inr s' \<Longrightarrow>
    al_pc s' = Finished \<and> al_running s' = al_running s \<and> waiting s' = waiting s \<and> al_accepted s' = al_accepted s"
  by (auto simp: backend_exit_def rbind_eq_Inr waiting_def)

text \<open>How far the back end is from its end once \<open>running_\<close> is cleared; the back end's own steps.\<close>

fun pc_rank :: "backend_pc \<Rightarrow> nat" where
  "pc_rank InWait = 4" | "pc_rank Swapped = 3" | "pc_rank Written = 2" | "pc_rank AtTop = 1" | "pc_rank Finished = 0"

fun backend_event :: "async_event \<Rightarrow> bool" where
  "backend_event (EvAppend l) = False" | "backend_event EvStop = False" | "backend_event e = True"

fun backend_next :: "backend_pc \<Rightarrow> async_event" where
  "backend_next InWait = EvSwap" | "backend_next Swapped = EvWrite" | "backend_next Written = EvRecycle"
| "backend_next AtTop = EvExit" | "backend_next Finished = EvExit"

lemma stopped_step:
  assumes "\<not> al_running s" "async_exec sput sflush e s = Some (Inr s')"
  shows "\<not> al_running s' \<and> pc_rank (al_pc s') = pc_rank (al_pc s) - (if backend_event e then 1 else 0) \<and>
    (backend_event e \<longrightarrow> 0 < pc_rank (al_pc s))"
proof (cases e)
  case (EvAppend l)
  then show ?thesis
    using assms by (auto simp: AsyncLogging_append_def rbind_eq_Inr split: option.splits if_splits)
next
  case EvWrite
  then show ?thesis using assms write_frame [of sput s s'] by (auto split: if_splits)
next
  case EvRecycle
  then show ?thesis using assms recycle_frame [of sflush s s'] by (auto split: if_splits)
next
  case EvExit
  then show ?thesis using assms exit_frame [of sflush s s'] by (auto split: if_splits)
qed (use assms in \<open>auto simp: AsyncLogging_stop_def backend_swap_def Let_def split: if_splits\<close>)

lemma accepted_step:
  assumes "async_exec sput sflush e s = Some (Inr s')"
  shows "\<exists>rest. al_accepted s' = al_accepted s @ rest"
proof (cases e)
  case (EvAppend l)
  then show ?thesis using assms by (auto simp: AsyncLogging_append_def rbind_eq_Inr split: option.splits if_splits)
next
  case EvWrite
  then show ?thesis using assms write_frame [of sput s s'] by (auto split: if_splits)
next
  case EvRecycle
  then show ?thesis using assms recycle_frame [of sflush s s'] by (auto split: if_splits)
next
  case EvExit
  then show ?thesis using assms exit_frame [of sflush s s'] by (auto split: if_splits)
qed (use assms in \<open>auto simp: AsyncLogging_stop_def backend_swap_def Let_def split: if_splits\<close>)

context text_sink
begin

lemma stopped_enabled:
  assumes inv: "async_inv sinv stext t0 s" and "\<not> al_running s" "al_pc s \<noteq> Finished"
  shows "\<exists>s'. async_exec sput sflush (backend_next (al_pc s)) s = Some (Inr s')"
  using assms(2,3) write_inv [OF inv] recycle_ok [OF inv] exit_ok [OF inv] by (cases "al_pc s") auto

end

text \<open>
  What follows after a call of \<open>stop\<close>: any steps of the back end and of the front end, in any order.
\<close>

inductive async_steps ::
  "('s \<Rightarrow> char list \<Rightarrow> 's result option) \<Rightarrow> ('s \<Rightarrow> 's result) \<Rightarrow> 's AsyncLogging \<Rightarrow> 's AsyncLogging \<Rightarrow> bool"
  for sput :: "'s \<Rightarrow> char list \<Rightarrow> 's result option" and sflush :: "'s \<Rightarrow> 's result" and s :: "'s AsyncLogging" where
  steps_refl: "async_steps sput sflush s s"
| steps_step: "async_steps sput sflush s t \<Longrightarrow> async_exec sput sflush e t = Some (Inr t') \<Longrightarrow> async_steps sput sflush s t'"

lemma steps_reach:
  "async_steps sput sflush s t \<Longrightarrow> async_reach sput sflush out s \<Longrightarrow> async_reach sput sflush out t"
  by (induction rule: async_steps.induct) (auto intro: async_step)

text \<open>
  A back end that has left its last critical section and finds \<open>running_\<close> cleared takes nothing more: the text
  of the file with the buffers in flight stays as it is, and what the front end accepts only waits.
\<close>

definition past_last_swap :: "'s AsyncLogging \<Rightarrow> bool" where
  "past_last_swap s \<longleftrightarrow> \<not> al_running s \<and> al_pc s \<noteq> InWait"

lemma past_last_swap_step:
  assumes "past_last_swap s" "async_exec sput sflush e s = Some (Inr s')"
    and inv: "async_inv sinv stext t0 s" "async_inv sinv stext t0 s'"
  shows "past_last_swap s' \<and> stext (al_output s') @ in_flight s' = stext (al_output s) @ in_flight s"
proof -
  have same: "stext (al_output s') @ in_flight s' = stext (al_output s) @ in_flight s"
    if "waiting s' = waiting s" "al_accepted s' = al_accepted s"
    using inv_text [OF inv(1)] inv_text [OF inv(2)] that by (metis append_assoc append_same_eq)
  show ?thesis
  proof (cases e)
    case (EvAppend l)
    then show ?thesis using assms(1,2) append_frame [of l s s'] by (simp add: past_last_swap_def)
  next
    case EvWrite
    then show ?thesis using assms(1,2) write_frame [of sput s s'] same by (auto simp: past_last_swap_def split: if_splits)
  next
    case EvRecycle
    then show ?thesis using assms(1,2) recycle_frame [of sflush s s'] same by (auto simp: past_last_swap_def split: if_splits)
  next
    case EvExit
    then show ?thesis using assms(1,2) exit_frame [of sflush s s'] same by (auto simp: past_last_swap_def split: if_splits)
  qed (use assms(1,2) in \<open>auto simp: past_last_swap_def AsyncLogging_stop_def split: if_splits\<close>)
qed

context text_sink
begin

lemma past_last_swap_steps:
  assumes "async_steps sput sflush s t" "past_last_swap s" and r: "async_reach sput sflush out s" and "sinv out"
  shows "past_last_swap t \<and> stext (al_output t) @ in_flight t = stext (al_output s) @ in_flight s \<and>
    (\<exists>rest. al_accepted t = al_accepted s @ rest)"
  using assms
proof (induction rule: async_steps.induct)
  case (steps_step t e t')
  have reach: "async_reach sput sflush out t" using steps_reach [OF steps_step.hyps(1) r] .
  note inv = reach_inv [OF reach assms(4)] reach_inv [OF async_step [OF reach steps_step.hyps(2)] assms(4)]
  have IH: "past_last_swap t" "stext (al_output t) @ in_flight t = stext (al_output s) @ in_flight s"
      "\<exists>rest. al_accepted t = al_accepted s @ rest"
    using steps_step by blast+
  note step = past_last_swap_step [OF IH(1) steps_step.hyps(2) inv]
  then show ?case using IH(2,3) accepted_step [OF steps_step.hyps(2)] by fastforce
qed simp

text \<open>The back end gets to its end.\<close>

lemma stopped_ends:
  assumes "sinv out"
  shows "async_reach sput sflush out s \<Longrightarrow> \<not> al_running s \<Longrightarrow> \<exists>t. async_steps sput sflush s t \<and> al_pc t = Finished"
proof (induction "pc_rank (al_pc s)" arbitrary: s rule: less_induct)
  case less
  show ?case
  proof (cases "al_pc s = Finished")
    case True
    then show ?thesis using steps_refl by blast
  next
    case False
    let ?e = "backend_next (al_pc s)"
    obtain s' where s': "async_exec sput sflush ?e s = Some (Inr s')"
      using stopped_enabled [OF reach_inv [OF less.prems(1) assms] less.prems(2) False] by blast
    have "backend_event ?e" "0 < pc_rank (al_pc s)" using False by (cases "al_pc s"; simp)+
    then have "pc_rank (al_pc s') < pc_rank (al_pc s)" "\<not> al_running s'"
      using stopped_step [OF less.prems(2) s'] by simp_all
    then obtain t where t: "async_steps sput sflush s' t" "al_pc t = Finished"
      using less.hyps async_step [OF less.prems(1) s'] by blast
    have "async_steps sput sflush s t"
      using t(1) by (induction rule: async_steps.induct) (auto intro: steps_refl steps_step s')
    then show ?thesis using t(2) by blast
  qed
qed

end

text \<open>C35: \<open>stop\<close> loses what arrived in the back end's last round. A line accepted while the back end is between a
  critical section and its next test of \<open>running_\<close> waits in the front end. When \<open>stop\<close> is called before that test,
  the back end ends, and in every continuation, whatever else is appended, the log then lacks exactly the
  text that waited in the front end when \<open>stop\<close> was called, and what was accepted after it.\<close>

theorem AsyncLogging_stop_loses_lines:
  assumes "async_reach LogFile_append log_sink_flush out s" "log_sink_inv out" "al_pc s \<in> {Swapped, Written, AtTop}"
  shows "(\<forall>l s1. length l < kLargeBuffer \<and> AsyncLogging_append l s = Inr s1 \<longrightarrow>
      al_pc s1 = al_pc s \<and> al_accepted s1 = al_accepted s @ l \<and> waiting s1 = waiting s @ l) \<and>
    (\<exists>t. async_steps LogFile_append log_sink_flush (AsyncLogging_stop s) t \<and> al_pc t = Finished) \<and>
    (\<forall>t. async_steps LogFile_append log_sink_flush (AsyncLogging_stop s) t \<and> al_pc t = Finished \<longrightarrow>
      (\<exists>rest. al_accepted t = al_accepted s @ rest \<and>
        log_sink_text (al_output t) @ waiting s @ rest = log_sink_text out @ al_accepted t))"
proof (intro conjI allI impI)
  note inv = logfile.reach_inv [OF assms(1,2)]
  fix l s1 assume l: "length l < kLargeBuffer \<and> AsyncLogging_append l s = Inr s1"
  show "al_pc s1 = al_pc s" using append_frame l by blast
  show acc: "al_accepted s1 = al_accepted s @ l" using AsyncLogging_append_accepts [OF inv, of l] l by auto
  have inv1: "async_inv log_sink_inv log_sink_text (log_sink_text out) s1" using append_inv [OF inv, of l] l by auto
  show "waiting s1 = waiting s @ l"
    using inv_text [OF inv] inv_text [OF inv1] append_frame [OF conjunct2 [OF l]] acc
    by (metis append_assoc same_append_eq)
next
  let ?s2 = "AsyncLogging_stop s"
  have r2: "async_reach LogFile_append log_sink_flush out ?s2"
    by (rule async_step [OF assms(1), where e = EvStop]) simp
  have stopped: "\<not> al_running ?s2" by (simp add: AsyncLogging_stop_def)
  show "\<exists>t. async_steps LogFile_append log_sink_flush ?s2 t \<and> al_pc t = Finished"
    using logfile.stopped_ends [OF assms(2) r2 stopped] .
  fix t assume t: "async_steps LogFile_append log_sink_flush ?s2 t \<and> al_pc t = Finished"
  have same: "log_sink_text (al_output ?s2) @ in_flight ?s2 = log_sink_text (al_output s) @ in_flight s"
      "past_last_swap ?s2" "al_accepted ?s2 = al_accepted s"
    using assms(3) by (auto simp: AsyncLogging_stop_def past_last_swap_def)
  obtain rest where rest: "log_sink_text (al_output t) @ in_flight t = log_sink_text (al_output s) @ in_flight s"
      "al_accepted t = al_accepted s @ rest"
    using logfile.past_last_swap_steps [OF conjunct1 [OF t] same(2) r2 assms(2)] same(1,3) by auto
  have "in_flight t = []" using t by (simp add: in_flight_def)
  then have "log_sink_text (al_output t) @ waiting s = log_sink_text out @ al_accepted s"
    using rest(1) inv_text [OF logfile.reach_inv [OF assms(1,2)]] by simp
  then show "\<exists>rest. al_accepted t = al_accepted s @ rest \<and>
      log_sink_text (al_output t) @ waiting s @ rest = log_sink_text out @ al_accepted t"
    using rest(2) by (intro exI [of _ rest]) (metis append_assoc)
qed

theorem AsyncLogging_stop_loses_lines_witness:
  "\<exists>s t. async_steps LogFile_append log_sink_flush (AsyncLogging_stop s) t \<and> al_pc t = Finished \<and>
    al_accepted s = ''lost'' \<and> length (log_sink_text (al_output t)) < length (al_accepted t)"
proof -
  let ?start = "(AsyncLogging_start sample_sink)\<lparr>al_pc := InWait\<rparr>"
  let ?s = "backend_swap ?start"
  have "async_reach LogFile_append log_sink_flush sample_sink ?start"
    by (rule async_step [where e = EvEnter], rule async_init) (simp add: AsyncLogging_start_def)
  then have r: "async_reach LogFile_append log_sink_flush sample_sink ?s"
    by (rule async_step [where e = EvSwap]) simp
  have pc: "al_pc ?s \<in> {Swapped, Written, AtTop}" and acc: "al_accepted ?s = []"
    by (simp_all add: backend_swap_def AsyncLogging_start_def)
  obtain s1 where s1: "AsyncLogging_append ''lost'' ?s = Inr s1"
    using append_inv [OF logfile.reach_inv [OF r sample_sink_ok(1)]] by blast
  have "length ''lost'' < kLargeBuffer" by (simp add: kLargeBuffer_def)
  with s1 conjunct1 [OF AsyncLogging_stop_loses_lines [OF r sample_sink_ok(1) pc]]
  have "al_pc s1 = al_pc ?s \<and> al_accepted s1 = al_accepted ?s @ ''lost'' \<and> waiting s1 = waiting ?s @ ''lost''" by blast
  then have here: "al_pc s1 = al_pc ?s" "al_accepted s1 = ''lost''" "waiting s1 = waiting ?s @ ''lost''"
    unfolding acc by simp_all
  have r1: "async_reach LogFile_append log_sink_flush sample_sink s1"
    by (rule async_step [OF r, where e = "EvAppend ''lost''"]) (simp add: s1)
  note T = AsyncLogging_stop_loses_lines [OF r1 sample_sink_ok(1) pc [folded here(1)]]
  then obtain t where t: "async_steps LogFile_append log_sink_flush (AsyncLogging_stop s1) t" "al_pc t = Finished" by blast
  with T obtain rest where "log_sink_text (al_output t) @ waiting s1 @ rest = log_sink_text sample_sink @ al_accepted t"
    by blast
  from arg_cong [OF this, of length] have "length (log_sink_text (al_output t)) < length (al_accepted t)"
    using sample_sink_ok(2) here(3) by simp
  then show ?thesis using t here(2) by blast
qed

text \<open>C24: \<open>stop\<close> returns. Once \<open>running_\<close> is cleared, in every reachable state the back end has a step to take until
  it has finished, whatever is appended meanwhile; each of its steps brings it one closer to its end, which
  is at most four steps away, and no other step takes it back. So the join ends.\<close>

theorem AsyncLogging_stop_returns:
  assumes "async_reach LogFile_append log_sink_flush out s" "log_sink_inv out" "\<not> al_running s"
  shows "pc_rank (al_pc s) \<le> 4 \<and> (pc_rank (al_pc s) = 0 \<longleftrightarrow> al_pc s = Finished) \<and>
    (al_pc s \<noteq> Finished \<longrightarrow>
      (\<exists>e s'. backend_event e \<and> async_exec LogFile_append log_sink_flush e s = Some (Inr s'))) \<and>
    (\<forall>e s'. async_exec LogFile_append log_sink_flush e s = Some (Inr s') \<longrightarrow> \<not> al_running s' \<and>
      pc_rank (al_pc s') = pc_rank (al_pc s) - (if backend_event e then 1 else 0))"
proof (intro conjI impI allI)
  note inv = logfile.reach_inv [OF assms(1,2)]
  show "\<exists>e s'. backend_event e \<and> async_exec LogFile_append log_sink_flush e s = Some (Inr s')" if "al_pc s \<noteq> Finished"
    using logfile.stopped_enabled [OF inv assms(3) that] by (intro exI [of _ "backend_next (al_pc s)"]) (cases "al_pc s"; simp)
  show "\<not> al_running s'" "pc_rank (al_pc s') = pc_rank (al_pc s) - (if backend_event e then 1 else 0)"
    if "async_exec LogFile_append log_sink_flush e s = Some (Inr s')" for e s'
    using stopped_step [OF assms(3) that] by blast+
qed (cases "al_pc s"; simp)+

theorem AsyncLogging_stop_returns_witness:
  "\<exists>e s'. backend_event e \<and>
    async_exec LogFile_append log_sink_flush e (AsyncLogging_stop (AsyncLogging_start sample_sink)) = Some (Inr s')"
proof -
  let ?s = "AsyncLogging_stop (AsyncLogging_start sample_sink)"
  have r: "async_reach LogFile_append log_sink_flush sample_sink ?s"
    by (rule async_step [where e = EvStop], rule async_init) simp
  have "\<not> al_running ?s" "al_pc ?s \<noteq> Finished" by (simp_all add: AsyncLogging_stop_def AsyncLogging_start_def)
  then show ?thesis using AsyncLogging_stop_returns [OF r sample_sink_ok(1)] by blast
qed

end
