(* ===== verification/Base_Threads.thy ===== *)
theory Base_Threads
  imports Cpp_Prelude "HOL-Library.Multiset"
begin

text \<open>
  \<open>src/base/CurrentThread\<close>, \<open>Thread\<close> and \<open>ThreadPool\<close>. The pool is a set of interleaved steps of callers
  of \<open>run\<close>, of worker threads and of \<open>stop\<close>; a critical section is one step. A thread that waits on a
  condition variable stays there until it is notified, or wakes up for no reason.
\<close>

section \<open>CurrentThread\<close>

text \<open>The cached thread number and what \<open>gettid\<close> answers.\<close>

definition cacheTid :: "int \<Rightarrow> int \<Rightarrow> int" where
  "cacheTid gettid t_cachedTid = (if t_cachedTid = 0 then gettid else t_cachedTid)"

definition tid :: "int \<Rightarrow> int \<Rightarrow> int \<times> int" where
  "tid gettid t_cachedTid =
     (let c = (if t_cachedTid = 0 then cacheTid gettid t_cachedTid else t_cachedTid) in (c, c))"

section \<open>Thread\<close>

text \<open>
  \<open>thread_set\<close> says that \<open>thread_\<close> holds a \<open>std::thread\<close>, \<open>joinable\<close> that this object still stands for a
  thread of execution: it does from its creation until \<open>join\<close> or \<open>detach\<close>.
\<close>

record Thread =
  started :: bool
  joined :: bool
  thread_set :: bool
  joinable :: bool
  thread_tid :: int
  thread_name :: string

text \<open>\<open>numCreated_\<close> is a global atomic counter.\<close>

definition setDefaultName :: "int \<Rightarrow> string \<Rightarrow> int \<times> string" where
  "setDefaultName numCreated nm =
     (let num = wrap32 (numCreated + 1)
      in (num, if nm = [] then snprintf_trunc 32 (''Thread'' @ int_dec num) else nm))"

definition Thread_new :: "int \<Rightarrow> string \<Rightarrow> int \<times> Thread" where
  "Thread_new numCreated nm =
     (let (num, nm') = setDefaultName numCreated nm
      in (num, \<lparr>started = False, joined = False, thread_set = False, joinable = False, thread_tid = 0,
                thread_name = nm'\<rparr>))"

text \<open>
  \<open>start\<close> returns only after the new thread has stored its number. Storing the new \<open>std::thread\<close> destroys
  the old one, which ends the program when that is still joinable.
\<close>

definition Thread_start :: "int \<Rightarrow> Thread \<Rightarrow> Thread result" where
  "Thread_start gettid t =
     (if thread_set t \<and> joinable t then Inl Terminate
      else Inr (t\<lparr>started := True, thread_set := True, joinable := True, thread_tid := fst (tid gettid 0)\<rparr>))"

text \<open>
  \<open>join\<close> goes through the pointer, which is null when the thread was never started; joining an object that
  is not joinable throws.
\<close>

definition Thread_join :: "Thread \<Rightarrow> Thread result" where
  "Thread_join t =
     (if \<not> thread_set t then Inl NullDeref
      else if \<not> joinable t then Inl SystemError
      else Inr (t\<lparr>joined := True, joinable := False\<rparr>))"

text \<open>The destructor detaches a running thread; then the \<open>std::thread\<close> is destroyed.\<close>

definition Thread_delete :: "Thread \<Rightarrow> unit result" where
  "Thread_delete t =
     (if started t \<and> \<not> joined t
      then (if \<not> thread_set t then Inl NullDeref else if \<not> joinable t then Inl Terminate else Inr ())
      else if thread_set t \<and> joinable t then Inl Terminate else Inr ())"

section \<open>ThreadPool\<close>

record 't ThreadPool =
  pool_name :: string
  maxQueueSize :: size_t
  running :: bool
  queue :: "'t list"
  threads :: "Thread list"
  threadInitCallback :: "'t option"

definition ThreadPool_new :: "string \<Rightarrow> 't ThreadPool" where
  "ThreadPool_new nm = \<lparr>pool_name = nm, maxQueueSize = 0, running = False, queue = [], threads = [],
     threadInitCallback = None\<rparr>"

text \<open>The callback is a task like the others; an empty one counts as none.\<close>

definition setThreadInitCallback :: "'t option \<Rightarrow> 't ThreadPool \<Rightarrow> 't ThreadPool" where
  "setThreadInitCallback cb p = p\<lparr>threadInitCallback := cb\<rparr>"

text \<open>\<open>setMaxQueueSize\<close> converts its \<open>int\<close> to \<open>size_t\<close>.\<close>

definition setMaxQueueSize :: "int \<Rightarrow> 't ThreadPool \<Rightarrow> 't ThreadPool" where
  "setMaxQueueSize n p = p\<lparr>maxQueueSize := nat (n mod 2 ^ 64)\<rparr>"

definition isFull :: "'t ThreadPool \<Rightarrow> bool" where
  "isFull p \<longleftrightarrow> maxQueueSize p > 0 \<and> length (queue p) \<ge> maxQueueSize p"

definition queueSize :: "'t ThreadPool \<Rightarrow> size_t" where
  "queueSize p = length (queue p)"

text \<open>
  The loop of \<open>start\<close>: append a \<open>Thread\<close> named by the pool and its number, and start the thread at index \<open>i\<close>.
  A negative number of threads is a huge one for \<open>reserve\<close>, which throws.
\<close>

fun start_threads :: "(nat \<Rightarrow> int) \<Rightarrow> nat \<Rightarrow> nat \<Rightarrow> int \<Rightarrow> 't ThreadPool \<Rightarrow> (int \<times> 't ThreadPool) result" where
  "start_threads gettid i 0 numCreated p = Inr (numCreated, p)"
| "start_threads gettid i (Suc k) numCreated p =
     (let (num, t) = Thread_new numCreated (pool_name p @ snprintf_trunc 32 (int_dec (int i + 1)));
          ts = threads p @ [t]
      in rbind (Thread_start (gettid i) (ts ! i)) (\<lambda>t'.
           start_threads gettid (Suc i) k num (p\<lparr>threads := ts[i := t']\<rparr>)))"

text \<open>Without threads the caller of \<open>start\<close> runs the callback itself; the result lists what it runs.\<close>

definition ThreadPool_start ::
  "(nat \<Rightarrow> int) \<Rightarrow> int \<Rightarrow> int \<Rightarrow> 't ThreadPool \<Rightarrow> (int \<times> 't list \<times> 't ThreadPool) result" where
  "ThreadPool_start gettid numThreads numCreated p =
     (if numThreads < 0 then Inl LengthError
      else rbind (start_threads gettid 0 (nat numThreads) numCreated (p\<lparr>running := True\<rparr>)) (\<lambda>(num, p').
        Inr (num, if numThreads = 0 then (case threadInitCallback p' of None \<Rightarrow> [] | Some cb \<Rightarrow> [cb]) else [], p')))"

text \<open>\<open>stop\<close>: the critical section, then the joins, each of which returns when its thread has ended.\<close>

definition pool_halt :: "'t ThreadPool \<Rightarrow> 't ThreadPool" where
  "pool_halt p = p\<lparr>running := False\<rparr>"

fun join_all :: "Thread list \<Rightarrow> Thread list result" where
  "join_all [] = Inr []"
| "join_all (t # ts) = rbind (Thread_join t) (\<lambda>t'. rbind (join_all ts) (\<lambda>ts'. Inr (t' # ts')))"

definition ThreadPool_stop :: "'t ThreadPool \<Rightarrow> 't ThreadPool result" where
  "ThreadPool_stop p = rbind (join_all (threads p)) (\<lambda>ts. Inr ((pool_halt p)\<lparr>threads := ts\<rparr>))"

text \<open>The destructor stops a running pool; then its threads are destroyed.\<close>

fun delete_all :: "Thread list \<Rightarrow> unit result" where
  "delete_all [] = Inr ()"
| "delete_all (t # ts) = rbind (Thread_delete t) (\<lambda>_. delete_all ts)"

definition ThreadPool_delete :: "'t ThreadPool \<Rightarrow> unit result" where
  "ThreadPool_delete p =
     rbind (if running p then ThreadPool_stop p else Inr p) (\<lambda>p'. delete_all (threads p'))"

text \<open>
  \<open>run\<close>: run at once without threads; wait (\<open>None\<close>) while the queue is full; give the task up when the
  pool has been stopped; else queue it. The result says what happened to the task.
\<close>

datatype run_outcome = RanInline | Queued | Refused

definition pool_run :: "'t \<Rightarrow> 't ThreadPool \<Rightarrow> (run_outcome \<times> 't ThreadPool) option" where
  "pool_run task p =
     (if threads p = [] then Some (RanInline, p)
      else if isFull p \<and> running p then None
      else if \<not> running p then Some (Refused, p)
      else Some (Queued, p\<lparr>queue := queue p @ [task]\<rparr>))"

text \<open>\<open>take\<close>: wait while the queue is empty and the pool runs; an empty task when there is none left.\<close>

definition pool_take :: "'t ThreadPool \<Rightarrow> ('t option \<times> 't ThreadPool) option" where
  "pool_take p =
     (if queue p = [] \<and> running p then None
      else case queue p of
        [] \<Rightarrow> Some (None, p)
      | task # q \<Rightarrow> Some (Some task, p\<lparr>queue := q\<rparr>))"

section \<open>The pool and its threads\<close>

text \<open>
  A worker in \<open>runInThread\<close>: before the init callback, at the test of \<open>running_\<close>, at the test of the loop in \<open>take\<close>, waiting on
  \<open>notEmpty_\<close>, running a task, gone. A task that throws ends its worker, and so does the init callback. A caller of \<open>run\<close> that finds the
  queue full waits on \<open>notFull_\<close> (\<open>blocked\<close>) and is at the test again after a notification (\<open>woken\<close>).
  The histories: tasks accepted by \<open>run\<close>, taken by workers, finished, refused, and the workers that called the
  init callback.
\<close>

datatype 't worker = Initialising | AtTest | Taking | Waiting | Executing 't | Exited

record 't pool_state =
  pool :: "'t ThreadPool"
  workers :: "'t worker list"
  blocked :: "'t list"
  woken :: "'t list"
  accepted_tasks :: "'t list"
  taken_tasks :: "'t list"
  finished_tasks :: "'t list"
  refused_tasks :: "'t list"
  inits :: "nat list"

text \<open>\<open>notify_one\<close> wakes one of those that wait, if any does; \<open>notify_all\<close> wakes all.\<close>

inductive notify_worker :: "'t worker list \<Rightarrow> 't worker list \<Rightarrow> bool" where
  nobody: "Waiting \<notin> set ws \<Longrightarrow> notify_worker ws ws"
| somebody: "i < length ws \<Longrightarrow> ws ! i = Waiting \<Longrightarrow> notify_worker ws (ws[i := Taking])"

inductive notify_caller :: "'t pool_state \<Rightarrow> 't pool_state \<Rightarrow> bool" where
  no_caller: "blocked s = [] \<Longrightarrow> notify_caller s s"
| one_caller: "blocked s = ts @ task # us \<Longrightarrow> notify_caller s (s\<lparr>blocked := ts @ us, woken := woken s @ [task]\<rparr>)"

definition wake_all :: "'t worker list \<Rightarrow> 't worker list" where
  "wake_all ws = map (\<lambda>w. case w of Waiting \<Rightarrow> Taking | _ \<Rightarrow> w) ws"

text \<open>One critical section of \<open>run\<close>, up to its end or to the wait.\<close>

inductive run_section :: "'t \<Rightarrow> 't pool_state \<Rightarrow> 't pool_state \<Rightarrow> bool" where
  run_inline:
    "pool_run task (pool s) = Some (RanInline, p) \<Longrightarrow> run_section task s s"
| run_queue:
    "pool_run task (pool s) = Some (Queued, p) \<Longrightarrow> notify_worker (workers s) ws \<Longrightarrow>
     run_section task s (s\<lparr>pool := p, workers := ws, accepted_tasks := accepted_tasks s @ [task]\<rparr>)"
| run_refuse:
    "pool_run task (pool s) = Some (Refused, p) \<Longrightarrow>
     run_section task s (s\<lparr>refused_tasks := refused_tasks s @ [task]\<rparr>)"
| run_wait:
    "pool_run task (pool s) = None \<Longrightarrow> run_section task s (s\<lparr>blocked := blocked s @ [task]\<rparr>)"

text \<open>One critical section of \<open>take\<close> of worker \<open>i\<close>, up to its end or to the wait.\<close>

inductive take_section :: "nat \<Rightarrow> 't pool_state \<Rightarrow> 't pool_state \<Rightarrow> bool" where
  take_task:
    "pool_take (pool s) = Some (Some task, p) \<Longrightarrow>
     s1 = s\<lparr>pool := p, workers := (workers s)[i := Executing task], taken_tasks := taken_tasks s @ [task]\<rparr> \<Longrightarrow>
     (if maxQueueSize (pool s) > 0 then notify_caller s1 s2 else s2 = s1) \<Longrightarrow> take_section i s s2"
| take_nothing:
    "pool_take (pool s) = Some (None, p) \<Longrightarrow> take_section i s (s\<lparr>workers := (workers s)[i := AtTest]\<rparr>)"
| take_wait:
    "pool_take (pool s) = None \<Longrightarrow> take_section i s (s\<lparr>workers := (workers s)[i := Waiting]\<rparr>)"

inductive pool_step :: "('t \<Rightarrow> bool) \<Rightarrow> 't pool_state \<Rightarrow> 't pool_state \<Rightarrow> bool" for throws where
  call: "run_section task s s' \<Longrightarrow> pool_step throws s s'"
| recall: "woken s = ts @ task # us \<Longrightarrow> run_section task (s\<lparr>woken := ts @ us\<rparr>) s' \<Longrightarrow> pool_step throws s s'"
| halt:
    "pool_step throws s (s\<lparr>pool := pool_halt (pool s), workers := wake_all (workers s), blocked := [],
       woken := woken s @ blocked s\<rparr>)"
| init_thread:
    "i < length (workers s) \<Longrightarrow> workers s ! i = Initialising \<Longrightarrow> threadInitCallback (pool s) = Some cb \<Longrightarrow>
     pool_step throws s (s\<lparr>workers := (workers s)[i := (if throws cb then Exited else AtTest)], inits := inits s @ [i]\<rparr>)"
| no_init:
    "i < length (workers s) \<Longrightarrow> workers s ! i = Initialising \<Longrightarrow> threadInitCallback (pool s) = None \<Longrightarrow>
     pool_step throws s (s\<lparr>workers := (workers s)[i := AtTest]\<rparr>)"
| test_running:
    "i < length (workers s) \<Longrightarrow> workers s ! i = AtTest \<Longrightarrow>
     pool_step throws s (s\<lparr>workers := (workers s)[i := if running (pool s) then Taking else Exited]\<rparr>)"
| take: "i < length (workers s) \<Longrightarrow> workers s ! i = Taking \<Longrightarrow> take_section i s s' \<Longrightarrow> pool_step throws s s'"
| finish_task:
    "i < length (workers s) \<Longrightarrow> workers s ! i = Executing task \<Longrightarrow>
     pool_step throws s (s\<lparr>workers := (workers s)[i := (if throws task then Exited else AtTest)],
       finished_tasks := finished_tasks s @ [task]\<rparr>)"
| spurious:
    "i < length (workers s) \<Longrightarrow> workers s ! i = Waiting \<Longrightarrow>
     pool_step throws s (s\<lparr>workers := (workers s)[i := Taking]\<rparr>)"
| spurious_caller: "notify_caller s s' \<Longrightarrow> pool_step throws s s'"

inductive pool_reach :: "('t \<Rightarrow> bool) \<Rightarrow> 't pool_state \<Rightarrow> 't pool_state \<Rightarrow> bool" for throws s0 where
  pool_init: "pool_reach throws s0 s0"
| pool_next: "pool_reach throws s0 s \<Longrightarrow> pool_step throws s s' \<Longrightarrow> pool_reach throws s0 s'"

text \<open>A started pool with its workers, before any task.\<close>

definition pool_begin :: "nat \<Rightarrow> 't ThreadPool \<Rightarrow> 't pool_state" where
  "pool_begin n p =
     \<lparr>pool = p, workers = replicate n Initialising, blocked = [], woken = [],
      accepted_tasks = [], taken_tasks = [], finished_tasks = [], refused_tasks = [], inits = []\<rparr>"

fun executing :: "'t worker \<Rightarrow> 't list" where
  "executing (Executing task) = [task]"
| "executing _ = []"

definition in_progress :: "'t pool_state \<Rightarrow> 't list" where
  "in_progress s = concat (map executing (workers s))"

definition tasks_inv :: "'t pool_state \<Rightarrow> bool" where
  "tasks_inv s \<longleftrightarrow>
     (maxQueueSize (pool s) > 0 \<longrightarrow> length (queue (pool s)) \<le> maxQueueSize (pool s)) \<and>
     accepted_tasks s = taken_tasks s @ queue (pool s) \<and>
     mset (taken_tasks s) = mset (finished_tasks s) + mset (in_progress s)"

text \<open>
  Nobody sleeps while there is work: when a worker waits, each queued task has a worker of its own at the
  test of \<open>take\<close>; when a caller waits, each free place in the queue has a woken caller of its own.
\<close>

definition awake :: "'t worker list \<Rightarrow> nat" where
  "awake ws = count_list ws Taking"

definition wake_slack :: "nat \<Rightarrow> 't pool_state \<Rightarrow> bool" where
  "wake_slack k s \<longleftrightarrow>
     (Waiting \<in> set (workers s) \<longrightarrow> running (pool s) \<and> length (queue (pool s)) \<le> awake (workers s)) \<and>
     (blocked s \<noteq> [] \<longrightarrow> threads (pool s) \<noteq> [] \<and> running (pool s) \<and> 0 < maxQueueSize (pool s) \<and>
       maxQueueSize (pool s) \<le> length (queue (pool s)) + length (woken s) + k)"

abbreviation wake_inv :: "'t pool_state \<Rightarrow> bool" where "wake_inv \<equiv> wake_slack 0"

lemma awake_update:
  assumes "i < length ws"
  shows "awake (ws[i := w]) + (if ws ! i = Taking then 1 else 0) = awake ws + (if w = Taking then 1 else 0)"
  using length_filter_update [OF assms, of "(=) Taking" w]
  by (auto simp: awake_def count_list_eq_length_filter)

text \<open>Changing one worker changes the tasks in progress by that worker's task.\<close>

lemma in_progress_update:
  assumes "i < length ws"
  shows "mset (concat (map executing (ws[i := w]))) + mset (executing (ws ! i)) =
    mset (concat (map executing ws)) + mset (executing w)"
  using assms
proof (induction ws arbitrary: i)
  case (Cons v ws)
  then show ?case by (cases i) (auto simp: ac_simps)
qed simp

lemma in_progress_same:
  assumes "i < length ws" "executing (ws ! i) = []" "executing w = []"
  shows "mset (concat (map executing (ws[i := w]))) = mset (concat (map executing ws))"
  using in_progress_update [OF assms(1), of w] assms(2,3) by simp

lemma in_progress_wake: "concat (map executing (wake_all ws)) = concat (map executing ws)"
  by (induction ws) (auto simp: wake_all_def split: worker.splits)

lemma waiting_update: "Waiting \<in> set (ws[i := w]) \<Longrightarrow> w \<noteq> Waiting \<Longrightarrow> Waiting \<in> set ws"
  using set_update_subset_insert [of ws i w] by auto

lemma not_waiting_wake: "Waiting \<notin> set (wake_all ws)"
  by (auto simp: wake_all_def split: worker.splits)

lemma notify_worker_tasks:
  "notify_worker ws ws' \<Longrightarrow> mset (concat (map executing ws')) = mset (concat (map executing ws))"
  by (induction rule: notify_worker.induct) (auto simp: in_progress_same)

text \<open>A notification adds an awake worker as long as one waits.\<close>

lemma notify_worker_awake:
  "notify_worker ws ws' \<Longrightarrow> Waiting \<in> set ws' \<Longrightarrow> Waiting \<in> set ws \<and> awake ws' = awake ws + 1"
proof (induction rule: notify_worker.induct)
  case (somebody i ws)
  then show ?case using awake_update [of i ws Taking] by (auto dest: waiting_update)
qed simp

lemma notify_caller_keeps:
  assumes "notify_caller s s'"
  shows "pool s' = pool s \<and> workers s' = workers s \<and> accepted_tasks s' = accepted_tasks s \<and>
    taken_tasks s' = taken_tasks s \<and> finished_tasks s' = finished_tasks s \<and>
    (blocked s' \<noteq> [] \<longrightarrow> blocked s \<noteq> [] \<and> length (woken s') = length (woken s) + 1)"
  using assms by (induction rule: notify_caller.induct) auto

section \<open>Every step keeps the invariants\<close>

lemma pool_run_Some:
  assumes "pool_run task p = Some (Queued, p')"
  shows "p' = p\<lparr>queue := queue p @ [task]\<rparr>" "running p" "\<not> isFull p"
  using assms by (auto simp: pool_run_def split: if_splits)

lemma pool_take_Some:
  assumes "pool_take p = Some (Some task, p')"
  obtains q where "queue p = task # q" "p' = p\<lparr>queue := q\<rparr>"
  using assms by (auto simp: pool_take_def split: if_splits list.splits)

lemma run_section_tasks: "run_section task s s' \<Longrightarrow> tasks_inv s \<Longrightarrow> tasks_inv s'"
proof (induction rule: run_section.induct)
  case (run_queue task s p ws)
  note p = pool_run_Some [OF run_queue(1)]
  have "mset (concat (map executing ws)) = mset (concat (map executing (workers s)))"
    by (rule notify_worker_tasks [OF run_queue(2)])
  then show ?case using run_queue.prems p by (auto simp: tasks_inv_def in_progress_def isFull_def)
qed (simp_all add: tasks_inv_def in_progress_def)

text \<open>A caller that comes back from its wait is no longer counted among the woken ones.\<close>

lemma run_section_wake: "run_section task s s' \<Longrightarrow> wake_slack 1 s \<Longrightarrow> wake_inv s'"
proof (induction rule: run_section.induct)
  case (run_inline task s p)
  then have "threads (pool s) = []" by (auto simp: pool_run_def split: if_splits)
  then show ?case using run_inline by (simp add: wake_slack_def)
next
  case (run_queue task s p ws)
  note p = pool_run_Some [OF run_queue(1)] and w = notify_worker_awake [OF run_queue(2)]
  show ?case using run_queue.prems p w by (auto simp: wake_slack_def)
next
  case (run_refuse task s p)
  then have "\<not> running (pool s)" by (auto simp: pool_run_def split: if_splits)
  then show ?case using run_refuse by (simp add: wake_slack_def)
next
  case (run_wait task s)
  then have "threads (pool s) \<noteq> []" "isFull (pool s)" "running (pool s)" by (auto simp: pool_run_def split: if_splits)
  then show ?case using run_wait.prems by (simp add: wake_slack_def isFull_def)
qed

lemma take_section_tasks:
  assumes "take_section i s s'" "i < length (workers s)" "workers s ! i = Taking" "tasks_inv s"
  shows "tasks_inv s'"
  using assms
proof (induction rule: take_section.induct)
  case (take_task s task p s1 i s2)
  obtain q where q: "queue (pool s) = task # q" "p = (pool s)\<lparr>queue := q\<rparr>"
    using take_task(1) by (rule pool_take_Some)
  have "mset (in_progress s1) = mset (in_progress s) + {#task#}"
    using in_progress_update [OF take_task(4), of "Executing task"] take_task(2,5) by (simp add: in_progress_def)
  then have "tasks_inv s1" using take_task.prems q take_task(2) by (auto simp: tasks_inv_def)
  then show ?case using take_task(3) notify_caller_keeps [of s1 s2]
    by (auto simp: tasks_inv_def in_progress_def split: if_splits)
qed (simp_all add: tasks_inv_def in_progress_def in_progress_same)

lemma take_section_wake:
  assumes "take_section i s s'" "i < length (workers s)" "workers s ! i = Taking" "wake_inv s"
  shows "wake_inv s'"
  using assms
proof (induction rule: take_section.induct)
  case (take_task s task p s1 i s2)
  obtain q where q: "queue (pool s) = task # q" "p = (pool s)\<lparr>queue := q\<rparr>"
    using take_task(1) by (rule pool_take_Some)
  have ws: "workers s2 = (workers s)[i := Executing task]" "pool s2 = p"
    "blocked s2 \<noteq> [] \<Longrightarrow> blocked s \<noteq> [] \<and> (0 < maxQueueSize (pool s) \<longrightarrow> length (woken s2) = length (woken s) + 1)"
    using take_task(2,3) notify_caller_keeps [of s1 s2] by (auto split: if_splits)
  have "awake (workers s2) + 1 = awake (workers s)"
    using awake_update [OF take_task(4), of "Executing task"] take_task(5) ws by simp
  moreover have "Waiting \<in> set (workers s2) \<Longrightarrow> Waiting \<in> set (workers s)"
    using ws waiting_update by fastforce
  ultimately have "Waiting \<in> set (workers s2) \<longrightarrow> running (pool s2) \<and> length (queue (pool s2)) \<le> awake (workers s2)"
    using take_task.prems(3) q ws(2) by (auto simp: wake_slack_def)
  moreover have "blocked s2 \<noteq> [] \<longrightarrow> threads (pool s2) \<noteq> [] \<and> running (pool s2) \<and> 0 < maxQueueSize (pool s2) \<and>
      maxQueueSize (pool s2) \<le> length (queue (pool s2)) + length (woken s2)"
    using take_task.prems(3) q ws(2,3) by (auto simp: wake_slack_def)
  ultimately show ?case by (simp add: wake_slack_def)
next
  case (take_nothing s p i)
  then have "queue (pool s) = []" "\<not> running (pool s)" by (auto simp: pool_take_def split: if_splits list.splits)
  then show ?case using take_nothing.prems waiting_update [of "workers s" i AtTest] by (auto simp: wake_slack_def)
next
  case (take_wait s i)
  then have "queue (pool s) = []" "running (pool s)" by (auto simp: pool_take_def split: if_splits list.splits)
  then show ?case using take_wait.prems by (auto simp: wake_slack_def)
qed

lemma pool_step_tasks:
  assumes "pool_step throws s s'" "tasks_inv s"
  shows "tasks_inv s'"
  using assms
proof (induction rule: pool_step.induct)
  case (call task s s')
  show ?case by (rule run_section_tasks [OF call])
next
  case (recall s ts task us s')
  have "tasks_inv (s\<lparr>woken := ts @ us\<rparr>)" using recall.prems by (simp add: tasks_inv_def in_progress_def)
  then show ?case by (rule run_section_tasks [OF recall(2)])
next
  case (halt s)
  then show ?case by (simp add: tasks_inv_def in_progress_def pool_halt_def in_progress_wake)
next
  case (take i s s')
  show ?case by (rule take_section_tasks [OF take(3,1,2) take.prems])
next
  case (finish_task i s task)
  have "mset (in_progress (s\<lparr>workers := (workers s)[i := if throws task then Exited else AtTest]\<rparr>)) + {#task#} =
      mset (in_progress s)"
    using in_progress_update [OF finish_task(1), of "if throws task then Exited else AtTest"] finish_task(2)
    by (simp add: in_progress_def split: if_splits)
  then show ?case using finish_task.prems by (simp add: tasks_inv_def in_progress_def ac_simps)
next
  case (spurious_caller s s')
  then show ?case using notify_caller_keeps [of s s'] by (simp add: tasks_inv_def in_progress_def)
qed (simp_all add: tasks_inv_def in_progress_def in_progress_same)

lemma pool_step_wake:
  assumes "pool_step throws s s'" "wake_inv s"
  shows "wake_inv s'"
  using assms
proof (induction rule: pool_step.induct)
  case (call task s s')
  then show ?case using run_section_wake [of task s s'] by (auto simp: wake_slack_def)
next
  case (recall s ts task us s')
  have "wake_slack 1 (s\<lparr>woken := ts @ us\<rparr>)" using recall(1,3) by (auto simp: wake_slack_def)
  then show ?case by (rule run_section_wake [OF recall(2)])
next
  case (halt s)
  then show ?case by (simp add: wake_slack_def not_waiting_wake)
next
  case (test_running i s)
  then show ?case
    using awake_update [OF test_running(1), of Taking] by (auto simp: wake_slack_def dest: waiting_update)
next
  case (init_thread i s cb)
  let ?w = "if throws cb then Exited else AtTest"
  show ?case
    using init_thread awake_update [OF init_thread(1), of ?w] waiting_update [of "workers s" i ?w]
    by (auto simp: wake_slack_def split: if_splits)
next
  case (no_init i s)
  then show ?case
    using awake_update [OF no_init(1), of AtTest] by (auto simp: wake_slack_def dest: waiting_update)
next
  case (take i s s')
  show ?case by (rule take_section_wake [OF take(3,1,2) take.prems])
next
  case (finish_task i s task)
  let ?w = "if throws task then Exited else AtTest"
  have "awake ((workers s)[i := ?w]) = awake (workers s)"
    using awake_update [OF finish_task(1), of ?w] finish_task(2) by (simp split: if_splits)
  moreover have "Waiting \<in> set ((workers s)[i := ?w]) \<Longrightarrow> Waiting \<in> set (workers s)" by (rule waiting_update) (auto split: if_splits)
  ultimately show ?case using finish_task.prems by (auto simp: wake_slack_def)
next
  case (spurious i s)
  then show ?case
    using awake_update [OF spurious(1), of Taking] by (auto simp: wake_slack_def dest: waiting_update)
next
  case (spurious_caller s s')
  then show ?case using notify_caller_keeps [of s s'] by (auto simp: wake_slack_def)
qed

lemma pool_reach_inv:
  assumes "pool_reach throws s0 s" "tasks_inv s0" "wake_inv s0"
  shows "tasks_inv s \<and> wake_inv s"
  using assms by (induction rule: pool_reach.induct) (auto dest: pool_step_tasks pool_step_wake)

lemma run_section_max: "run_section task s s' \<Longrightarrow> maxQueueSize (pool s') = maxQueueSize (pool s)"
proof (induction rule: run_section.induct)
  case (run_queue task s p ws)
  then show ?case using pool_run_Some(1) [OF run_queue(1)] by simp
qed simp_all

lemma take_section_max: "take_section i s s' \<Longrightarrow> maxQueueSize (pool s') = maxQueueSize (pool s)"
proof (induction rule: take_section.induct)
  case (take_task s task p s1 i s2)
  then have "pool s2 = p" using notify_caller_keeps [of s1 s2] by (auto split: if_splits)
  moreover obtain q where "p = (pool s)\<lparr>queue := q\<rparr>" using take_task(1) by (rule pool_take_Some)
  ultimately show ?case by simp
qed simp_all

lemma pool_reach_max:
  assumes "pool_reach throws s0 s"
  shows "maxQueueSize (pool s) = maxQueueSize (pool s0)"
  using assms
proof (induction rule: pool_reach.induct)
  case (pool_next s s')
  from pool_next(2,3) show ?case
    by (induction rule: pool_step.induct) (auto simp: pool_halt_def take_section_max dest: run_section_max notify_caller_keeps)
qed simp

text \<open>
  The init callback, if there is one, has been called exactly once by every worker that is past its
  beginning. No other step touches this: \<open>same_init\<close>.
\<close>

definition init_inv :: "'t pool_state \<Rightarrow> bool" where
  "init_inv s \<longleftrightarrow> distinct (inits s) \<and> (\<forall>i. i \<in> set (inits s) \<longleftrightarrow>
     i < length (workers s) \<and> threadInitCallback (pool s) \<noteq> None \<and> workers s ! i \<noteq> Initialising)"

definition same_fresh :: "'t worker list \<Rightarrow> 't worker list \<Rightarrow> bool" where
  "same_fresh ws ws' \<longleftrightarrow> length ws' = length ws \<and>
     (\<forall>i<length ws. ws' ! i = Initialising \<longleftrightarrow> ws ! i = Initialising)"

definition same_init :: "'t pool_state \<Rightarrow> 't pool_state \<Rightarrow> bool" where
  "same_init s s' \<longleftrightarrow> inits s' = inits s \<and> threadInitCallback (pool s') = threadInitCallback (pool s) \<and>
     same_fresh (workers s) (workers s')"

lemma same_init_inv:
  assumes "same_init s s'" "init_inv s"
  shows "init_inv s'"
proof -
  have same: "inits s' = inits s" "threadInitCallback (pool s') = threadInitCallback (pool s)"
      "length (workers s') = length (workers s)"
      "\<And>i. i < length (workers s) \<Longrightarrow> workers s' ! i = Initialising \<longleftrightarrow> workers s ! i = Initialising"
    using assms(1) by (simp_all add: same_init_def same_fresh_def)
  show ?thesis using assms(2) same(4) unfolding init_inv_def same(1-3) by blast
qed

lemma same_fresh_refl [simp]: "same_fresh ws ws"
  by (simp add: same_fresh_def)

lemma same_fresh_update: "ws ! i \<noteq> Initialising \<Longrightarrow> w \<noteq> Initialising \<Longrightarrow> same_fresh ws (ws[i := w])"
  by (cases "i < length ws") (auto simp: same_fresh_def nth_list_update list_update_beyond)

lemma same_fresh_notify: "notify_worker ws ws' \<Longrightarrow> same_fresh ws ws'"
  by (induction rule: notify_worker.induct) (simp_all add: same_fresh_update)

lemma same_fresh_wake: "same_fresh ws (wake_all ws)"
  by (simp add: same_fresh_def wake_all_def split: worker.splits)

lemma run_section_init: "run_section task s s' \<Longrightarrow> same_init s s'"
proof (induction rule: run_section.induct)
  case (run_queue task s p ws)
  then show ?case using pool_run_Some(1) [OF run_queue(1)] same_fresh_notify by (simp add: same_init_def)
qed (simp_all add: same_init_def)

lemma notify_caller_frame:
  "notify_caller s s' \<Longrightarrow> pool s' = pool s \<and> workers s' = workers s \<and> inits s' = inits s"
  by (induction rule: notify_caller.induct) simp_all

lemma take_section_init: "take_section i s s' \<Longrightarrow> workers s ! i \<noteq> Initialising \<Longrightarrow> same_init s s'"
proof (induction rule: take_section.induct)
  case (take_task s task p s1 i s2)
  have "pool s2 = pool s1 \<and> workers s2 = workers s1 \<and> inits s2 = inits s1"
    using take_task(3) notify_caller_frame [of s1 s2] by (cases "maxQueueSize (pool s) > 0") simp_all
  moreover obtain q where "p = (pool s)\<lparr>queue := q\<rparr>" using take_task(1) by (rule pool_take_Some)
  ultimately show ?case using take_task(2,4) by (simp add: same_init_def same_fresh_update)
qed (simp_all add: same_init_def same_fresh_update)

lemma pool_step_init:
  assumes "pool_step throws s s'" "init_inv s"
  shows "init_inv s'"
  using assms
proof (induction rule: pool_step.induct)
  case (call task s s')
  show ?case by (rule same_init_inv [OF run_section_init [OF call(1)] call.prems])
next
  case (recall s ts task us s')
  have "init_inv (s\<lparr>woken := ts @ us\<rparr>)" using recall.prems by (simp add: init_inv_def)
  then show ?case using same_init_inv [OF run_section_init [OF recall(2)]] by blast
next
  case (halt s)
  show ?case by (rule same_init_inv [OF _ halt]) (simp add: same_init_def pool_halt_def same_fresh_wake)
next
  case (init_thread i s cb)
  then have "\<forall>j. j \<in> set (inits s) \<longrightarrow> j \<noteq> i" by (auto simp: init_inv_def)
  then show ?case using init_thread by (auto simp: init_inv_def nth_list_update split: if_splits)
next
  case (no_init i s)
  then show ?case by (auto simp: init_inv_def)
next
  case (take i s s')
  then show ?case using same_init_inv [OF take_section_init [OF take(3)]] by simp
next
  case (spurious_caller s s')
  then show ?case using notify_caller_frame [OF spurious_caller(1)] by (simp add: init_inv_def)
next
  case (test_running i s)
  show ?case by (rule same_init_inv [OF _ test_running.prems]) (simp add: same_init_def same_fresh_update test_running)
next
  case (finish_task i s task)
  show ?case by (rule same_init_inv [OF _ finish_task.prems]) (simp add: same_init_def same_fresh_update finish_task)
next
  case (spurious i s)
  show ?case by (rule same_init_inv [OF _ spurious.prems]) (simp add: same_init_def same_fresh_update spurious)
qed

lemma pool_reach_init:
  assumes "pool_reach throws s0 s" "init_inv s0"
  shows "init_inv s"
  using assms by (induction rule: pool_reach.induct) (blast dest: pool_step_init)+

section \<open>Starting and stopping\<close>

text \<open>What \<open>start\<close>, \<open>join\<close> and the destructor of a thread depend on.\<close>

definition thread_flags :: "Thread \<Rightarrow> bool \<times> bool" where
  "thread_flags t = (thread_set t, joinable t)"

abbreviation (input) "unstarted \<equiv> (False, False)"
abbreviation (input) "live \<equiv> (True, True)"
abbreviation (input) "gone \<equiv> (True, False)"

lemma start_threads_flags:
  assumes "threads p = ts @ us" "live \<notin> set (map thread_flags us)"
  shows "\<exists>c p'. start_threads gettid (length ts) k numCreated p = Inr (c, p') \<and>
    map thread_flags (threads p') =
      map thread_flags ts @ replicate k live @ drop k (map thread_flags us @ replicate k unstarted) \<and>
    maxQueueSize p' = maxQueueSize p \<and> queue p' = queue p \<and> running p' = running p"
  using assms
proof (induction k arbitrary: p ts us numCreated)
  case (Suc k)
  let ?nm = "pool_name p @ snprintf_trunc 32 (int_dec (int (length ts) + 1))"
  obtain num t where t: "Thread_new numCreated ?nm = (num, t)" by fastforce
  then have new: "thread_flags t = unstarted" by (auto simp: Thread_new_def thread_flags_def split: prod.splits)
  obtain v vs where v: "us @ [t] = v # vs" by (cases "us @ [t]") auto
  have flags: "map thread_flags us @ [unstarted] = thread_flags v # map thread_flags vs"
    using arg_cong [OF v, of "map thread_flags"] new by simp
  then have "set (map thread_flags (v # vs)) = insert unstarted (set (map thread_flags us))"
    by (metis list.simps(9) set_append list.set(1) list.set(2) Un_insert_right sup_bot.right_neutral)
  then have idle: "live \<notin> set (map thread_flags (v # vs))" using Suc.prems(2) by auto
  let ?v = "v\<lparr>started := True, thread_set := True, joinable := True, thread_tid := fst (tid (gettid (length ts)) 0)\<rparr>"
  have "thread_flags v \<noteq> live" using idle by auto
  then have start: "Thread_start (gettid (length ts)) v = Inr ?v"
    by (auto simp: Thread_start_def thread_flags_def)
  let ?p = "p\<lparr>threads := (ts @ [?v]) @ vs\<rparr>"
  have all: "threads p @ [t] = ts @ v # vs" using Suc.prems(1) v by simp
  have run: "start_threads gettid (length ts) (Suc k) numCreated p =
      start_threads gettid (length (ts @ [?v])) k num ?p"
    using t start by (simp add: all)
  obtain c p' where p': "start_threads gettid (length (ts @ [?v])) k num ?p = Inr (c, p')"
      "map thread_flags (threads p') = map thread_flags (ts @ [?v]) @ replicate k live @
         drop k (map thread_flags vs @ replicate k unstarted)"
      "maxQueueSize p' = maxQueueSize p" "queue p' = queue p" "running p' = running p"
    using Suc.IH [of ?p "ts @ [?v]" vs num] idle by auto
  have "map thread_flags us @ replicate (Suc k) unstarted = thread_flags v # map thread_flags vs @ replicate k unstarted"
    using flags by (simp add: append_eq_append_conv2)
  then have rest: "drop (Suc k) (map thread_flags us @ replicate (Suc k) unstarted) =
      drop k (map thread_flags vs @ replicate k unstarted)" by (simp only: drop_Suc_Cons)
  have "thread_flags ?v = live" by (simp add: thread_flags_def)
  then have "map thread_flags (threads p') =
      map thread_flags ts @ replicate (Suc k) live @ drop (Suc k) (map thread_flags us @ replicate (Suc k) unstarted)"
    unfolding rest using p'(2) by simp
  then show ?case using run p'(1,3-5) by (intro exI [of _ c] exI [of _ p']) simp
qed simp

lemma join_all_live:
  "map thread_flags ts = replicate n live \<Longrightarrow>
    \<exists>ts'. join_all ts = Inr ts' \<and> map thread_flags ts' = replicate n gone \<and> delete_all ts' = Inr ()"
proof (induction n arbitrary: ts)
  case (Suc n)
  then obtain t us where ts: "ts = t # us" "thread_flags t = live" "map thread_flags us = replicate n live"
    by (cases ts) auto
  from Suc.IH [OF ts(3)] obtain us' where "join_all us = Inr us'" "map thread_flags us' = replicate n gone"
    "delete_all us' = Inr ()" by blast
  moreover have "Thread_join t = Inr (t\<lparr>joined := True, joinable := False\<rparr>)"
      "thread_flags (t\<lparr>joined := True, joinable := False\<rparr>) = gone"
      "Thread_delete (t\<lparr>joined := True, joinable := False\<rparr>) = Inr ()"
    using ts(2) by (simp_all add: Thread_join_def thread_flags_def Thread_delete_def)
  ultimately show ?case using ts(1) by simp
qed simp

lemma join_all_fails:
  "map thread_flags ts = replicate k live @ f # fs \<Longrightarrow> f \<noteq> live \<Longrightarrow>
    join_all ts = Inl (if fst f then SystemError else NullDeref)"
proof (induction k arbitrary: ts)
  case 0
  then show ?case by (cases ts) (auto simp: Thread_join_def thread_flags_def)
next
  case (Suc k)
  then obtain t us where "ts = t # us" "thread_flags t = live" "map thread_flags us = replicate k live @ f # fs"
    by (cases ts) auto
  with Suc show ?case by (auto simp: Thread_join_def thread_flags_def)
qed

lemma ThreadPool_start_ok:
  assumes "threads p = []" "0 \<le> n"
  shows "\<exists>c i p'. ThreadPool_start gettid n numCreated p = Inr (c, i, p') \<and>
    map thread_flags (threads p') = replicate (nat n) live \<and>
    maxQueueSize p' = maxQueueSize p \<and> queue p' = queue p \<and> running p'"
  using start_threads_flags [of "p\<lparr>running := True\<rparr>" "[]" "[]" gettid "nat n" numCreated] assms
  by (auto simp: ThreadPool_start_def)

lemma ThreadPool_started:
  assumes "ThreadPool_start gettid n numCreated (setThreadInitCallback cb (setMaxQueueSize m (ThreadPool_new nm))) = Inr (c, i, p)"
  shows "maxQueueSize p = nat (m mod 2 ^ 64) \<and> queue p = [] \<and> running p \<and> length (threads p) = nat n"
proof -
  let ?p0 = "setThreadInitCallback cb (setMaxQueueSize m (ThreadPool_new nm)) :: 'a ThreadPool"
  have p0: "threads ?p0 = []" "maxQueueSize ?p0 = nat (m mod 2 ^ 64)" "queue ?p0 = []"
    by (simp_all add: setMaxQueueSize_def setThreadInitCallback_def ThreadPool_new_def)
  have "0 \<le> n" using assms by (simp add: ThreadPool_start_def split: if_splits)
  from ThreadPool_start_ok [OF p0(1) this, of gettid numCreated] assms
  have p: "map thread_flags (threads p) = replicate (nat n) live" "maxQueueSize p = maxQueueSize ?p0"
      "queue p = queue ?p0" "running p"
    by auto
  from arg_cong [OF p(1), of length] have "length (threads p) = nat n" by simp
  with p p0 show ?thesis by simp
qed

text \<open>Both invariants from the start on.\<close>

lemma pool_reachable:
  assumes "ThreadPool_start gettid n numCreated (setThreadInitCallback cb (setMaxQueueSize m (ThreadPool_new nm))) = Inr (c, i, p)"
    "pool_reach throws (pool_begin (nat n) p) s"
  shows "tasks_inv s \<and> wake_inv s \<and> maxQueueSize (pool s) = nat (m mod 2 ^ 64) \<and> init_inv s"
proof -
  note p = ThreadPool_started [OF assms(1)]
  have "executing (Initialising :: 'a worker) = []" by simp
  then have "tasks_inv (pool_begin (nat n) p)" using p
    by (simp add: tasks_inv_def pool_begin_def in_progress_def)
  moreover have "wake_inv (pool_begin (nat n) p)" by (simp add: wake_slack_def pool_begin_def)
  ultimately show ?thesis
    using pool_reach_inv [OF assms(2)] pool_reach_init [OF assms(2)] pool_reach_max [OF assms(2)] p by (simp add: pool_begin_def init_inv_def)
qed

section \<open>Properties\<close>

text \<open>C12: the task queue is bounded, first in first out, and loses nothing. In every interleaving of callers,
  workers and \<open>stop\<close>: the queue never exceeds its maximum; the accepted tasks are those taken by workers,
  in the order of their acceptance, followed by the queue; every taken task has been run to its end or is
  being run by exactly one worker; and every worker past its beginning has called the init callback
  once, if there is one.\<close>

theorem ThreadPool_bounded_fifo:
  assumes "ThreadPool_start gettid n numCreated (setThreadInitCallback cb (setMaxQueueSize m (ThreadPool_new nm))) = Inr (c, i, p)"
    "pool_reach throws (pool_begin (nat n) p) s"
  shows "(0 < m \<and> m < 2 ^ 31 \<longrightarrow> length (queue (pool s)) \<le> nat m) \<and>
    accepted_tasks s = taken_tasks s @ queue (pool s) \<and>
    mset (taken_tasks s) = mset (finished_tasks s) + mset (in_progress s) \<and>
    distinct (inits s) \<and> (\<forall>i<length (workers s). workers s ! i \<noteq> Initialising \<longrightarrow>
      (i \<in> set (inits s) \<longleftrightarrow> threadInitCallback (pool s) \<noteq> None))"
proof -
  have "0 < m \<and> m < 2 ^ 31 \<Longrightarrow> m mod 2 ^ 64 = m" by (auto intro: mod_pos_pos_trivial)
  moreover note inv = pool_reachable [OF assms]
  have "distinct (inits s) \<and> (\<forall>i<length (workers s). workers s ! i \<noteq> Initialising \<longrightarrow>
      (i \<in> set (inits s) \<longleftrightarrow> threadInitCallback (pool s) \<noteq> None))"
    using conjunct2 [OF conjunct2 [OF conjunct2 [OF inv]]] unfolding init_inv_def by blast
  ultimately show ?thesis using inv by (auto simp: tasks_inv_def)
qed

text \<open>One worker, room for one task, and a second caller that waits.\<close>

definition sample_pool :: "nat ThreadPool" where
  "sample_pool = \<lparr>pool_name = ''pool'', maxQueueSize = 1, running = True, queue = [],
     threads = [\<lparr>started = True, joined = False, thread_set = True, joinable = True, thread_tid = 42,
       thread_name = ''pool1''\<rparr>], threadInitCallback = Some 3\<rparr>"

lemma sample_pool_start:
  "ThreadPool_start (\<lambda>_. 42) 1 0 (setThreadInitCallback (Some 3) (setMaxQueueSize 1 (ThreadPool_new ''pool''))) = Inr (1, [], sample_pool)"
proof -
  have "snprintf_trunc 32 (int_dec 1) = ''1''" by code_simp
  then show ?thesis
    by (simp add: ThreadPool_start_def setMaxQueueSize_def setThreadInitCallback_def ThreadPool_new_def Thread_new_def setDefaultName_def
        Thread_start_def tid_def cacheTid_def sample_pool_def Let_def wrap32_def)
qed

lemma sample_pool_reach:
  "\<exists>s. pool_reach (\<lambda>_. False) (pool_begin (nat 1) sample_pool) s \<and> accepted_tasks s = [7] \<and>
    queue (pool s) = [7] \<and> blocked s = [8] \<and> woken s = [] \<and> maxQueueSize (pool s) = 1"
proof -
  let ?s0 = "pool_begin (nat 1) sample_pool"
  let ?s1 = "?s0\<lparr>pool := sample_pool\<lparr>queue := [7]\<rparr>, workers := workers ?s0, accepted_tasks := [7]\<rparr>"
  note defs = pool_begin_def sample_pool_def pool_run_def isFull_def
  have "pool_run 7 (pool ?s0) = Some (Queued, sample_pool\<lparr>queue := [7]\<rparr>)" "Waiting \<notin> set (workers ?s0)"
    by (simp_all add: defs)
  from run_queue [OF this(1) nobody [OF this(2)]] have "run_section 7 ?s0 ?s1" by (simp add: pool_begin_def)
  then have r1: "pool_reach (\<lambda>_. False) ?s0 ?s1" by (blast intro: pool_init pool_next call)
  have "pool_run 8 (pool ?s1) = None" by (simp add: defs)
  then have "run_section 8 ?s1 (?s1\<lparr>blocked := blocked ?s1 @ [8]\<rparr>)" by (rule run_wait)
  then have "pool_reach (\<lambda>_. False) ?s0 (?s1\<lparr>blocked := blocked ?s1 @ [8]\<rparr>)" by (rule pool_next [OF r1 call])
  then show ?thesis
    by (intro exI [of _ "?s1\<lparr>blocked := blocked ?s1 @ [8]\<rparr>"]) (simp add: pool_begin_def sample_pool_def)
qed

theorem ThreadPool_bounded_fifo_witness:
  "\<exists>s. pool_reach (\<lambda>_. False) (pool_begin (nat 1) sample_pool) s \<and> accepted_tasks s = [7] \<and>
    accepted_tasks s = taken_tasks s @ queue (pool s) \<and> taken_tasks s = [] \<and> blocked s = [8]"
proof -
  from sample_pool_reach obtain s where s: "pool_reach (\<lambda>_. False) (pool_begin (nat 1) sample_pool) s"
    "accepted_tasks s = [7]" "queue (pool s) = [7]" "blocked s = [8]" by blast
  with ThreadPool_bounded_fifo [OF sample_pool_start s(1)] show ?thesis by (intro exI [of _ s]) simp
qed

text \<open>C11: no lost wakeup in the pool. In every interleaving: while a worker sleeps in \<open>take\<close>, every queued task
  has a worker of its own that is awake and about to look at the queue; while a caller sleeps in \<open>run\<close>, the
  pool is running, the queue is bounded, and every free place has a woken caller of its own. In particular
  a full set of sleeping workers means an empty queue, and a set of sleeping callers a full one.\<close>

theorem ThreadPool_no_lost_wakeup:
  assumes "ThreadPool_start gettid n numCreated (setThreadInitCallback cb (setMaxQueueSize m (ThreadPool_new nm))) = Inr (c, i, p)"
    "pool_reach throws (pool_begin (nat n) p) s"
  shows "(Waiting \<in> set (workers s) \<longrightarrow> running (pool s) \<and> queueSize (pool s) \<le> awake (workers s)) \<and>
    (blocked s \<noteq> [] \<longrightarrow> running (pool s) \<and> 0 < maxQueueSize (pool s) \<and>
      maxQueueSize (pool s) - queueSize (pool s) \<le> length (woken s))"
  using pool_reachable [OF assms] by (auto simp: wake_slack_def queueSize_def)

theorem ThreadPool_no_lost_wakeup_witness:
  "\<exists>s. pool_reach (\<lambda>_. False) (pool_begin (nat 1) sample_pool) s \<and> blocked s = [8] \<and> running (pool s) \<and>
    maxQueueSize (pool s) - queueSize (pool s) \<le> 0"
proof -
  from sample_pool_reach obtain s where s: "pool_reach (\<lambda>_. False) (pool_begin (nat 1) sample_pool) s"
    "woken s = []" "blocked s = [8]" by blast
  with ThreadPool_no_lost_wakeup [OF sample_pool_start s(1)] show ?thesis by (intro exI [of _ s]) simp
qed

text \<open>C32: a pool is good for one life. A new pool starts, stops and is destroyed without a fault, stopped or not.
  But a stopped pool that is started again has appended new threads and restarted the old ones, so that
  its next \<open>stop\<close>, and its destructor, join a thread that was never started, or one that is already joined.\<close>

theorem ThreadPool_restart_faults:
  assumes "0 \<le> n"
  shows "\<exists>c i p p'. ThreadPool_start gettid n numCreated (setThreadInitCallback cb (setMaxQueueSize m (ThreadPool_new nm))) = Inr (c, i, p) \<and>
    ThreadPool_stop p = Inr p' \<and> ThreadPool_delete p = Inr () \<and> ThreadPool_delete p' = Inr () \<and>
    (0 < n \<and> 0 < k \<longrightarrow> (\<exists>c2 i2 p2. ThreadPool_start gettid k c p' = Inr (c2, i2, p2) \<and>
      ThreadPool_stop p2 = Inl (if k < n then SystemError else NullDeref) \<and>
      ThreadPool_delete p2 = Inl (if k < n then SystemError else NullDeref)))"
proof -
  let ?p0 = "setThreadInitCallback cb (setMaxQueueSize m (ThreadPool_new nm)) :: 'a ThreadPool"
  have "threads ?p0 = []" by (simp add: setMaxQueueSize_def setThreadInitCallback_def ThreadPool_new_def)
  from ThreadPool_start_ok [OF this assms] obtain c i p where p: "ThreadPool_start gettid n numCreated ?p0 = Inr (c, i, p)"
      "map thread_flags (threads p) = replicate (nat n) live" by blast
  have run: "running p" using ThreadPool_started [OF p(1)] by simp
  from join_all_live [OF p(2)] obtain ts where ts: "join_all (threads p) = Inr ts"
      "map thread_flags ts = replicate (nat n) gone" "delete_all ts = Inr ()" by blast
  let ?p' = "(pool_halt p)\<lparr>threads := ts\<rparr>"
  have stop: "ThreadPool_stop p = Inr ?p'" "ThreadPool_delete p = Inr ()" "ThreadPool_delete ?p' = Inr ()"
    using ts run by (simp_all add: ThreadPool_stop_def ThreadPool_delete_def pool_halt_def)
  have "\<exists>c2 i2 p2. ThreadPool_start gettid k c ?p' = Inr (c2, i2, p2) \<and>
      ThreadPool_stop p2 = Inl (if k < n then SystemError else NullDeref) \<and>
      ThreadPool_delete p2 = Inl (if k < n then SystemError else NullDeref)" if "0 < n \<and> 0 < k"
  proof -
    have "live \<notin> set (map thread_flags ts)" using ts(2) by simp
    with start_threads_flags [of "?p'\<lparr>running := True\<rparr>" "[]" ts gettid "nat k" c] that ts(2)
    obtain c2 i2 p2 where p2: "ThreadPool_start gettid k c ?p' = Inr (c2, i2, p2)"
        "map thread_flags (threads p2) = replicate (nat k) live @
           drop (nat k) (replicate (nat n) gone @ replicate (nat k) unstarted)"
        "running p2"
      by (auto simp: ThreadPool_start_def)
    have "\<exists>f fs. drop (nat k) (replicate (nat n) gone @ replicate (nat k) unstarted) = f # fs \<and>
        f = (k < n, False)"
    proof (cases "k < n")
      case True
      then have "0 < nat n - nat k" using that by auto
      then obtain j where "nat n - nat k = Suc j" by (cases "nat n - nat k") auto
      then show ?thesis using True by simp
    next
      case False
      then have le: "nat n \<le> nat k" by auto
      have "0 < nat n" using \<open>0 < n \<and> 0 < k\<close> by simp
      then obtain j where j: "nat n = Suc j" by (cases "nat n") simp_all
      have "drop (nat k) (replicate (nat n) gone @ replicate (nat k) unstarted) = replicate (nat n) unstarted"
        using le by simp
      then show ?thesis using False j by simp
    qed
    then obtain f fs where f: "map thread_flags (threads p2) = replicate (nat k) live @ f # fs" "f = (k < n, False)"
      using p2(2) by auto
    from join_all_fails [OF f(1)] f(2)
    have "join_all (threads p2) = Inl (if k < n then SystemError else NullDeref)" by simp
    then show ?thesis
      using p2(1,3) by (auto simp: ThreadPool_stop_def ThreadPool_delete_def)
  qed
  then show ?thesis using p(1) stop by blast
qed

theorem ThreadPool_restart_faults_witness:
  "\<exists>c i p p' c2 i2 p2. ThreadPool_start (\<lambda>i. int i + 100) 4 0
      (setThreadInitCallback (Some 1) (setMaxQueueSize 0 (ThreadPool_new ''work'')) :: nat ThreadPool) = Inr (c, i, p) \<and>
    ThreadPool_stop p = Inr p' \<and> ThreadPool_start (\<lambda>i. int i + 100) 4 c p' = Inr (c2, i2, p2) \<and>
    ThreadPool_stop p2 = Inl NullDeref"
  using ThreadPool_restart_faults [of 4 "\<lambda>i. int i + 100" 0 "Some (1 :: nat)" 0 "''work''" 4]
  by simp blast

end
