(* ===== verification/Base_Timestamp.thy ===== *)
theory Base_Timestamp
  imports Log_Stream
begin

text \<open>
  \<open>src/base/Timestamp.h\<close> and \<open>Timestamp.cc\<close>: microseconds since the epoch in an \<open>int64_t\<close>. Signed
  overflow and an out-of-range conversion are undefined in C++ and are the failure \<open>Overflow\<close> here.
  A \<open>double\<close> is a binary fraction; its product is rounded to 53 bits as IEEE 754 prescribes.
  The type is made an instance of \<open>linorder\<close>, which the timer queue's ordered sets use.
  Also here: the index arithmetic of \<open>src/utils/CircularBuffer.h\<close>.
\<close>

section \<open>Timestamp\<close>

datatype Timestamp = Timestamp (microSecondsSinceEpoch: int)

definition Timestamp_default :: Timestamp where "Timestamp_default = Timestamp 0"

definition Timestamp_invalid :: Timestamp where "Timestamp_invalid = Timestamp_default"

definition Timestamp_valid :: "Timestamp \<Rightarrow> bool" where
  "Timestamp_valid t \<longleftrightarrow> microSecondsSinceEpoch t > 0"

definition kMicroSecondsPerSecond :: int where "kMicroSecondsPerSecond = 1000 * 1000"

definition int64 :: "int \<Rightarrow> int result" where
  "int64 i = (if - (2 ^ 63) \<le> i \<and> i < 2 ^ 63 then Inr i else Inl Overflow)"

text \<open>\<open>now\<close> on the answer of \<open>gettimeofday\<close>.\<close>

definition Timestamp_now :: "int \<Rightarrow> int \<Rightarrow> Timestamp result" where
  "Timestamp_now tv_sec tv_usec =
     rbind (int64 (tv_sec * kMicroSecondsPerSecond + tv_usec)) (\<lambda>us. Inr (Timestamp us))"

definition Timestamp_toString :: "Timestamp \<Rightarrow> string" where
  "Timestamp_toString t =
     (let seconds = cdiv (microSecondsSinceEpoch t) kMicroSecondsPerSecond;
          microseconds = crem (microSecondsSinceEpoch t) kMicroSecondsPerSecond
      in snprintf_trunc 32 (int_dec seconds @ ''.'' @ int_dec0 6 microseconds))"

text \<open>The two comparisons of the source; the second is the equality of the datatype.\<close>

definition Timestamp_less :: "Timestamp \<Rightarrow> Timestamp \<Rightarrow> bool" where
  "Timestamp_less lhs rhs \<longleftrightarrow> microSecondsSinceEpoch lhs < microSecondsSinceEpoch rhs"

definition Timestamp_equal :: "Timestamp \<Rightarrow> Timestamp \<Rightarrow> bool" where
  "Timestamp_equal lhs rhs \<longleftrightarrow> microSecondsSinceEpoch lhs = microSecondsSinceEpoch rhs"

lemma Timestamp_equal_eq: "Timestamp_equal = (=)"
  by (auto simp: Timestamp_equal_def fun_eq_iff intro: Timestamp.expand)

instantiation Timestamp :: linorder
begin

definition less_Timestamp :: "Timestamp \<Rightarrow> Timestamp \<Rightarrow> bool" where
  "less_Timestamp = Timestamp_less"

definition less_eq_Timestamp :: "Timestamp \<Rightarrow> Timestamp \<Rightarrow> bool" where
  "less_eq_Timestamp lhs rhs \<longleftrightarrow> microSecondsSinceEpoch lhs \<le> microSecondsSinceEpoch rhs"

instance
  by standard (auto simp: less_Timestamp_def Timestamp_less_def less_eq_Timestamp_def intro: Timestamp.expand)

end

subsection \<open>\<open>double\<close>\<close>

text \<open>
  \<open>Finite m e\<close> is \<open>m * 2 ^ e\<close>. The limits of the exponent are not represented: a product beyond
  them is either too large for \<open>int64_t\<close> or truncates to zero.
\<close>

datatype double = Finite int int | Infinite | NotANumber

fun bit_length :: "nat \<Rightarrow> nat" where
  "bit_length n = (if n = 0 then 0 else Suc (bit_length (n div 2)))"

declare bit_length.simps [simp del]

definition round53 :: "int \<Rightarrow> int \<Rightarrow> double" where
  "round53 m e =
     (let a = \<bar>m\<bar>; k = bit_length (nat a) - 53; q = a div 2 ^ k; r = a mod 2 ^ k;
          q' = (if 2 * r > 2 ^ k \<or> (2 * r = 2 ^ k \<and> odd q) then q + 1 else q)
      in Finite (sgn m * q') (e + int k))"

fun double_mult :: "double \<Rightarrow> int \<Rightarrow> double" where
  "double_mult (Finite m e) k = round53 (m * k) e"
| "double_mult Infinite k = Infinite"
| "double_mult NotANumber k = NotANumber"

fun double_to_int64 :: "double \<Rightarrow> int result" where
  "double_to_int64 (Finite m e) =
     int64 (if e \<ge> 0 then m * 2 ^ nat e else cdiv m (2 ^ nat (- e)))"
| "double_to_int64 _ = Inl Overflow"

fun double_positive :: "double \<Rightarrow> bool" where
  "double_positive (Finite m e) = (m > 0)"
| "double_positive Infinite = True"
| "double_positive NotANumber = False"

definition addTime :: "Timestamp \<Rightarrow> double \<Rightarrow> Timestamp result" where
  "addTime timestamp seconds =
     rbind (double_to_int64 (double_mult seconds kMicroSecondsPerSecond)) (\<lambda>delta.
     rbind (int64 (microSecondsSinceEpoch timestamp + delta)) (\<lambda>us. Inr (Timestamp us)))"

lemma int64_Inr: "int64 i = Inr j \<longleftrightarrow> j = i \<and> - (2 ^ 63) \<le> i \<and> i < 2 ^ 63"
  by (auto simp: int64_def)

lemma bit_length_le: "n < 2 ^ k \<Longrightarrow> bit_length n \<le> k"
proof (induction n arbitrary: k rule: bit_length.induct)
  case (1 n)
  show ?case
  proof (cases "n = 0")
    case True
    then show ?thesis by (simp add: bit_length.simps)
  next
    case False
    with 1(2) obtain k' where "k = Suc k'" by (cases k) auto
    with 1 False show ?thesis by (simp add: bit_length.simps [of n])
  qed
qed

lemma round53_small:
  assumes "\<bar>m\<bar> < 2 ^ 53"
  shows "round53 m e = Finite m e"
proof -
  have "bit_length (nat \<bar>m\<bar>) \<le> 53"
    using assms by (intro bit_length_le) (simp add: nat_less_iff)
  then have k: "bit_length (nat \<bar>m\<bar>) - 53 = 0" by simp
  have "sgn m * \<bar>m\<bar> = m" by (rule sgn_mult_abs)
  then show ?thesis by (simp add: round53_def Let_def k)
qed

lemma cdiv_pos_nonneg: "0 \<le> m \<Longrightarrow> 0 < d \<Longrightarrow> 0 \<le> cdiv m d"
  by (simp add: cdiv_nonneg pos_imp_zdiv_nonneg_iff)

lemma addTime_whole:
  assumes "\<bar>n * 1000000\<bar> < 2 ^ 53" "\<bar>microSecondsSinceEpoch t + n * 1000000\<bar> < 2 ^ 63"
  shows "addTime t (Finite n 0) = Inr (Timestamp (microSecondsSinceEpoch t + n * 1000000))"
proof -
  have "int64 (n * 1000000) = Inr (n * 1000000)"
    "int64 (microSecondsSinceEpoch t + n * 1000000) = Inr (microSecondsSinceEpoch t + n * 1000000)"
    using assms by (auto simp: int64_Inr abs_less_iff)
  then show ?thesis
    using assms(1) by (simp add: addTime_def kMicroSecondsPerSecond_def round53_small)
qed

lemma addTime_ge:
  assumes "addTime t d = Inr t'" "double_positive d"
  shows "t \<le> t'"
proof (cases d)
  case (Finite m e)
  with assms(2) have m: "m > 0" by simp
  obtain q k where qk: "double_mult d kMicroSecondsPerSecond = Finite q k" "q \<ge> 0"
    using Finite m
    by (auto simp: round53_def Let_def kMicroSecondsPerSecond_def sgn_if pos_imp_zdiv_nonneg_iff)
  then have "(if k \<ge> 0 then q * 2 ^ nat k else cdiv q (2 ^ nat (- k))) \<ge> 0"
    by (simp add: cdiv_pos_nonneg)
  with assms(1) qk show ?thesis
    by (auto simp: addTime_def rbind_eq_Inr int64_Inr less_eq_Timestamp_def split: if_splits)
qed (use assms in \<open>auto simp: addTime_def\<close>)

subsection \<open>Printing\<close>

lemma dec_val_pad0: "dec_val (replicate k (CHR ''0'') @ s) = dec_val s"
  by (induction k) (simp_all add: dec_val_def digit_val_def)

lemma nat_dec_digits: "set (nat_dec n) \<subseteq> digit_char ` {..<10}"
proof (induction n rule: nat_dec.induct)
  case (1 n)
  show ?case
  proof (cases "n < 10")
    case True
    then show ?thesis by (subst nat_dec.simps) auto
  next
    case False
    with 1 show ?thesis by (subst nat_dec.simps) auto
  qed
qed

lemma digit_char_not_dot: "d < 10 \<Longrightarrow> digit_char d \<noteq> CHR ''.''"
proof
  assume "d < 10" "digit_char d = CHR ''.''"
  then have "digit_val (CHR ''.'') = d" by (metis digit_val_char)
  then have "d = 0" by (simp add: digit_val_def)
  with \<open>digit_char d = CHR ''.''\<close> show False by simp
qed

lemma int_dec_no_dot: "CHR ''.'' \<notin> set (int_dec i)"
proof -
  have "CHR ''.'' \<notin> set (nat_dec n)" for n
    using nat_dec_digits [of n] digit_char_not_dot by fastforce
  then show ?thesis by (simp add: int_dec_def)
qed

lemma int_val_no_minus:
  assumes "s \<noteq> []" "hd s \<noteq> CHR ''-''"
  shows "int_val s = int (dec_val s)"
  using assms by (cases s) (simp_all add: int_val_def)

lemma int_val_int_dec0: "int_val (int_dec0 k i) = i"
proof (cases "i < 0")
  case True
  then show ?thesis by (simp add: int_dec0_def int_val_def dec_val_pad0)
next
  case False
  obtain d cs where d: "nat_dec (nat i) = digit_char d # cs" "d < 10"
    using nat_dec_hd by blast
  let ?s = "replicate (k - length (nat_dec (nat i))) (CHR ''0'') @ nat_dec (nat i)"
  have "?s \<noteq> []" "hd ?s \<noteq> CHR ''-''"
    using d digit_char_not_minus by (auto simp: hd_append)
  then have "int_val ?s = int (dec_val ?s)" by (rule int_val_no_minus)
  then show ?thesis using False by (simp add: int_dec0_def dec_val_pad0)
qed

lemma length_int_dec_le:
  assumes "\<bar>i\<bar> < 10 ^ k" "0 < k"
  shows "length (int_dec i) \<le> Suc k"
proof -
  have "nat i < 10 ^ k" "nat (- i) < 10 ^ k"
    using assms(1) by (auto simp: nat_less_iff)
  then show ?thesis
    using length_nat_dec [of "nat i" k] length_nat_dec [of "nat (- i)" k] assms(2)
    by (auto simp: int_dec_def)
qed

lemma length_int_dec0_le:
  assumes "\<bar>i\<bar> < 10 ^ k" "0 < k"
  shows "length (int_dec0 k i) \<le> Suc k"
proof -
  have "nat i < 10 ^ k" "nat (- i) < 10 ^ k"
    using assms(1) by (auto simp: nat_less_iff)
  then show ?thesis
    using length_nat_dec [of "nat i" k] length_nat_dec [of "nat (- i)" k] assms(2)
    by (auto simp: int_dec0_def)
qed

lemma cdiv_crem_abs:
  assumes "0 < d"
  shows "\<bar>cdiv a d\<bar> = \<bar>a\<bar> div d" "\<bar>crem a d\<bar> = \<bar>a\<bar> mod d"
proof -
  have *: "cdiv a d = sgn a * (\<bar>a\<bar> div d)" using assms by (simp add: cdiv_def)
  then show "\<bar>cdiv a d\<bar> = \<bar>a\<bar> div d"
    using assms by (cases "a = 0") (simp_all add: abs_mult abs_sgn_eq pos_imp_zdiv_nonneg_iff)
  have "crem a d = sgn a * (\<bar>a\<bar> - d * (\<bar>a\<bar> div d))"
    using * sgn_mult_abs [of a] by (simp only: crem_def right_diff_distrib mult.left_commute)
  then show "\<bar>crem a d\<bar> = \<bar>a\<bar> mod d"
    using assms by (cases "a = 0") (simp_all add: minus_mult_div_eq_mod abs_mult abs_sgn_eq)
qed

definition split_dot :: "string \<Rightarrow> string \<times> string" where
  "split_dot s = (takeWhile (\<lambda>c. c \<noteq> CHR ''.'') s, drop 1 (dropWhile (\<lambda>c. c \<noteq> CHR ''.'') s))"

lemma split_dot_append: "CHR ''.'' \<notin> set a \<Longrightarrow> split_dot (a @ CHR ''.'' # b) = (a, b)"
  by (induction a) (auto simp: split_dot_def)

section \<open>CircularBuffer\<close>

definition CircularBuffer_next :: "size_t \<Rightarrow> size_t \<Rightarrow> size_t" where
  "CircularBuffer_next capacity index = sz_add index 1 mod capacity"

definition CircularBuffer_prev :: "size_t \<Rightarrow> size_t \<Rightarrow> size_t" where
  "CircularBuffer_prev capacity index = sz_add (sz_sub index 1) capacity mod capacity"

section \<open>Properties\<close>

text \<open>\<open>toString\<close> never truncates and loses no information: for every \<open>int64_t\<close> the text
  splits at the point into two decimals, seconds and microseconds, that give the value back.\<close>

lemma Timestamp_toString_roundtrip:
  assumes "- (2 ^ 63) \<le> us" "us < 2 ^ 63"
  shows "case split_dot (Timestamp_toString (Timestamp us)) of
    (s, m) \<Rightarrow> int_val s * kMicroSecondsPerSecond + int_val m = us"
proof -
  let ?q = "cdiv us 1000000" let ?r = "crem us 1000000"
  have "\<bar>?q\<bar> < 10 ^ 13" "\<bar>?r\<bar> < 10 ^ 6"
    using assms cdiv_crem_abs [of 1000000 us] by auto
  then have "length (int_dec ?q @ ''.'' @ int_dec0 6 ?r) \<le> 31"
    using length_int_dec_le [of ?q 13] length_int_dec0_le [of ?r 6] by simp
  then have "Timestamp_toString (Timestamp us) = int_dec ?q @ CHR ''.'' # int_dec0 6 ?r"
    by (simp add: Timestamp_toString_def snprintf_trunc_def kMicroSecondsPerSecond_def)
  then show ?thesis
    by (simp add: split_dot_append int_dec_no_dot int_val_int_dec int_val_int_dec0 crem_def
        kMicroSecondsPerSecond_def)
qed

text \<open>The index steps of the circular buffer are inverse to each other and stay inside the
  capacity, the wrap at both ends included (\<open>index - 1\<close> wraps below zero and back).\<close>

lemma CircularBuffer_next_prev:
  assumes "index < capacity" "capacity \<le> 2 ^ 63"
  shows "CircularBuffer_prev capacity (CircularBuffer_next capacity index) = index \<and>
    CircularBuffer_next capacity (CircularBuffer_prev capacity index) = index \<and>
    CircularBuffer_next capacity index < capacity \<and> CircularBuffer_prev capacity index < capacity"
proof -
  have nxt: "CircularBuffer_next capacity i = (if Suc i = capacity then 0 else Suc i)"
    if "i < capacity" for i
    using that assms by (auto simp: CircularBuffer_next_def sz_add_def)
  have prv: "CircularBuffer_prev capacity i = (if i = 0 then capacity - 1 else i - 1)"
    if "i < capacity" for i
  proof (cases "i = 0")
    case True
    obtain c where c: "capacity = Suc c" using assms(1) by (cases capacity) auto
    have m1: "sz_sub 0 1 = 18446744073709551615" by (simp add: sz_sub_def)
    have "(2::nat) ^ 64 = 18446744073709551616" by simp
    then have p: "(18446744073709551615::nat) + Suc c = c + 2 ^ 64" by linarith
    have "c < 2 ^ 64" using assms(2) c by simp
    then have "sz_add (sz_sub 0 1) capacity = c"
      by (simp only: sz_add_def m1 c p mod_add_self2 mod_less)
    then have "sz_add (sz_sub 0 1) capacity = capacity - 1" using c by simp
    then show ?thesis using True that by (simp add: CircularBuffer_prev_def)
  next
    case False
    then have "sz_add (sz_sub i 1) capacity = i - 1 + capacity"
      using that assms(2) by (simp add: size_simps)
    then have "CircularBuffer_prev capacity i = (i - 1 + capacity) mod capacity"
      by (simp only: CircularBuffer_prev_def)
    also have "\<dots> = i - 1" using False that by (simp only: mod_add_self2) simp
    finally show ?thesis using False by simp
  qed
  show ?thesis using assms(1) by (auto simp: nxt prv)
qed

end
