(* ===== verification/Net_Timer.thy ===== *)
theory Net_Timer
  imports Base_Timestamp "HOL-Library.Product_Lexorder"
begin

text \<open>
  \<open>src/net/Timer\<close>, \<open>TimerId\<close> and \<open>TimerQueue\<close>. Timers live on a heap, since the queue handles raw
  pointers that it deletes itself: dereferencing a freed one is the failure \<open>UseAfterFree\<close>. A
  \<open>std::set\<close> is a set whose iteration order is that of its elements; \<open>begin()\<close> is its minimum. What a
  callback does to the queue is an argument: the list of its calls. The allocator and the clock are
  arguments too.
\<close>

section \<open>Timer\<close>

type_synonym timer_ptr = nat
type_synonym TimerId = "timer_ptr \<times> int"

record Timer =
  callback_id :: nat
  expiration :: Timestamp
  interval :: double
  repeat :: bool
  sequence :: int

definition Timer_new :: "nat \<Rightarrow> Timestamp \<Rightarrow> double \<Rightarrow> int \<Rightarrow> Timer" where
  "Timer_new cb when ival seq =
     \<lparr>callback_id = cb, expiration = when, interval = ival, repeat = double_positive ival, sequence = seq\<rparr>"

definition Timer_restart :: "Timestamp \<Rightarrow> Timer \<Rightarrow> Timer result" where
  "Timer_restart now t =
     (if repeat t then rbind (addTime now (interval t)) (\<lambda>e. Inr (t\<lparr>expiration := e\<rparr>))
      else Inr (t\<lparr>expiration := Timestamp_invalid\<rparr>))"

definition TimerId_default :: TimerId where "TimerId_default = (0, 0)"

section \<open>TimerQueue\<close>

datatype tq_functor = AddTimerInLoopFn timer_ptr | CancelInLoopFn TimerId

text \<open>
  \<open>timerfd_fires\<close> is the time, in the clock's microseconds, at which the timer descriptor becomes
  readable; \<open>ran\<close> records the callbacks that were run.
\<close>

record TimerQueue =
  heap :: "timer_ptr \<rightharpoonup> Timer"
  timers :: "(Timestamp \<times> timer_ptr) set"
  activeTimers :: "(timer_ptr \<times> int) set"
  cancelingTimers :: "(timer_ptr \<times> int) set"
  callingExpiredTimers :: bool
  timerfd_fires :: "int option"
  queued :: "tq_functor list"
  ran :: "nat list"
  s_numCreated :: int

definition TimerQueue_new :: TimerQueue where
  "TimerQueue_new =
     \<lparr>heap = Map.empty, timers = {}, activeTimers = {}, cancelingTimers = {}, callingExpiredTimers = False,
      timerfd_fires = None, queued = [], ran = [], s_numCreated = 0\<rparr>"

text \<open>The seconds and nanoseconds from \<open>now\<close> to \<open>when\<close>, at least 100 microseconds.\<close>

definition howMuchTimeFromNow :: "Timestamp \<Rightarrow> Timestamp \<Rightarrow> (int \<times> int) result" where
  "howMuchTimeFromNow now when =
     rbind (int64 (microSecondsSinceEpoch when - microSecondsSinceEpoch now)) (\<lambda>us.
       let microseconds = (if us < 100 then 100 else us)
       in Inr (cdiv microseconds kMicroSecondsPerSecond, crem microseconds kMicroSecondsPerSecond * 1000))"

text \<open>\<open>timerfd_settime\<close> with a relative value. The value is positive and its nanoseconds are below a second, so
  the call is accepted.\<close>

definition resetTimerfd :: "Timestamp \<Rightarrow> Timestamp \<Rightarrow> TimerQueue \<Rightarrow> TimerQueue result" where
  "resetTimerfd now expir tq =
     rbind (howMuchTimeFromNow now expir) (\<lambda>(tv_sec, tv_nsec).
       Inr (tq\<lparr>timerfd_fires := Some (microSecondsSinceEpoch now + tv_sec * 1000000 + tv_nsec div 1000)\<rparr>))"

text \<open>
  \<open>n\<close> is what \<open>read\<close> answers. Eight bytes mean that the descriptor had expired; its timer has no interval, so
  it is idle then. Any other answer is only logged.
\<close>

definition readTimerfd :: "int \<Rightarrow> TimerQueue \<Rightarrow> TimerQueue" where
  "readTimerfd n tq = (if n = 8 then tq\<lparr>timerfd_fires := None\<rparr> else tq)"

definition deref :: "timer_ptr \<Rightarrow> TimerQueue \<Rightarrow> Timer result" where
  "deref p tq = (case heap tq p of None \<Rightarrow> Inl UseAfterFree | Some t \<Rightarrow> Inr t)"

definition tq_insert :: "timer_ptr \<Rightarrow> TimerQueue \<Rightarrow> (bool \<times> TimerQueue) result" where
  "tq_insert p tq =
     rbind (deref p tq) (\<lambda>t.
       let when = expiration t;
           earliestChanged = (timers tq = {} \<or> when < fst (Min (timers tq)))
       in Inr (earliestChanged,
            tq\<lparr>timers := insert (when, p) (timers tq),
               activeTimers := insert (p, sequence t) (activeTimers tq)\<rparr>))"

definition addTimerInLoop :: "Timestamp \<Rightarrow> timer_ptr \<Rightarrow> TimerQueue \<Rightarrow> TimerQueue result" where
  "addTimerInLoop now p tq =
     rbind (tq_insert p tq) (\<lambda>(earliestChanged, tq1).
       if earliestChanged then rbind (deref p tq1) (\<lambda>t. resetTimerfd now (expiration t) tq1) else Inr tq1)"

definition cancelInLoop :: "TimerId \<Rightarrow> TimerQueue \<Rightarrow> TimerQueue result" where
  "cancelInLoop tid tq =
     (if tid \<in> activeTimers tq
      then rbind (deref (fst tid) tq) (\<lambda>t.
             Inr (tq\<lparr>timers := timers tq - {(expiration t, fst tid)},
                     heap := (heap tq)(fst tid := None),
                     activeTimers := activeTimers tq - {tid}\<rparr>))
      else if callingExpiredTimers tq
      then Inr (tq\<lparr>cancelingTimers := insert tid (cancelingTimers tq)\<rparr>)
      else Inr tq)"

text \<open>
  \<open>addTimer\<close> and \<open>cancel\<close> go through \<open>runInLoop\<close>: at once in the loop's thread, queued otherwise. \<open>addTimer\<close> reads the
  sequence number from the timer again when \<open>runInLoop\<close> has returned; in another thread than the loop's
  the loop may run in between, so the two halves are definitions of their own.
\<close>

definition addTimer_begin ::
  "((timer_ptr \<rightharpoonup> Timer) \<Rightarrow> timer_ptr option) \<Rightarrow> bool \<Rightarrow> Timestamp \<Rightarrow> nat \<Rightarrow> Timestamp \<Rightarrow> double \<Rightarrow> TimerQueue
    \<Rightarrow> (timer_ptr \<times> TimerQueue) result" where
  "addTimer_begin malloc inLoopThread now cb when ival tq =
     (case malloc (heap tq) of
        None \<Rightarrow> Inl BadAlloc
      | Some p \<Rightarrow>
          rbind (int64 (s_numCreated tq + 1)) (\<lambda>seq.
            let tq1 = tq\<lparr>heap := (heap tq)(p \<mapsto> Timer_new cb when ival seq), s_numCreated := seq\<rparr>
            in if inLoopThread then rbind (addTimerInLoop now p tq1) (\<lambda>tq2. Inr (p, tq2))
               else Inr (p, tq1\<lparr>queued := queued tq @ [AddTimerInLoopFn p]\<rparr>)))"

definition addTimer_return :: "timer_ptr \<Rightarrow> TimerQueue \<Rightarrow> TimerId result" where
  "addTimer_return p tq = rbind (deref p tq) (\<lambda>t. Inr (p, sequence t))"

definition addTimer ::
  "((timer_ptr \<rightharpoonup> Timer) \<Rightarrow> timer_ptr option) \<Rightarrow> bool \<Rightarrow> Timestamp \<Rightarrow> nat \<Rightarrow> Timestamp \<Rightarrow> double \<Rightarrow> TimerQueue
    \<Rightarrow> (TimerId \<times> TimerQueue) result" where
  "addTimer malloc inLoopThread now cb when ival tq =
     rbind (addTimer_begin malloc inLoopThread now cb when ival tq) (\<lambda>(p, tq1).
     rbind (addTimer_return p tq1) (\<lambda>tid. Inr (tid, tq1)))"

definition tq_cancel :: "bool \<Rightarrow> TimerId \<Rightarrow> TimerQueue \<Rightarrow> TimerQueue result" where
  "tq_cancel inLoopThread tid tq =
     (if inLoopThread then cancelInLoop tid tq
      else Inr (tq\<lparr>queued := queued tq @ [CancelInLoopFn tid]\<rparr>))"

text \<open>\<open>getExpired\<close>: everything below the sentry \<open>(now, UINTPTR_MAX)\<close>.\<close>

definition UINTPTR_MAX :: timer_ptr where "UINTPTR_MAX = 2 ^ 64 - 1"

fun erase_active :: "(Timestamp \<times> timer_ptr) list \<Rightarrow> TimerQueue \<Rightarrow> TimerQueue result" where
  "erase_active [] tq = Inr tq"
| "erase_active (it # its) tq =
     rbind (deref (snd it) tq) (\<lambda>t.
       erase_active its (tq\<lparr>activeTimers := activeTimers tq - {(snd it, sequence t)}\<rparr>))"

definition getExpired :: "Timestamp \<Rightarrow> TimerQueue \<Rightarrow> ((Timestamp \<times> timer_ptr) list \<times> TimerQueue) result" where
  "getExpired now tq =
     (let expired = sorted_list_of_set {e \<in> timers tq. e < (now, UINTPTR_MAX)};
          tq1 = tq\<lparr>timers := timers tq - set expired\<rparr>
      in rbind (erase_active expired tq1) (\<lambda>tq2. Inr (expired, tq2)))"

fun reset_loop :: "(Timestamp \<times> timer_ptr) list \<Rightarrow> Timestamp \<Rightarrow> TimerQueue \<Rightarrow> TimerQueue result" where
  "reset_loop [] now tq = Inr tq"
| "reset_loop (it # its) now tq =
     rbind (deref (snd it) tq) (\<lambda>t.
       if repeat t \<and> (snd it, sequence t) \<notin> cancelingTimers tq
       then rbind (Timer_restart now t) (\<lambda>t'.
            rbind (tq_insert (snd it) (tq\<lparr>heap := (heap tq)(snd it \<mapsto> t')\<rparr>)) (\<lambda>(_, tq1).
              reset_loop its now tq1))
       else reset_loop its now (tq\<lparr>heap := (heap tq)(snd it := None)\<rparr>))"

definition tq_reset :: "(Timestamp \<times> timer_ptr) list \<Rightarrow> Timestamp \<Rightarrow> Timestamp \<Rightarrow> TimerQueue \<Rightarrow> TimerQueue result" where
  "tq_reset expired now later tq =
     rbind (reset_loop expired now tq) (\<lambda>tq1.
     rbind (if timers tq1 = {} then Inr Timestamp_default
            else rbind (deref (snd (Min (timers tq1))) tq1) (\<lambda>t. Inr (expiration t))) (\<lambda>nextExpire.
       if Timestamp_valid nextExpire then resetTimerfd later nextExpire tq1 else Inr tq1))"

text \<open>What a callback may do to the queue; it runs in the loop's thread.\<close>

datatype timer_call = CallAdd nat Timestamp double | CallCancel TimerId

fun timer_calls ::
  "((timer_ptr \<rightharpoonup> Timer) \<Rightarrow> timer_ptr option) \<Rightarrow> (int \<Rightarrow> Timestamp) \<Rightarrow> timer_call list \<Rightarrow> TimerQueue \<Rightarrow> TimerQueue result" where
  "timer_calls malloc later [] tq = Inr tq"
| "timer_calls malloc later (CallAdd cb when ival # cs) tq =
     rbind (addTimer malloc True (later (s_numCreated tq)) cb when ival tq) (\<lambda>(_, tq1). timer_calls malloc later cs tq1)"
| "timer_calls malloc later (CallCancel tid # cs) tq =
     rbind (tq_cancel True tid tq) (timer_calls malloc later cs)"

fun run_expired ::
  "((timer_ptr \<rightharpoonup> Timer) \<Rightarrow> timer_ptr option) \<Rightarrow> (nat \<Rightarrow> timer_call list) \<Rightarrow> (int \<Rightarrow> Timestamp)
    \<Rightarrow> (Timestamp \<times> timer_ptr) list \<Rightarrow> TimerQueue \<Rightarrow> TimerQueue result" where
  "run_expired malloc cbs later [] tq = Inr tq"
| "run_expired malloc cbs later (it # its) tq =
     rbind (deref (snd it) tq) (\<lambda>t.
     rbind (timer_calls malloc later (cbs (callback_id t)) (tq\<lparr>ran := ran tq @ [callback_id t]\<rparr>))
       (run_expired malloc cbs later its))"

text \<open>
  \<open>now\<close> is the clock at the start, \<open>after\<close> in \<open>reset\<close>. A callback that adds a timer reads the clock again, each time: \<open>later k\<close>
  is that reading when \<open>k\<close> timers have been created so far.
\<close>

definition tq_handleRead ::
  "((timer_ptr \<rightharpoonup> Timer) \<Rightarrow> timer_ptr option) \<Rightarrow> (nat \<Rightarrow> timer_call list) \<Rightarrow> int \<Rightarrow> Timestamp \<Rightarrow> (int \<Rightarrow> Timestamp)
    \<Rightarrow> Timestamp \<Rightarrow> TimerQueue \<Rightarrow> TimerQueue result" where
  "tq_handleRead malloc cbs n now later after tq =
     rbind (getExpired now (readTimerfd n tq)) (\<lambda>(expired, tq1).
     rbind (run_expired malloc cbs later expired (tq1\<lparr>callingExpiredTimers := True, cancelingTimers := {}\<rparr>)) (\<lambda>tq2.
       tq_reset expired now after (tq2\<lparr>callingExpiredTimers := False\<rparr>)))"

text \<open>The destructor deletes what is still in the queue.\<close>

definition TimerQueue_delete :: "TimerQueue \<Rightarrow> TimerQueue" where
  "TimerQueue_delete tq = tq\<lparr>heap := (heap tq) |` (- (snd ` timers tq))\<rparr>"

section \<open>The invariant\<close>

text \<open>
  Pointers in flight: expired timers whose callbacks run (\<open>F\<close>), and timers created by another thread
  whose insertion is queued. The heap holds exactly the timers in the queue and those in flight, each
  once; \<open>activeTimers_\<close> mirrors \<open>timers_\<close>.
\<close>

fun added :: "tq_functor list \<Rightarrow> timer_ptr list" where
  "added [] = []"
| "added (AddTimerInLoopFn p # fs) = p # added fs"
| "added (CancelInLoopFn t # fs) = added fs"

definition tq_inv :: "timer_ptr list \<Rightarrow> TimerQueue \<Rightarrow> bool" where
  "tq_inv F tq \<longleftrightarrow>
     finite (timers tq) \<and> distinct (F @ added (queued tq)) \<and>
     dom (heap tq) = snd ` timers tq \<union> set F \<union> set (added (queued tq)) \<and>
     snd ` timers tq \<inter> (set F \<union> set (added (queued tq))) = {} \<and>
     (\<forall>w p. (w, p) \<in> timers tq \<longrightarrow> (\<exists>t. heap tq p = Some t \<and> expiration t = w)) \<and>
     (\<forall>p s. (p, s) \<in> activeTimers tq \<longleftrightarrow> p \<in> snd ` timers tq \<and> (\<exists>t. heap tq p = Some t \<and> sequence t = s)) \<and>
     (\<forall>p\<in>dom (heap tq). p < UINTPTR_MAX) \<and>
     (\<forall>p t. heap tq p = Some t \<longrightarrow> sequence t \<le> s_numCreated tq)"

text \<open>What the allocator owes: an address that is not in use, below the largest one.\<close>

definition malloc_spec :: "((timer_ptr \<rightharpoonup> Timer) \<Rightarrow> timer_ptr option) \<Rightarrow> bool" where
  "malloc_spec malloc \<longleftrightarrow> (\<forall>h p. malloc h = Some p \<longrightarrow> h p = None \<and> p < UINTPTR_MAX)"

abbreviation tolerable :: "fault set" where
  "tolerable \<equiv> {Overflow, BadAlloc}"

lemma added_append [simp]: "added (xs @ ys) = added xs @ added ys"
  by (induction xs rule: added.induct) auto

lemma ends_int64: "ends tolerable (\<lambda>j. j = i) (int64 i)"
  by (simp add: int64_def)

lemma ends_addTime: "ends tolerable (\<lambda>_. True) (addTime now d)"
proof -
  have conv: "ends tolerable (\<lambda>_. True) (double_to_int64 x)" for x
    by (cases x) (simp_all add: int64_def)
  have add: "ends tolerable (\<lambda>_. True) (rbind (int64 (microSecondsSinceEpoch now + k)) (\<lambda>us. Inr (Timestamp us)))"
    for k
    by (rule ends_rbind [OF ends_int64]) simp
  show ?thesis
    unfolding addTime_def by (rule ends_rbind [OF conv]) (rule add)
qed

lemma ends_resetTimerfd:
  "ends tolerable (\<lambda>tq'. \<exists>f. tq' = tq\<lparr>timerfd_fires := Some f\<rparr>) (resetTimerfd now expir tq)"
  unfolding resetTimerfd_def howMuchTimeFromNow_def
  by (cases "int64 (microSecondsSinceEpoch expir - microSecondsSinceEpoch now)")
    (auto simp: int64_def split: if_splits)

lemma tq_inv_fires [simp]:
  "tq_inv F (tq\<lparr>timerfd_fires := f\<rparr>) = tq_inv F tq"
  "tq_inv F (tq\<lparr>ran := r\<rparr>) = tq_inv F tq"
  "tq_inv F (tq\<lparr>callingExpiredTimers := b\<rparr>) = tq_inv F tq"
  "tq_inv F (tq\<lparr>cancelingTimers := c\<rparr>) = tq_inv F tq"
  by (simp_all add: tq_inv_def)

lemma readTimerfd_simps [simp]:
  "tq_inv F (readTimerfd n tq) = tq_inv F tq" "heap (readTimerfd n tq) = heap tq"
  "timers (readTimerfd n tq) = timers tq" "ran (readTimerfd n tq) = ran tq"
  "queued (readTimerfd n tq) = queued tq"
  by (simp_all add: readTimerfd_def)

lemma tq_invD:
  assumes "tq_inv F tq"
  shows "finite (timers tq)" "distinct (F @ added (queued tq))"
    "dom (heap tq) = snd ` timers tq \<union> set F \<union> set (added (queued tq))"
    "snd ` timers tq \<inter> (set F \<union> set (added (queued tq))) = {}"
    "(w, p) \<in> timers tq \<Longrightarrow> \<exists>t. heap tq p = Some t \<and> expiration t = w"
    "(p, s) \<in> activeTimers tq \<longleftrightarrow> p \<in> snd ` timers tq \<and> (\<exists>t. heap tq p = Some t \<and> sequence t = s)"
    "p \<in> dom (heap tq) \<Longrightarrow> p < UINTPTR_MAX"
    "heap tq p = Some t \<Longrightarrow> sequence t \<le> s_numCreated tq"
  using assms by (simp_all add: tq_inv_def)

lemma tq_invI:
  assumes "finite (timers tq)" "distinct (F @ added (queued tq))"
    "dom (heap tq) = snd ` timers tq \<union> set F \<union> set (added (queued tq))"
    "snd ` timers tq \<inter> (set F \<union> set (added (queued tq))) = {}"
    "\<And>w p. (w, p) \<in> timers tq \<Longrightarrow> \<exists>t. heap tq p = Some t \<and> expiration t = w"
    "\<And>p s. (p, s) \<in> activeTimers tq \<longleftrightarrow> p \<in> snd ` timers tq \<and> (\<exists>t. heap tq p = Some t \<and> sequence t = s)"
    "\<And>p. p \<in> dom (heap tq) \<Longrightarrow> p < UINTPTR_MAX"
    "\<And>p t. heap tq p = Some t \<Longrightarrow> sequence t \<le> s_numCreated tq"
  shows "tq_inv F tq"
  using assms by (simp add: tq_inv_def)

lemma tq_inv_perm:
  assumes "tq_inv F tq" "distinct G" "set G = set F"
  shows "tq_inv G tq"
  using assms by (auto simp: tq_inv_def)

lemma in_flight_deref:
  assumes "tq_inv F tq" "p \<in> set F"
  obtains t where "heap tq p = Some t" "deref p tq = Inr t"
proof -
  have "p \<in> dom (heap tq)" using assms by (auto simp: tq_inv_def)
  then show ?thesis using that by (auto simp: deref_def)
qed

lemma tq_insert_ok:
  assumes "tq_inv (p # F) tq"
  shows "\<exists>t. heap tq p = Some t \<and> tq_insert p tq =
      Inr (timers tq = {} \<or> expiration t < fst (Min (timers tq)),
        tq\<lparr>timers := insert (expiration t, p) (timers tq), activeTimers := insert (p, sequence t) (activeTimers tq)\<rparr>) \<and>
    tq_inv F (tq\<lparr>timers := insert (expiration t, p) (timers tq), activeTimers := insert (p, sequence t) (activeTimers tq)\<rparr>)"
proof -
  obtain t where t: "heap tq p = Some t" "deref p tq = Inr t"
    using in_flight_deref [OF assms, of p] by auto
  have "tq_inv F (tq\<lparr>timers := insert (expiration t, p) (timers tq),
      activeTimers := insert (p, sequence t) (activeTimers tq)\<rparr>)"
    using assms t(1) unfolding tq_inv_def by auto
  then show ?thesis using t by (auto simp: tq_insert_def Let_def)
qed

lemma addTimerInLoop_frame:
  assumes "addTimerInLoop now p tq = Inr tq'"
  shows "heap tq' = heap tq \<and> ran tq' = ran tq \<and> callingExpiredTimers tq' = callingExpiredTimers tq \<and>
    cancelingTimers tq' = cancelingTimers tq"
  using assms
  by (auto simp: addTimerInLoop_def tq_insert_def resetTimerfd_def rbind_eq_Inr Let_def split: if_splits)

text \<open>Not interrupted, \<open>addTimer\<close> returns the number it gave to the timer.\<close>

lemma addTimer_eq:
  "addTimer malloc inLoopThread now cb when ival tq =
     (case malloc (heap tq) of
        None \<Rightarrow> Inl BadAlloc
      | Some p \<Rightarrow>
          rbind (int64 (s_numCreated tq + 1)) (\<lambda>seq.
            let tq1 = tq\<lparr>heap := (heap tq)(p \<mapsto> Timer_new cb when ival seq), s_numCreated := seq\<rparr>
            in if inLoopThread then rbind (addTimerInLoop now p tq1) (\<lambda>tq2. Inr ((p, seq), tq2))
               else Inr ((p, seq), tq1\<lparr>queued := queued tq @ [AddTimerInLoopFn p]\<rparr>)))"
proof -
  have "rbind (rbind (addTimerInLoop now p tq1) (\<lambda>tq2. Inr (p, tq2))) (\<lambda>(p, tq1).
        rbind (addTimer_return p tq1) (\<lambda>tid. Inr (tid, tq1))) =
      rbind (addTimerInLoop now p tq1) (\<lambda>tq2. Inr ((p, seq), tq2))"
    if "heap tq1 p = Some t" "sequence t = seq" for p seq t and tq1 :: TimerQueue
    using that by (cases "addTimerInLoop now p tq1")
      (auto dest: addTimerInLoop_frame simp: addTimer_return_def deref_def)
  then show ?thesis
    by (auto simp: addTimer_def addTimer_begin_def addTimer_return_def deref_def Timer_new_def int64_def Let_def
        split: option.splits)
qed

lemma addTimerInLoop_ends:
  assumes "tq_inv (p # F) tq"
  shows "ends tolerable (\<lambda>tq'. tq_inv F tq' \<and> queued tq' = queued tq) (addTimerInLoop now p tq)"
proof -
  obtain t e tq1 where t: "heap tq p = Some t" "tq_insert p tq = Inr (e, tq1)" "tq_inv F tq1"
      "tq1 = tq\<lparr>timers := insert (expiration t, p) (timers tq), activeTimers := insert (p, sequence t) (activeTimers tq)\<rparr>"
    using tq_insert_ok [OF assms] by auto
  then have "deref p tq1 = Inr t" by (simp add: deref_def)
  moreover have "ends tolerable (\<lambda>tq'. tq_inv F tq' \<and> queued tq' = queued tq) (resetTimerfd now (expiration t) tq1)"
    by (rule ends_mono [OF ends_resetTimerfd]) (use t(3,4) in auto)
  ultimately show ?thesis using t by (simp add: addTimerInLoop_def)
qed

lemma cancelInLoop_ends:
  assumes inv: "tq_inv F tq"
  shows "ends tolerable (\<lambda>tq'. tq_inv F tq' \<and> queued tq' = queued tq) (cancelInLoop tid tq)"
proof (cases "tid \<in> activeTimers tq")
  case True
  note D = tq_invD [OF inv]
  obtain p s where tid: "tid = (p, s)" by (cases tid)
  have "p \<in> snd ` timers tq" "\<exists>t. heap tq p = Some t \<and> sequence t = s"
    using inv True tid by (auto simp: tq_inv_def)
  then obtain t where t: "heap tq p = Some t" "(expiration t, p) \<in> timers tq" "sequence t = s"
    using inv by (fastforce simp: tq_inv_def)
  let ?tq = "tq\<lparr>timers := timers tq - {(expiration t, p)}, heap := (heap tq)(p := None),
      activeTimers := activeTimers tq - {(p, s)}\<rparr>"
  have keys: "snd ` (timers tq - {(expiration t, p)}) = snd ` timers tq - {p}"
    using D(5) t(1) by fastforce
  have "p \<in> snd ` timers tq" using t(2) by force
  then have "p \<notin> set F \<union> set (added (queued tq))" using D(4) by blast
  have "tq_inv F ?tq"
  proof (rule tq_invI)
    show "finite (timers ?tq)" "distinct (F @ added (queued ?tq))" using D(1,2) by simp_all
    show "dom (heap ?tq) = snd ` timers ?tq \<union> set F \<union> set (added (queued ?tq))"
      using D(3) keys \<open>p \<notin> set F \<union> set (added (queued tq))\<close> by auto
    show "snd ` timers ?tq \<inter> (set F \<union> set (added (queued ?tq))) = {}" using D(4) keys by auto
    show "\<exists>u. heap ?tq q = Some u \<and> expiration u = w" if "(w, q) \<in> timers ?tq" for w q
      using D(5) [of w q] that t(1) by (cases "q = p") auto
    show "(q, r) \<in> activeTimers ?tq \<longleftrightarrow> q \<in> snd ` timers ?tq \<and> (\<exists>u. heap ?tq q = Some u \<and> sequence u = r)"
      for q r
      using D(6) [of q r] keys t by (cases "q = p") simp_all
    show "q < UINTPTR_MAX" if "q \<in> dom (heap ?tq)" for q using D(7) that by simp
    show "sequence u \<le> s_numCreated ?tq" if "heap ?tq q = Some u" for q u
      using D(8) that by (simp split: if_splits)
  qed
  moreover have "cancelInLoop tid tq = Inr ?tq" using True tid t(1) by (simp add: cancelInLoop_def deref_def)
  ultimately show ?thesis by simp
qed (use inv in \<open>simp add: cancelInLoop_def\<close>)

text \<open>The changes of the heap under pointers in flight.\<close>

lemma flight_new:
  assumes inv: "tq_inv F tq" and p: "heap tq p = None" "p < UINTPTR_MAX" and seq: "sequence t = s_numCreated tq + 1"
  shows "tq_inv (p # F) (tq\<lparr>heap := (heap tq)(p \<mapsto> t), s_numCreated := s_numCreated tq + 1\<rparr>)" (is "tq_inv _ ?tq")
proof -
  note D = tq_invD [OF inv]
  have pn: "p \<notin> snd ` timers tq" "p \<notin> set F" "p \<notin> set (added (queued tq))"
    using p(1) D(3) by (auto simp: domIff)
  show ?thesis
  proof (rule tq_invI)
    show "\<exists>u. heap ?tq q = Some u \<and> expiration u = w" if "(w, q) \<in> timers ?tq" for w q
      using D(5) [of w q] that pn by force
    show "(q, r) \<in> activeTimers ?tq \<longleftrightarrow> q \<in> snd ` timers ?tq \<and> (\<exists>u. heap ?tq q = Some u \<and> sequence u = r)"
      for q r
      using D(6) [of q r] pn by auto
    show "sequence u \<le> s_numCreated ?tq" if "heap ?tq q = Some u" for q u
      using D(8) [of q u] that seq by (auto split: if_splits)
    show "q < UINTPTR_MAX" if "q \<in> dom (heap ?tq)" for q using D(7) [of q] that p(2) by auto
  qed (use D(1-4) pn in auto)
qed

lemma flight_update:
  assumes inv: "tq_inv F tq" and p: "p \<in> set F" "heap tq p = Some t" and seq: "sequence t' = sequence t"
  shows "tq_inv F (tq\<lparr>heap := (heap tq)(p \<mapsto> t')\<rparr>)" (is "tq_inv _ ?tq")
proof -
  note D = tq_invD [OF inv]
  have pn: "p \<notin> snd ` timers tq" using p(1) D(4) by blast
  show ?thesis
  proof (rule tq_invI)
    show "\<exists>u. heap ?tq q = Some u \<and> expiration u = w" if "(w, q) \<in> timers ?tq" for w q
      using D(5) [of w q] that pn by force
    show "(q, r) \<in> activeTimers ?tq \<longleftrightarrow> q \<in> snd ` timers ?tq \<and> (\<exists>u. heap ?tq q = Some u \<and> sequence u = r)"
      for q r
      using D(6) [of q r] pn by auto
    show "sequence u \<le> s_numCreated ?tq" if "heap ?tq q = Some u" for q u
      using D(8) [of q] that seq p(2) by (auto split: if_splits)
    show "q < UINTPTR_MAX" if "q \<in> dom (heap ?tq)" for q using D(7) [of q] that p(2) by auto
    show "dom (heap ?tq) = snd ` timers ?tq \<union> set F \<union> set (added (queued ?tq))"
      using D(3) p(2) by auto
  qed (use D(1,2,4) in auto)
qed

lemma flight_delete:
  assumes inv: "tq_inv (p # F) tq"
  shows "tq_inv F (tq\<lparr>heap := (heap tq)(p := None)\<rparr>)" (is "tq_inv _ ?tq")
proof -
  note D = tq_invD [OF inv]
  have pn: "p \<notin> snd ` timers tq" "p \<notin> set F" "p \<notin> set (added (queued tq))"
    using D(2,4) by auto
  show ?thesis
  proof (rule tq_invI)
    show "dom (heap ?tq) = snd ` timers ?tq \<union> set F \<union> set (added (queued ?tq))"
      using D(3) pn by auto
    show "\<exists>u. heap ?tq q = Some u \<and> expiration u = w" if "(w, q) \<in> timers ?tq" for w q
      using D(5) [of w q] that pn by force
    show "(q, r) \<in> activeTimers ?tq \<longleftrightarrow> q \<in> snd ` timers ?tq \<and> (\<exists>u. heap ?tq q = Some u \<and> sequence u = r)"
      for q r
      using D(6) [of q r] pn by auto
    show "sequence u \<le> s_numCreated ?tq" if "heap ?tq q = Some u" for q u
      using D(8) [of q u] that by (auto split: if_splits)
    show "q < UINTPTR_MAX" if "q \<in> dom (heap ?tq)" for q using D(7) [of q] that by auto
  qed (use D(1,2,4) in auto)
qed

lemma flight_queue:
  "tq_inv (p # F) tq \<Longrightarrow> tq_inv F (tq\<lparr>queued := queued tq @ [AddTimerInLoopFn p]\<rparr>)"
  by (auto simp: tq_inv_def)

lemma flight_dequeue:
  assumes "tq_inv F tq" "queued tq = AddTimerInLoopFn p # fs"
  shows "tq_inv (p # F) (tq\<lparr>queued := fs\<rparr>)"
  using assms by (auto simp: tq_inv_def)

lemma queue_cancel:
  "tq_inv F (tq\<lparr>queued := queued tq @ [CancelInLoopFn tid]\<rparr>) = tq_inv F tq"
  "queued tq = CancelInLoopFn tid # fs \<Longrightarrow> tq_inv F (tq\<lparr>queued := fs\<rparr>) = tq_inv F tq"
  by (auto simp: tq_inv_def)

lemma addTimer_ends:
  assumes inv: "tq_inv F tq" and spec: "malloc_spec malloc"
  shows "ends tolerable (\<lambda>(_, tq'). tq_inv F tq') (addTimer malloc inLoopThread now cb when ival tq)"
proof (cases "malloc (heap tq)")
  case None
  then show ?thesis by (simp add: addTimer_eq)
next
  case (Some p)
  then have p: "heap tq p = None" "p < UINTPTR_MAX" using spec by (auto simp: malloc_spec_def)
  let ?tq1 = "\<lambda>seq. tq\<lparr>heap := (heap tq)(p \<mapsto> Timer_new cb when ival seq), s_numCreated := seq\<rparr>"
  have inv1: "tq_inv (p # F) (?tq1 (s_numCreated tq + 1))"
    by (rule flight_new [OF inv p]) (simp add: Timer_new_def)
  have "ends tolerable (\<lambda>(_, tq'). tq_inv F tq')
      (rbind (addTimerInLoop now p (?tq1 (s_numCreated tq + 1))) (\<lambda>tq2. Inr ((p, s_numCreated tq + 1), tq2)))"
    by (rule ends_rbind [OF addTimerInLoop_ends [OF inv1]]) simp
  with flight_queue [OF inv1] show ?thesis
    using Some by (auto simp: addTimer_eq int64_def Let_def)
qed

lemma tq_cancel_ends:
  assumes "tq_inv F tq"
  shows "ends tolerable (tq_inv F) (tq_cancel inLoopThread tid tq)"
  using assms cancelInLoop_ends [OF assms, of tid]
  by (auto simp: tq_cancel_def queue_cancel intro: ends_mono)

lemma timer_calls_ends:
  "tq_inv F tq \<Longrightarrow> malloc_spec malloc \<Longrightarrow> ends tolerable (tq_inv F) (timer_calls malloc later cs tq)"
proof (induction malloc later cs tq rule: timer_calls.induct)
  case (2 malloc later cb w ival cs tq)
  show ?case
    unfolding timer_calls.simps
    by (rule ends_rbind [OF addTimer_ends [OF "2.prems"]]) (use 2 in \<open>auto split: prod.splits\<close>)
next
  case (3 malloc later tid cs tq)
  show ?case
    unfolding timer_calls.simps
    by (rule ends_rbind [OF tq_cancel_ends [OF "3.prems"(1)]]) (use 3 in auto)
qed simp

lemma run_expired_ends:
  "tq_inv F tq \<Longrightarrow> malloc_spec malloc \<Longrightarrow> snd ` set its \<subseteq> set F \<Longrightarrow>
    ends tolerable (tq_inv F) (run_expired malloc cbs later its tq)"
proof (induction its arbitrary: tq)
  case Nil
  then show ?case by simp
next
  case (Cons it its)
  obtain t where t: "deref (snd it) tq = Inr t"
    by (rule in_flight_deref [OF Cons.prems(1), of "snd it"]) (use Cons.prems(3) in auto)
  have "ends tolerable (tq_inv F) (timer_calls malloc later (cbs (callback_id t)) (tq\<lparr>ran := ran tq @ [callback_id t]\<rparr>))"
    by (rule timer_calls_ends) (use Cons.prems in auto)
  then have "ends tolerable (tq_inv F)
      (rbind (timer_calls malloc later (cbs (callback_id t)) (tq\<lparr>ran := ran tq @ [callback_id t]\<rparr>))
        (run_expired malloc cbs later its))"
    by (rule ends_rbind) (use Cons in auto)
  then show ?case using t by simp
qed

lemma reset_loop_ends:
  "tq_inv (map snd its @ F) tq \<Longrightarrow> ends tolerable (tq_inv F) (reset_loop its now tq)"
proof (induction its arbitrary: tq)
  case Nil
  then show ?case by simp
next
  case (Cons it its)
  let ?p = "snd it"
  have inv: "tq_inv (?p # (map snd its @ F)) tq" using Cons.prems by simp
  obtain t where t: "heap tq ?p = Some t" "deref ?p tq = Inr t"
    using in_flight_deref [OF inv, of ?p] by auto
  show ?case
  proof (cases "repeat t \<and> (?p, sequence t) \<notin> cancelingTimers tq")
    case True
    have restart: "ends tolerable (\<lambda>t'. sequence t' = sequence t) (Timer_restart now t)"
      using True ends_rbind [OF ends_addTime, where Q = "\<lambda>t'. sequence t' = sequence t" and
        f = "\<lambda>e. Inr (t\<lparr>expiration := e\<rparr>)"] by (simp add: Timer_restart_def)
    have step: "ends tolerable (tq_inv F)
        (rbind (tq_insert ?p (tq\<lparr>heap := (heap tq)(?p \<mapsto> t')\<rparr>)) (\<lambda>(_, tq1). reset_loop its now tq1))"
      if "sequence t' = sequence t" for t'
      using tq_insert_ok [OF flight_update [OF inv _ t(1) that]] Cons.IH by auto
    have "ends tolerable (tq_inv F) (rbind (Timer_restart now t) (\<lambda>t'.
        rbind (tq_insert ?p (tq\<lparr>heap := (heap tq)(?p \<mapsto> t')\<rparr>)) (\<lambda>(_, tq1). reset_loop its now tq1)))"
      by (rule ends_rbind [OF restart]) (rule step)
    then show ?thesis using True t(2) by simp
  next
    case False
    have "ends tolerable (tq_inv F) (reset_loop its now (tq\<lparr>heap := (heap tq)(?p := None)\<rparr>))"
      by (rule Cons.IH [OF flight_delete [OF inv]])
    then show ?thesis using False t(2) by (simp add: if_not_P)
  qed
qed

lemma timers_inj:
  assumes "tq_inv F tq"
  shows "inj_on snd (timers tq)"
proof (rule inj_onI)
  fix e d assume a: "e \<in> timers tq" "d \<in> timers tq" "snd e = snd d"
  obtain w p v where "e = (w, p)" "d = (v, p)" using a(3) by (metis prod.collapse)
  then show "e = d"
    using a tq_invD(5) [OF assms, of w p] tq_invD(5) [OF assms, of v p] by auto
qed

lemma erase_active_ok:
  "\<forall>it\<in>set its. heap tq (snd it) \<noteq> None \<Longrightarrow>
    erase_active its tq = Inr (tq\<lparr>activeTimers := activeTimers tq -
      (\<lambda>it. (snd it, sequence (the (heap tq (snd it))))) ` set its\<rparr>)"
proof (induction its arbitrary: tq)
  case Nil
  then show ?case by simp
next
  case (Cons it its)
  then obtain t where t: "heap tq (snd it) = Some t" by auto
  let ?tq = "tq\<lparr>activeTimers := activeTimers tq - {(snd it, sequence t)}\<rparr>"
  have "erase_active its ?tq = Inr (?tq\<lparr>activeTimers := activeTimers ?tq -
      (\<lambda>it. (snd it, sequence (the (heap ?tq (snd it))))) ` set its\<rparr>)"
    by (rule Cons.IH) (use Cons.prems in simp)
  moreover have "erase_active (it # its) tq = erase_active its ?tq" using t by (simp add: deref_def)
  moreover have "activeTimers ?tq - (\<lambda>it. (snd it, sequence (the (heap ?tq (snd it))))) ` set its =
      activeTimers tq - (\<lambda>it. (snd it, sequence (the (heap tq (snd it))))) ` set (it # its)"
    using t by auto
  ultimately show ?case by (simp only: TimerQueue.update_convs) simp
qed

text \<open>Exactly the timers that are due, in order; they leave both sets and are then in flight.\<close>

lemma due_iff:
  assumes "tq_inv F tq" "(w, p) \<in> timers tq"
  shows "(w, p) < (now, UINTPTR_MAX) \<longleftrightarrow> w \<le> now"
proof -
  have "p < UINTPTR_MAX" using tq_invD(5,7) [OF assms(1)] assms(2) by blast
  then show ?thesis by (auto simp: less_le)
qed

lemma getExpired_ok:
  assumes inv: "tq_inv F tq"
  shows "\<exists>tq'. getExpired now tq = Inr (sorted_list_of_set {e \<in> timers tq. fst e \<le> now}, tq') \<and>
    timers tq' = {e \<in> timers tq. now < fst e} \<and> heap tq' = heap tq \<and> queued tq' = queued tq \<and>
    ran tq' = ran tq \<and> s_numCreated tq' = s_numCreated tq \<and>
    tq_inv (map snd (sorted_list_of_set {e \<in> timers tq. fst e \<le> now}) @ F) tq'"
proof -
  note D = tq_invD [OF inv]
  let ?S = "{e \<in> timers tq. fst e \<le> now}"
  let ?exp = "sorted_list_of_set ?S"
  have S: "{e \<in> timers tq. e < (now, UINTPTR_MAX)} = ?S"
    using due_iff [OF inv, where now = now] by (auto simp del: less_prod_simp)
  have fin: "finite ?S" using D(1) by simp
  have alive: "\<forall>it\<in>set ?exp. heap tq (snd it) \<noteq> None" using fin D(5) by fastforce
  let ?tq = "tq\<lparr>timers := timers tq - ?S,
    activeTimers := activeTimers tq - (\<lambda>it. (snd it, sequence (the (heap tq (snd it))))) ` ?S\<rparr>"
  have run: "getExpired now tq = Inr (?exp, ?tq)"
    using erase_active_ok [of ?exp "tq\<lparr>timers := timers tq - ?S\<rparr>"] alive fin S
    by (simp add: getExpired_def)
  note injT = timers_inj [OF inv]
  have keys: "snd ` (timers tq - ?S) = snd ` timers tq - snd ` ?S"
    by (rule inj_on_image_set_diff [OF injT]) auto
  have inj: "inj_on snd ?S" by (rule inj_on_subset [OF injT]) auto
  have flying: "distinct (map snd ?exp)" "set (map snd ?exp) = snd ` ?S"
    using fin inj by (simp_all add: distinct_map)
  have sub: "snd ` ?S \<subseteq> snd ` timers tq" by auto
  have "tq_inv (map snd ?exp @ F) ?tq"
  proof (rule tq_invI)
    show "distinct ((map snd ?exp @ F) @ added (queued ?tq))"
      using D(2,4) flying sub by auto
    show "dom (heap ?tq) = snd ` timers ?tq \<union> set (map snd ?exp @ F) \<union> set (added (queued ?tq))"
      using D(3) keys sub flying(2) by auto
    show "snd ` timers ?tq \<inter> (set (map snd ?exp @ F) \<union> set (added (queued ?tq))) = {}"
      using D(4) keys flying(2) by auto
    show "(q, r) \<in> activeTimers ?tq \<longleftrightarrow> q \<in> snd ` timers ?tq \<and> (\<exists>u. heap ?tq q = Some u \<and> sequence u = r)"
      for q r
      using D(6) [of q r] keys by (auto simp: image_iff)
  qed (use D in auto)
  moreover have "timers tq - ?S = {e \<in> timers tq. now < fst e}" by auto
  ultimately show ?thesis using run by (intro exI [of _ ?tq]) simp
qed

lemma tq_reset_ends:
  assumes "tq_inv (map snd expired @ F) tq"
  shows "ends tolerable (tq_inv F) (tq_reset expired now later tq)"
proof -
  have arming: "ends tolerable (tq_inv F)
      (rbind (if timers tq1 = {} then Inr Timestamp_default
              else rbind (deref (snd (Min (timers tq1))) tq1) (\<lambda>t. Inr (expiration t))) (\<lambda>nextExpire.
         if Timestamp_valid nextExpire then resetTimerfd later nextExpire tq1 else Inr tq1))"
    if inv: "tq_inv F tq1" for tq1
  proof -
    have arm: "ends tolerable (tq_inv F) (if Timestamp_valid w then resetTimerfd later w tq1 else Inr tq1)" for w
      using inv ends_mono [OF ends_resetTimerfd, where Q = "tq_inv F"] by fastforce
    show ?thesis
    proof (cases "timers tq1 = {}")
      case False
      then have "Min (timers tq1) \<in> timers tq1" using tq_invD(1) [OF inv] by simp
      then obtain t where "heap tq1 (snd (Min (timers tq1))) = Some t"
        using tq_invD(5) [OF inv, of "fst (Min (timers tq1))" "snd (Min (timers tq1))"] by auto
      then show ?thesis using False arm by (simp add: deref_def)
    qed (use arm in simp)
  qed
  show ?thesis
    unfolding tq_reset_def by (rule ends_rbind [OF reset_loop_ends [OF assms]]) (rule arming)
qed

lemma tq_handleRead_ends:
  assumes inv: "tq_inv [] tq" and spec: "malloc_spec malloc"
  shows "ends tolerable (tq_inv []) (tq_handleRead malloc cbs n now later after tq)"
proof -
  let ?exp = "sorted_list_of_set {e \<in> timers tq. fst e \<le> now}"
  obtain tq1 where tq1: "getExpired now (readTimerfd n tq) = Inr (?exp, tq1)" "tq_inv (map snd ?exp) tq1"
    using getExpired_ok [of "[]" "readTimerfd n tq" now] inv by auto
  have "ends tolerable (tq_inv (map snd ?exp))
      (run_expired malloc cbs later ?exp (tq1\<lparr>callingExpiredTimers := True, cancelingTimers := {}\<rparr>))"
    by (rule run_expired_ends) (use tq1(2) spec in auto)
  then have "ends tolerable (tq_inv [])
      (rbind (run_expired malloc cbs later ?exp (tq1\<lparr>callingExpiredTimers := True, cancelingTimers := {}\<rparr>)) (\<lambda>tq2.
         tq_reset ?exp now after (tq2\<lparr>callingExpiredTimers := False\<rparr>)))"
    by (rule ends_rbind) (rule tq_reset_ends, simp)
  then show ?thesis using tq1(1) by (simp add: tq_handleRead_def)
qed

section \<open>What a run of the expired timers does\<close>

text \<open>
  Whatever the callbacks do, the timers in flight stay as they are, and exactly the cancellations of
  timers in flight are remembered for \<open>reset\<close>.
\<close>

definition keeps :: "timer_ptr list \<Rightarrow> timer_call list \<Rightarrow> TimerQueue \<Rightarrow> TimerQueue \<Rightarrow> bool" where
  "keeps F cs tq tq' \<longleftrightarrow>
     tq_inv F tq' \<and> (\<forall>p\<in>set F. heap tq' p = heap tq p) \<and> ran tq' = ran tq \<and>
     callingExpiredTimers tq' = callingExpiredTimers tq \<and>
     (callingExpiredTimers tq \<longrightarrow> (\<forall>p\<in>set F. \<forall>s. (p, s) \<in> cancelingTimers tq' \<longleftrightarrow>
        (p, s) \<in> cancelingTimers tq \<or> CallCancel (p, s) \<in> set cs))"

lemma keeps_trans: "keeps F cs tq tq1 \<Longrightarrow> keeps F ds tq1 tq2 \<Longrightarrow> keeps F (cs @ ds) tq tq2"
  by (auto simp: keeps_def)

lemma addTimer_keeps:
  assumes inv: "tq_inv F tq" and spec: "malloc_spec malloc"
    and run: "addTimer malloc True now cb when ival tq = Inr (tid, tq')"
  shows "keeps F [CallAdd cb when ival] tq tq'"
proof -
  have "tq_inv F tq'" using addTimer_ends [OF inv spec, of True now cb "when" ival] run by simp
  moreover obtain p seq where p: "malloc (heap tq) = Some p"
      "addTimerInLoop now p (tq\<lparr>heap := (heap tq)(p \<mapsto> Timer_new cb when ival seq), s_numCreated := seq\<rparr>) = Inr tq'"
    using run by (auto simp: addTimer_eq rbind_eq_Inr Let_def split: option.splits)
  moreover have "p \<notin> set F"
    using p(1) spec tq_invD(3) [OF inv] by (auto simp: malloc_spec_def domIff)
  ultimately show ?thesis using addTimerInLoop_frame [OF p(2)] by (auto simp: keeps_def)
qed

lemma cancel_keeps:
  assumes inv: "tq_inv F tq" and run: "tq_cancel True tid tq = Inr tq'"
  shows "keeps F [CallCancel tid] tq tq'"
proof -
  have inv': "tq_inv F tq'" using tq_cancel_ends [OF inv, of True tid] run by simp
  have "fst tid \<notin> set F" if "tid \<in> activeTimers tq"
  proof -
    have "fst tid \<in> snd ` timers tq"
      using that tq_invD(6) [OF inv, of "fst tid" "snd tid"] by simp
    then show ?thesis using tq_invD(4) [OF inv] by blast
  qed
  then show ?thesis
    using inv' run
    by (cases tid) (auto simp: keeps_def tq_cancel_def cancelInLoop_def rbind_eq_Inr split: if_splits)
qed

lemma timer_calls_keeps:
  "tq_inv F tq \<Longrightarrow> malloc_spec malloc \<Longrightarrow> timer_calls malloc later cs tq = Inr tq' \<Longrightarrow> keeps F cs tq tq'"
proof (induction malloc later cs tq rule: timer_calls.induct)
  case (1 malloc later tq)
  then show ?case by (simp add: keeps_def)
next
  case (2 malloc later cb w ival cs tq)
  then obtain tid tq1 where tq1: "addTimer malloc True (later (s_numCreated tq)) cb w ival tq = Inr (tid, tq1)"
      "timer_calls malloc later cs tq1 = Inr tq'"
    by (auto simp: rbind_eq_Inr)
  note k = addTimer_keeps [OF "2.prems"(1,2) tq1(1)]
  show ?case
    using keeps_trans [OF k "2.IH" [OF _ "2.prems"(2) tq1(2)]] k by (simp add: keeps_def)
next
  case (3 malloc later tid cs tq)
  then obtain tq1 where tq1: "tq_cancel True tid tq = Inr tq1" "timer_calls malloc later cs tq1 = Inr tq'"
    by (auto simp: rbind_eq_Inr)
  note k = cancel_keeps [OF "3.prems"(1) tq1(1)]
  show ?case
    using keeps_trans [OF k "3.IH" [OF _ "3.prems"(2) tq1(2)]] k by (simp add: keeps_def)
qed

abbreviation cb_of :: "TimerQueue \<Rightarrow> Timestamp \<times> timer_ptr \<Rightarrow> nat" where
  "cb_of tq it \<equiv> callback_id (the (heap tq (snd it)))"

lemma run_expired_effect:
  "tq_inv F tq \<Longrightarrow> malloc_spec malloc \<Longrightarrow> snd ` set its \<subseteq> set F \<Longrightarrow>
    run_expired malloc cbs later its tq = Inr tq' \<Longrightarrow>
    ran tq' = ran tq @ map (cb_of tq) its \<and>
    keeps F (concat (map (\<lambda>it. cbs (cb_of tq it)) its)) tq (tq'\<lparr>ran := ran tq\<rparr>)"
proof (induction its arbitrary: tq)
  case Nil
  then show ?case by (simp add: keeps_def)
next
  case (Cons it its)
  obtain t where t: "heap tq (snd it) = Some t" "deref (snd it) tq = Inr t"
    by (rule in_flight_deref [OF Cons.prems(1), of "snd it"]) (use Cons.prems(3) in auto)
  obtain tq1 where tq1: "timer_calls malloc later (cbs (callback_id t)) (tq\<lparr>ran := ran tq @ [callback_id t]\<rparr>) = Inr tq1"
      "run_expired malloc cbs later its tq1 = Inr tq'"
    using Cons.prems(4) t(2) by (auto simp: rbind_eq_Inr)
  have k: "keeps F (cbs (callback_id t)) (tq\<lparr>ran := ran tq @ [callback_id t]\<rparr>) tq1"
    by (rule timer_calls_keeps [OF _ Cons.prems(2) tq1(1)]) (use Cons.prems(1) in simp)
  have sub: "snd ` set its \<subseteq> set F" using Cons.prems(3) by simp
  have same: "map (cb_of tq1) its = map (cb_of tq) its"
      "map (\<lambda>it. cbs (cb_of tq1 it)) its = map (\<lambda>it. cbs (cb_of tq it)) its"
    using k sub by (auto simp: keeps_def)
  have "ran tq' = ran tq1 @ map (cb_of tq1) its \<and>
      keeps F (concat (map (\<lambda>it. cbs (cb_of tq1 it)) its)) tq1 (tq'\<lparr>ran := ran tq1\<rparr>)"
    using Cons.IH [OF _ Cons.prems(2) sub tq1(2)] k by (simp add: keeps_def)
  then show ?case using k t(1) same by (auto simp: keeps_def)
qed

text \<open>\<open>reset\<close> on one expired timer \<open>t\<close> at \<open>p\<close>: armed again, or deleted.\<close>

definition reset_done :: "Timestamp \<Rightarrow> bool \<Rightarrow> timer_ptr \<Rightarrow> Timer \<Rightarrow> TimerQueue \<Rightarrow> bool" where
  "reset_done now cancelled p t tq' \<longleftrightarrow>
     (if repeat t \<and> \<not> cancelled
      then \<exists>e. addTime now (interval t) = Inr e \<and> (e, p) \<in> timers tq' \<and> heap tq' p = Some (t\<lparr>expiration := e\<rparr>)
      else heap tq' p = None)"

lemma reset_loop_effect:
  "tq_inv (map snd its @ F) tq \<Longrightarrow> reset_loop its now tq = Inr tq' \<Longrightarrow>
    (\<forall>q. q \<notin> snd ` set its \<longrightarrow> heap tq' q = heap tq q) \<and> timers tq \<subseteq> timers tq' \<and> ran tq' = ran tq \<and>
    cancelingTimers tq' = cancelingTimers tq \<and>
    (\<forall>p\<in>snd ` set its. \<forall>t. heap tq p = Some t \<longrightarrow> reset_done now ((p, sequence t) \<in> cancelingTimers tq) p t tq')"
proof (induction its arbitrary: tq)
  case Nil
  then show ?case by simp
next
  case (Cons it its)
  let ?p = "snd it"
  have inv: "tq_inv (?p # (map snd its @ F)) tq" using Cons.prems by simp
  have "distinct ((?p # (map snd its @ F)) @ added (queued tq))" using tq_invD(2) [OF inv] .
  then have new: "?p \<notin> snd ` set its" by simp
  obtain t where t: "heap tq ?p = Some t" "deref ?p tq = Inr t"
    using in_flight_deref [OF inv, of ?p] by auto
  show ?case
  proof (cases "repeat t \<and> (?p, sequence t) \<notin> cancelingTimers tq")
    case True
    then obtain e where e: "addTime now (interval t) = Inr e" "Timer_restart now t = Inr (t\<lparr>expiration := e\<rparr>)"
      using Cons.prems(2) t(2) by (auto simp: rbind_eq_Inr Timer_restart_def)
    let ?t' = "t\<lparr>expiration := e\<rparr>"
    let ?tq1 = "tq\<lparr>heap := (heap tq)(?p \<mapsto> ?t')\<rparr>"
    let ?tq2 = "?tq1\<lparr>timers := insert (e, ?p) (timers tq), activeTimers := insert (?p, sequence t) (activeTimers tq)\<rparr>"
    have inv1: "tq_inv (?p # (map snd its @ F)) ?tq1" by (rule flight_update [OF inv _ t(1)]) simp_all
    obtain b where b: "tq_insert ?p ?tq1 = Inr (b, ?tq2)" "tq_inv (map snd its @ F) ?tq2"
      using tq_insert_ok [OF inv1] by auto
    have "reset_loop its now ?tq2 = Inr tq'" using Cons.prems(2) True t(2) e(2) b(1) by simp
    note IH = Cons.IH [OF b(2) this]
    then have this_one: "reset_done now ((?p, sequence t) \<in> cancelingTimers tq) ?p t tq'"
      using True e(1) new by (auto simp: reset_done_def)
    have others: "reset_done now ((q, sequence u) \<in> cancelingTimers tq) q u tq'"
      if "q \<in> snd ` set its" "heap tq q = Some u" for q u
    proof -
      have "q \<noteq> ?p" using that(1) new by blast
      then have "heap ?tq2 q = Some u" using that(2) by simp
      with IH that(1) have "reset_done now ((q, sequence u) \<in> cancelingTimers ?tq2) q u tq'" by blast
      then show ?thesis by simp
    qed
    have "reset_done now ((q, sequence u) \<in> cancelingTimers tq) q u tq'"
      if "q \<in> snd ` set (it # its)" "heap tq q = Some u" for q u
      using that(1) this_one others [OF _ that(2)] t(1) that(2) by (cases "q = ?p") (simp, simp)
    then show ?thesis using IH by auto
  next
    case False
    let ?tq1 = "tq\<lparr>heap := (heap tq)(?p := None)\<rparr>"
    have "reset_loop its now ?tq1 = Inr tq'" using Cons.prems(2) False t(2) by (simp add: if_not_P)
    note IH = Cons.IH [OF flight_delete [OF inv] this]
    then have this_one: "reset_done now ((?p, sequence t) \<in> cancelingTimers tq) ?p t tq'"
      using False new by (auto simp: reset_done_def)
    have others: "reset_done now ((q, sequence u) \<in> cancelingTimers tq) q u tq'"
      if "q \<in> snd ` set its" "heap tq q = Some u" for q u
    proof -
      have "q \<noteq> ?p" using that(1) new by blast
      then have "heap ?tq1 q = Some u" using that(2) by simp
      with IH that(1) have "reset_done now ((q, sequence u) \<in> cancelingTimers ?tq1) q u tq'" by blast
      then show ?thesis by simp
    qed
    have "reset_done now ((q, sequence u) \<in> cancelingTimers tq) q u tq'"
      if "q \<in> snd ` set (it # its)" "heap tq q = Some u" for q u
      using that(1) this_one others [OF _ that(2)] t(1) that(2) by (cases "q = ?p") (simp, simp)
    then show ?thesis using IH by auto
  qed
qed

lemma resetTimerfd_fires:
  assumes "resetTimerfd now expir tq = Inr tq'"
  shows "tq' = tq\<lparr>timerfd_fires := Some (max (microSecondsSinceEpoch expir) (microSecondsSinceEpoch now + 100))\<rparr>"
proof -
  let ?us = "microSecondsSinceEpoch expir - microSecondsSinceEpoch now"
  let ?m = "if ?us < 100 then 100 else ?us"
  have m: "?m \<ge> 0" by simp
  have "cdiv ?m 1000000 * 1000000 + (crem ?m 1000000 * 1000) div 1000 = ?m"
    using m by (simp only: cdiv_nonneg crem_nonneg zero_less_numeral nonzero_mult_div_cancel_right
        div_mult_mod_eq)
  moreover have "tq' = tq\<lparr>timerfd_fires := Some (microSecondsSinceEpoch now + cdiv ?m 1000000 * 1000000 +
      (crem ?m 1000000 * 1000) div 1000)\<rparr>"
    using assms by (auto simp: resetTimerfd_def howMuchTimeFromNow_def rbind_eq_Inr int64_Inr Let_def
        kMicroSecondsPerSecond_def)
  ultimately show ?thesis by (simp add: max_def add.assoc split: if_splits)
qed

lemma handleRead_effect:
  assumes "tq_inv [] tq" "malloc_spec malloc" "tq_handleRead malloc cbs n now later after tq = Inr tq'"
  shows "let due = sorted_list_of_set {e \<in> timers tq. fst e \<le> now} in
    ran tq' = ran tq @ map (cb_of tq) due \<and>
    (\<forall>w p t. (w, p) \<in> timers tq \<and> w \<le> now \<and> heap tq p = Some t \<longrightarrow>
      reset_done now (\<exists>it\<in>set due. CallCancel (p, sequence t) \<in> set (cbs (cb_of tq it))) p t tq')"
proof -
  let ?exp = "sorted_list_of_set {e \<in> timers tq. fst e \<le> now}"
  have mem: "set ?exp = {e \<in> timers tq. fst e \<le> now}" using tq_invD(1) [OF assms(1)] by simp
  obtain tq1 where tq1: "getExpired now (readTimerfd n tq) = Inr (?exp, tq1)" "tq_inv (map snd ?exp) tq1" "heap tq1 = heap tq"
      "ran tq1 = ran tq"
    using getExpired_ok [of "[]" "readTimerfd n tq" now] assms(1) by auto
  let ?tq1 = "tq1\<lparr>callingExpiredTimers := True, cancelingTimers := {}\<rparr>"
  obtain tq2 where tq2: "run_expired malloc cbs later ?exp ?tq1 = Inr tq2"
      "tq_reset ?exp now after (tq2\<lparr>callingExpiredTimers := False\<rparr>) = Inr tq'"
    using assms(3) tq1(1) by (auto simp: tq_handleRead_def rbind_eq_Inr)
  have eff: "ran tq2 = ran tq @ map (cb_of tq) ?exp"
      "keeps (map snd ?exp) (concat (map (\<lambda>it. cbs (cb_of tq it)) ?exp)) ?tq1 (tq2\<lparr>ran := ran tq\<rparr>)"
    using run_expired_effect [OF _ assms(2) _ tq2(1), of "map snd ?exp"] tq1(2-4) by simp_all
  let ?tq2 = "tq2\<lparr>callingExpiredTimers := False\<rparr>"
  obtain tq3 where tq3: "reset_loop ?exp now ?tq2 = Inr tq3" "ran tq' = ran tq3" "timers tq' = timers tq3"
      "heap tq' = heap tq3"
    using tq2(2) by (auto simp: tq_reset_def rbind_eq_Inr dest!: resetTimerfd_fires split: if_splits)
  have "tq_inv (map snd ?exp @ []) ?tq2" using eff(2) by (simp add: keeps_def)
  note R = reset_loop_effect [OF this tq3(1)]
  have "reset_done now (\<exists>it\<in>set ?exp. CallCancel (p, sequence t) \<in> set (cbs (cb_of tq it))) p t tq'"
    if a: "(w, p) \<in> timers tq" "w \<le> now" "heap tq p = Some t" for w p t
  proof -
    have "(w, p) \<in> set ?exp" using a mem by simp
    then have p: "p \<in> snd ` set ?exp" "p \<in> set (map snd ?exp)" by force+
    have "heap (tq2\<lparr>ran := ran tq\<rparr>) p = heap ?tq1 p" using eff(2) p(2) unfolding keeps_def by blast
    then have "heap ?tq2 p = Some t" using a(3) tq1(3) by simp
    with R p(1) have "reset_done now ((p, sequence t) \<in> cancelingTimers ?tq2) p t tq3" by blast
    moreover have "(p, sequence t) \<in> cancelingTimers ?tq2 \<longleftrightarrow>
        (\<exists>it\<in>set ?exp. CallCancel (p, sequence t) \<in> set (cbs (cb_of tq it)))"
    proof -
      have "callingExpiredTimers ?tq1" by simp
      then have "(p, sequence t) \<in> cancelingTimers (tq2\<lparr>ran := ran tq\<rparr>) \<longleftrightarrow>
          (p, sequence t) \<in> cancelingTimers ?tq1 \<or>
          CallCancel (p, sequence t) \<in> set (concat (map (\<lambda>it. cbs (cb_of tq it)) ?exp))"
        using eff(2) p(2) unfolding keeps_def by blast
      then show ?thesis by simp
    qed
    ultimately show ?thesis using tq3(3,4) by (simp add: reset_done_def)
  qed
  moreover have "ran tq' = ran tq @ map (cb_of tq) ?exp" using tq3(2) R eff(1) by simp
  ultimately show ?thesis unfolding Let_def by blast
qed

text \<open>Cancelling is exact. Outside a run of expired timers, cancelling an identifier deletes the timer it
  names and nothing else; an identifier whose timer is gone does nothing, also when its address has been
  given to a newer timer, because the sequence numbers differ.\<close>

lemma cancel_exact:
  assumes "tq_inv F tq" "\<not> callingExpiredTimers tq"
  shows "\<exists>tq'. cancelInLoop (p, s) tq = Inr tq' \<and>
    (if p \<in> snd ` timers tq \<and> (\<exists>t. heap tq p = Some t \<and> sequence t = s)
     then heap tq' = (heap tq)(p := None) \<and> timers tq' = {e \<in> timers tq. snd e \<noteq> p} \<and>
       activeTimers tq' = activeTimers tq - {(p, s)}
     else tq' = tq)"
proof (cases "(p, s) \<in> activeTimers tq")
  case True
  note D = tq_invD [OF assms(1)]
  obtain t where t: "heap tq p = Some t" "sequence t = s" "p \<in> snd ` timers tq" using True D(6) by auto
  have "timers tq - {(expiration t, p)} = {e \<in> timers tq. snd e \<noteq> p}"
  proof (intro equalityI subsetI)
    fix e assume e: "e \<in> timers tq - {(expiration t, p)}"
    then show "e \<in> {e \<in> timers tq. snd e \<noteq> p}"
      using D(5) [of "fst e" "snd e"] t(1) by (cases e) auto
  qed auto
  then show ?thesis using True t by (auto simp: cancelInLoop_def deref_def)
next
  case False
  then show ?thesis using tq_invD(6) [OF assms(1), of p s] assms(2) by (auto simp: cancelInLoop_def)
qed

section \<open>Sequences of operations\<close>

text \<open>
  What may happen to a queue: the loop's thread adds a timer; another thread does the first half of
  \<open>addTimer\<close>, and at some later time the second half; a timer is cancelled, from the loop's thread or another; the loop
  runs the next queued functor; the descriptor is readable.
\<close>

datatype tq_op =
    AddOp Timestamp nat Timestamp double
  | AddBegin nat Timestamp double
  | AddReturn timer_ptr
  | CancelOp bool TimerId
  | QueuedOp Timestamp
  | ExpireOp int Timestamp "int \<Rightarrow> Timestamp" Timestamp

fun tq_exec ::
  "((timer_ptr \<rightharpoonup> Timer) \<Rightarrow> timer_ptr option) \<Rightarrow> (nat \<Rightarrow> timer_call list) \<Rightarrow> tq_op \<Rightarrow> TimerQueue \<Rightarrow> TimerQueue result" where
  "tq_exec malloc cbs (AddOp now cb when ival) tq =
     rbind (addTimer malloc True now cb when ival tq) (\<lambda>(_, tq'). Inr tq')"
| "tq_exec malloc cbs (AddBegin cb when ival) tq =
     rbind (addTimer_begin malloc False Timestamp_default cb when ival tq) (\<lambda>(_, tq'). Inr tq')"
| "tq_exec malloc cbs (AddReturn p) tq = rbind (addTimer_return p tq) (\<lambda>_. Inr tq)"
| "tq_exec malloc cbs (CancelOp inLoop tid) tq = tq_cancel inLoop tid tq"
| "tq_exec malloc cbs (QueuedOp now) tq =
     (case queued tq of
        [] \<Rightarrow> Inr tq
      | AddTimerInLoopFn p # fs \<Rightarrow> addTimerInLoop now p (tq\<lparr>queued := fs\<rparr>)
      | CancelInLoopFn tid # fs \<Rightarrow> cancelInLoop tid (tq\<lparr>queued := fs\<rparr>))"
| "tq_exec malloc cbs (ExpireOp n now later after) tq = tq_handleRead malloc cbs n now later after tq"

fun tq_run ::
  "((timer_ptr \<rightharpoonup> Timer) \<Rightarrow> timer_ptr option) \<Rightarrow> (nat \<Rightarrow> timer_call list) \<Rightarrow> tq_op list \<Rightarrow> TimerQueue \<Rightarrow> TimerQueue result" where
  "tq_run malloc cbs [] tq = Inr tq"
| "tq_run malloc cbs (oper # opers) tq = rbind (tq_exec malloc cbs oper tq) (tq_run malloc cbs opers)"

text \<open>The second half of another thread's \<open>addTimer\<close> is safe as long as the timer exists.\<close>

fun tq_pre :: "tq_op \<Rightarrow> TimerQueue \<Rightarrow> bool" where
  "tq_pre (AddReturn p) tq = (heap tq p \<noteq> None)"
| "tq_pre oper tq = True"

lemma addTimer_begin_foreign:
  "addTimer_begin malloc False now cb when ival tq =
     rbind (addTimer malloc False now cb when ival tq) (\<lambda>(tid, tq'). Inr (fst tid, tq'))"
  by (auto simp: addTimer_eq addTimer_begin_def int64_def Let_def split: option.splits)

lemma tq_exec_ends:
  assumes inv: "tq_inv [] tq" and spec: "malloc_spec malloc" and pre: "tq_pre oper tq"
  shows "ends tolerable (tq_inv []) (tq_exec malloc cbs oper tq)"
proof (cases oper)
  case (AddOp now cb w ival)
  show ?thesis
    unfolding AddOp tq_exec.simps
    by (rule ends_rbind [OF addTimer_ends [OF inv spec]]) (auto split: prod.splits)
next
  case (AddBegin cb w ival)
  have "tq_exec malloc cbs oper tq =
      rbind (addTimer malloc False Timestamp_default cb w ival tq) (\<lambda>(_, tq'). Inr tq')"
    by (cases "addTimer malloc False Timestamp_default cb w ival tq") (auto simp: AddBegin addTimer_begin_foreign)
  moreover have "ends tolerable (tq_inv []) \<dots>"
    by (rule ends_rbind [OF addTimer_ends [OF inv spec]]) (auto split: prod.splits)
  ultimately show ?thesis by simp
next
  case (AddReturn p)
  then show ?thesis using inv pre by (auto simp: addTimer_return_def deref_def)
next
  case (CancelOp inLoop tid)
  then show ?thesis using tq_cancel_ends [OF inv] by simp
next
  case (QueuedOp now)
  show ?thesis
  proof (cases "queued tq")
    case Nil
    then show ?thesis using inv QueuedOp by simp
  next
    case (Cons f fs)
    then show ?thesis
      using QueuedOp addTimerInLoop_ends [OF flight_dequeue [OF inv], of _ fs now]
        cancelInLoop_ends [of "[]" "tq\<lparr>queued := fs\<rparr>"] queue_cancel(2) [of tq _ fs "[]"] inv
      by (cases f) (auto intro: ends_mono)
  qed
next
  case (ExpireOp n now later after)
  then show ?thesis using tq_handleRead_ends [OF inv spec] by simp
qed

text \<open>The queue is a machine on an allocator that keeps its contract; nothing more is observed.\<close>

interpretation tq: op_machine "tq_exec malloc cbs" tq_pre "\<lambda>tq. malloc_spec malloc \<and> tq_inv [] tq" tolerable
    "\<lambda>tq. [] :: unit list" "\<lambda>oper tq. []" for malloc cbs
  by unfold_locales (auto intro: ends_mono [OF tq_exec_ends])

lemma tq_machine: "tq_run malloc cbs opers tq = tq.run malloc cbs opers tq"
proof (induction opers arbitrary: tq)
  case (Cons oper opers)
  then show ?case by (cases "tq_exec malloc cbs oper tq") simp_all
qed simp

lemma tq_run_ends:
  assumes "tq_inv [] tq" "malloc_spec malloc" "tq.pres malloc cbs opers tq"
  shows "ends tolerable (tq_inv []) (tq_run malloc cbs opers tq)"
proof -
  have "ends tolerable (\<lambda>tq'. (malloc_spec malloc \<and> tq_inv [] tq') \<and> [] = [] @ tq.outs malloc cbs opers tq) (tq.run malloc cbs opers tq)"
    using assms by (intro tq.run_ok [OF _ assms(3)]) simp
  then show ?thesis unfolding tq_machine by (rule ends_mono) simp
qed

text \<open>A run meets its conditions, or stops at the first half-done \<open>addTimer\<close> that returns after its timer is gone.\<close>

lemma tq_run_split:
  "tq_inv [] tq \<Longrightarrow> malloc_spec malloc \<Longrightarrow> tq.pres malloc cbs opers tq \<or>
    (\<exists>front p rest tq1. opers = front @ AddReturn p # rest \<and> tq_run malloc cbs front tq = Inr tq1 \<and>
      heap tq1 p = None \<and> tq_run malloc cbs opers tq = Inl UseAfterFree)"
proof (induction opers arbitrary: tq)
  case (Cons oper opers)
  show ?case
  proof (cases "tq_pre oper tq")
    case False
    then obtain p where p: "oper = AddReturn p" "heap tq p = None" by (cases oper) auto
    then have "tq_run malloc cbs (oper # opers) tq = Inl UseAfterFree" by (simp add: addTimer_return_def deref_def)
    then show ?thesis using p by (intro disjI2 exI [of _ "[]"] exI [of _ p] exI [of _ opers] exI [of _ tq]) simp
  next
    case True
    show ?thesis
    proof (cases "tq_exec malloc cbs oper tq")
      case (Inl e)
      then show ?thesis using True by simp
    next
      case (Inr tq1)
      have "tq_inv [] tq1" using tq_exec_ends [OF Cons.prems True, of cbs] Inr by simp
      from Cons.IH [OF this Cons.prems(2)] show ?thesis
      proof (elim disjE exE conjE)
        fix front p rest tq2
        assume a: "opers = front @ AddReturn p # rest" "tq_run malloc cbs front tq1 = Inr tq2" "heap tq2 p = None"
          "tq_run malloc cbs opers tq1 = Inl UseAfterFree"
        then show ?thesis
          using Inr by (intro disjI2 exI [of _ "oper # front"] exI [of _ p] exI [of _ rest] exI [of _ tq2]) simp
      qed (use True Inr in simp)
    qed
  qed
qed simp

lemma new_queue_inv: "tq_inv [] TimerQueue_new"
  by (simp add: tq_inv_def TimerQueue_new_def)

text \<open>A sample: one periodic timer at address 1.\<close>

definition sample_malloc :: "(timer_ptr \<rightharpoonup> Timer) \<Rightarrow> timer_ptr option" where
  "sample_malloc h = (if h 1 = None then Some 1 else if h 2 = None then Some 2 else None)"

lemma sample_malloc_spec: "malloc_spec sample_malloc"
  by (auto simp: malloc_spec_def sample_malloc_def UINTPTR_MAX_def split: if_splits)

definition sample_queue :: TimerQueue where
  "sample_queue = TimerQueue_new\<lparr>heap := [1 \<mapsto> Timer_new 7 (Timestamp 1000) (Finite 1 0) 1],
     timers := {(Timestamp 1000, 1)}, activeTimers := {(1, 1)}, s_numCreated := 1\<rparr>"

lemma sample_queue_inv: "tq_inv [] sample_queue"
  by (rule tq_invI) (auto simp: sample_queue_def TimerQueue_new_def Timer_new_def UINTPTR_MAX_def
      split: if_splits)

lemma sample_due: "{e \<in> {(Timestamp 1000, 1 :: nat)}. fst e \<le> Timestamp 2000} = {(Timestamp 1000, 1)}"
  by (auto simp: less_eq_Timestamp_def)

section \<open>Properties\<close>

text \<open>C5: memory safety of the timer queue, up to one read. From a new queue, take any sequence of timers added by the
  loop's thread or by others, cancelled, run and expired, with callbacks that add and cancel timers (themselves
  included), and with the two halves of another thread's \<open>addTimer\<close> as steps of their own. The only possible
  failures are an overflowing time, a failing allocation, and the read of the sequence number at the end of
  another thread's \<open>addTimer\<close>, exactly when the loop has deleted that timer meanwhile. No other operation
  uses a freed timer or deletes one twice. The live timers are exactly those in \<open>timers_\<close> and those whose
  insertion is queued, so none leaks, and \<open>activeTimers_\<close> holds exactly the timers of \<open>timers_\<close>.\<close>

theorem TimerQueue_memory_safe:
  assumes "malloc_spec malloc"
  shows "case tq_run malloc cbs opers TimerQueue_new of
      Inl e \<Rightarrow> e = Overflow \<or> e = BadAlloc \<or>
        e = UseAfterFree \<and> (\<exists>front p rest tq. opers = front @ AddReturn p # rest \<and>
          tq_run malloc cbs front TimerQueue_new = Inr tq \<and> heap tq p = None)
    | Inr tq \<Rightarrow>
        dom (heap tq) = snd ` timers tq \<union> set (added (queued tq)) \<and>
        snd ` timers tq \<inter> set (added (queued tq)) = {} \<and> distinct (added (queued tq)) \<and>
        (\<forall>w p. (w, p) \<in> timers tq \<longrightarrow> (\<exists>t. heap tq p = Some t \<and> expiration t = w)) \<and>
        activeTimers tq = {(p, sequence t) | p t. p \<in> snd ` timers tq \<and> heap tq p = Some t}"
  using tq_run_split [OF new_queue_inv assms, of cbs opers]
proof (elim disjE)
  assume "tq.pres malloc cbs opers TimerQueue_new"
  note ends = tq_run_ends [OF new_queue_inv assms this]
  show ?thesis
  proof (cases "tq_run malloc cbs opers TimerQueue_new")
    case (Inl e)
    then show ?thesis using ends by auto
  next
    case (Inr tq)
    then have "tq_inv [] tq" using ends by simp
    note D = tq_invD [OF this]
    have "activeTimers tq = {(p, sequence t) | p t. p \<in> snd ` timers tq \<and> heap tq p = Some t}"
      using D(6) by auto
    then show ?thesis using Inr D(2-5) by simp
  qed
next
  assume "\<exists>front p rest tq. opers = front @ AddReturn p # rest \<and> tq_run malloc cbs front TimerQueue_new = Inr tq \<and>
    heap tq p = None \<and> tq_run malloc cbs opers TimerQueue_new = Inl UseAfterFree"
  then show ?thesis by (elim exE conjE) (simp only: sum.case, blast)
qed

text \<open>One timer is added and cancelled by the loop's thread, another one added by another thread.\<close>

definition sample_ops :: "tq_op list" where
  "sample_ops = [AddOp (Timestamp 0) 7 (Timestamp 1000) (Finite 1 0),
     AddBegin 8 (Timestamp 900) (Finite 0 0), AddReturn 2, CancelOp True (1, 1)]"

theorem TimerQueue_memory_safe_witness:
  "\<exists>tq. tq_run sample_malloc (\<lambda>_. []) sample_ops TimerQueue_new = Inr tq \<and> dom (heap tq) = {2} \<and> timers tq = {}"
proof -
  obtain tq where tq: "tq_run sample_malloc (\<lambda>_. []) sample_ops TimerQueue_new = Inr tq"
      "timers tq = {}" "queued tq = [AddTimerInLoopFn 2]"
    by (simp add: sample_ops_def TimerQueue_new_def addTimer_eq addTimer_begin_def addTimer_return_def sample_malloc_def
        int64_def addTimerInLoop_def tq_insert_def deref_def Timer_new_def resetTimerfd_def howMuchTimeFromNow_def
        tq_cancel_def cancelInLoop_def Let_def)
  with TimerQueue_memory_safe [OF sample_malloc_spec, where cbs = "\<lambda>_. []" and opers = sample_ops] show ?thesis by auto
qed

text \<open>C19: expiry is exact. One run of \<open>handleRead\<close> calls the callbacks of exactly the timers due at \<open>now\<close>,
  each once, in order of time; afterwards a periodic timer that no callback of this run cancelled is in
  the queue again, at \<open>now\<close> plus its interval, and every other due timer is deleted, a self-cancelled
  periodic one included.\<close>

theorem TimerQueue_runs_due:
  assumes "tq_inv [] tq" "malloc_spec malloc" "tq_handleRead malloc cbs n now later after tq = Inr tq'"
  shows "let due = sorted_list_of_set {e \<in> timers tq. fst e \<le> now} in
    ran tq' = ran tq @ map (cb_of tq) due \<and>
    (\<forall>w p t. (w, p) \<in> timers tq \<and> w \<le> now \<and> heap tq p = Some t \<longrightarrow>
      reset_done now (\<exists>it\<in>set due. CallCancel (p, sequence t) \<in> set (cbs (cb_of tq it))) p t tq')"
  using assms by (rule handleRead_effect)

theorem TimerQueue_runs_due_witness:
  "\<exists>tq'. tq_handleRead sample_malloc (\<lambda>_. []) 8 (Timestamp 2000) (\<lambda>_. Timestamp 2050) (Timestamp 2100) sample_queue = Inr tq' \<and>
    ran tq' = [7] \<and> (Timestamp 1002000, 1) \<in> timers tq'"
proof -
  have add: "addTime (Timestamp 2000) (Finite 1 0) = Inr (Timestamp 1002000)"
    using addTime_whole [of 1 "Timestamp 2000"] by simp
  have S: "{e. e = (Timestamp 1000, 1) \<and> e < (Timestamp 2000, UINTPTR_MAX)} = {(Timestamp 1000, Suc 0)}"
    by (auto simp: less_Timestamp_def Timestamp_less_def less_eq_Timestamp_def)
  obtain tq' where tq': "tq_handleRead sample_malloc (\<lambda>_. []) 8 (Timestamp 2000) (\<lambda>_. Timestamp 2050) (Timestamp 2100) sample_queue = Inr tq'"
    using add S
    by (simp add: tq_handleRead_def readTimerfd_def getExpired_def sample_queue_def TimerQueue_new_def deref_def Timer_new_def
        tq_reset_def Timer_restart_def tq_insert_def resetTimerfd_def howMuchTimeFromNow_def int64_def
        Timestamp_valid_def Let_def)
  note R = TimerQueue_runs_due [OF sample_queue_inv sample_malloc_spec tq', unfolded Let_def]
  have q: "timers sample_queue = {(Timestamp 1000, 1)}" "heap sample_queue (Suc 0) = Some (Timer_new 7 (Timestamp 1000) (Finite 1 0) 1)"
      "ran sample_queue = []"
    by (simp_all add: sample_queue_def TimerQueue_new_def)
  have "ran tq' = [7]" using R unfolding q sample_due by (simp add: q Timer_new_def)
  moreover have "reset_done (Timestamp 2000) False 1 (Timer_new 7 (Timestamp 1000) (Finite 1 0) 1) tq'"
    using R unfolding q sample_due by (simp add: q less_eq_Timestamp_def)
  ultimately show ?thesis using tq' add by (simp add: reset_done_def Timer_new_def)
qed

end
