(* ===== verification/Net_TimerFd.thy ===== *)
theory Net_TimerFd
  imports Net_Timer
begin

text \<open>
  The timer descriptor of \<open>src/net/TimerQueue.cc\<close>. The queue arms it in two places, when a timer becomes the
  earliest one (\<open>addTimerInLoop\<close>) and after the expired timers have run (\<open>reset\<close>), and \<open>readTimerfd\<close> leaves it
  idle. Here it is shown that between operations it always covers every waiting timer. Also here: the
  interleaving in which \<open>addTimer\<close> of another thread reads a timer that the loop has deleted.
\<close>

section \<open>The descriptor covers the waiting timers\<close>

text \<open>
  The descriptor covers a waiting timer when it fires no later than the timer is due, or than 100
  microseconds after the last clock reading \<open>L\<close>. \<open>P\<close> selects the timers of which this is asked: while the
  callbacks run and the descriptor is idle, only those with a time that \<open>reset\<close> takes for invalid.
\<close>

definition covered :: "(Timestamp \<Rightarrow> bool) \<Rightarrow> int \<Rightarrow> TimerQueue \<Rightarrow> bool" where
  "covered P L tq \<longleftrightarrow> finite (timers tq) \<and>
     (\<forall>p t. heap tq p = Some t \<and> repeat t \<longrightarrow> double_positive (interval t)) \<and>
     (\<forall>e\<in>timers tq. P (fst e) \<longrightarrow>
        (\<exists>f. timerfd_fires tq = Some f \<and> f \<le> max (microSecondsSinceEpoch (fst e)) (L + 100)))"

abbreviation past_epoch :: "Timestamp \<Rightarrow> bool" where
  "past_epoch w \<equiv> \<not> Timestamp_valid w"

definition down_closed :: "(Timestamp \<Rightarrow> bool) \<Rightarrow> bool" where
  "down_closed P \<longleftrightarrow> (\<forall>v w. P w \<and> v \<le> w \<longrightarrow> P v)"

lemma down_closed [simp]: "down_closed (\<lambda>_. True)" "down_closed past_epoch"
  by (auto simp: down_closed_def Timestamp_valid_def less_eq_Timestamp_def)

lemma covered_frame:
  assumes "covered P L tq" "timers tq' \<subseteq> timers tq" "heap tq' \<subseteq>\<^sub>m heap tq" "timerfd_fires tq' = timerfd_fires tq"
  shows "covered P L tq'"
proof -
  have "heap tq p = Some t" if "heap tq' p = Some t" for p t
    using assms(3) that by (force simp: map_le_def dom_def)
  then show ?thesis using assms(1,2,4) finite_subset unfolding covered_def by fastforce
qed

lemma addTimerInLoop_covered:
  assumes cov: "covered P L tq" and P: "down_closed P" and "microSecondsSinceEpoch now \<le> L"
    and run: "addTimerInLoop now p tq = Inr tq'"
  shows "covered P L tq'"
proof -
  obtain t where t: "heap tq p = Some t" using run by (cases "heap tq p") (simp_all add: addTimerInLoop_def tq_insert_def deref_def)
  let ?w = "expiration t"
  have frame: "heap tq' = heap tq" using addTimerInLoop_frame [OF run] by simp
  have same: "timers tq' = insert (?w, p) (timers tq)"
    using run t by (auto simp: addTimerInLoop_def tq_insert_def deref_def Let_def rbind_eq_Inr
        dest!: resetTimerfd_fires split: if_splits)
  have "\<exists>f. timerfd_fires tq' = Some f \<and> f \<le> max (microSecondsSinceEpoch (fst e)) (L + 100)"
    if e: "e \<in> insert (?w, p) (timers tq)" "P (fst e)" for e
  proof (cases "timers tq = {} \<or> ?w < fst (Min (timers tq))")
    case True
    then have "timerfd_fires tq' = Some (max (microSecondsSinceEpoch ?w) (microSecondsSinceEpoch now + 100))"
      using run t by (auto simp: addTimerInLoop_def tq_insert_def deref_def Let_def dest!: resetTimerfd_fires)
    moreover have "?w \<le> fst e"
    proof (cases "e \<in> timers tq")
      case True
      then have "Min (timers tq) \<le> e" using cov by (simp add: covered_def)
      then have "fst (Min (timers tq)) \<le> fst e" by (auto simp: less_eq_prod_def)
      then show ?thesis using True \<open>timers tq = {} \<or> _\<close> by auto
    qed (use e(1) in auto)
    ultimately show ?thesis using assms(3) by (auto simp: less_eq_Timestamp_def)
  next
    case False
    then have fires: "timerfd_fires tq' = timerfd_fires tq"
      using run t by (auto simp: addTimerInLoop_def tq_insert_def deref_def Let_def)
    obtain d where d: "d \<in> timers tq" "fst d \<le> fst e"
    proof (cases "e \<in> timers tq")
      case False
      then show ?thesis
        using that [of "Min (timers tq)"] e(1) cov \<open>\<not> (timers tq = {} \<or> _)\<close>
        by (auto simp: covered_def simp flip: not_less)
    qed (use that in blast)
    then have "P (fst d)" using P e(2) unfolding down_closed_def by blast
    with cov d(1) obtain f where "timerfd_fires tq = Some f" "f \<le> max (microSecondsSinceEpoch (fst d)) (L + 100)"
      unfolding covered_def by blast
    then show ?thesis using fires d(2) by (auto simp: less_eq_Timestamp_def)
  qed
  then show ?thesis using cov unfolding covered_def same frame by blast
qed

lemma covered_new:
  assumes "covered P L tq"
  shows "covered P L (tq\<lparr>heap := (heap tq)(p \<mapsto> Timer_new cb w ival seq), s_numCreated := seq\<rparr>)"
  using assms by (auto simp: covered_def Timer_new_def)

lemma covered_simps [simp]:
  "covered P L (tq\<lparr>queued := fs\<rparr>) = covered P L tq"
  "covered P L (tq\<lparr>ran := r\<rparr>) = covered P L tq"
  "covered P L (tq\<lparr>callingExpiredTimers := b\<rparr>) = covered P L tq"
  "covered P L (tq\<lparr>cancelingTimers := c\<rparr>) = covered P L tq"
  by (simp_all add: covered_def)

lemma addTimer_covered:
  assumes "covered P L tq" "down_closed P" "microSecondsSinceEpoch now \<le> L"
    and "addTimer malloc inLoop now cb w ival tq = Inr (tid, tq')"
  shows "covered P L tq'"
  using assms(4) addTimerInLoop_covered [OF covered_new [OF assms(1)] assms(2,3)] covered_new [OF assms(1)]
  by (auto simp: addTimer_eq rbind_eq_Inr Let_def split: option.splits if_splits)

lemma cancelInLoop_covered:
  assumes "covered P L tq" "cancelInLoop tid tq = Inr tq'"
  shows "covered P L tq'"
  by (rule covered_frame [OF assms(1)])
    (use assms(2) in \<open>auto simp: cancelInLoop_def rbind_eq_Inr map_le_def split: if_splits\<close>)

lemma tq_cancel_covered:
  assumes "covered P L tq" "tq_cancel inLoop tid tq = Inr tq'"
  shows "covered P L tq'"
  using assms cancelInLoop_covered by (auto simp: tq_cancel_def split: if_splits)

lemma timer_calls_covered:
  assumes "down_closed P" "\<And>k. microSecondsSinceEpoch (later k) \<le> L"
  shows "covered P L tq \<Longrightarrow> timer_calls malloc later cs tq = Inr tq' \<Longrightarrow> covered P L tq'"
proof (induction cs arbitrary: tq)
  case (Cons c cs)
  then show ?case
    by (cases c) (auto simp: rbind_eq_Inr intro: addTimer_covered [OF _ assms] tq_cancel_covered)
qed simp

lemma run_expired_covered:
  assumes "down_closed P" "\<And>k. microSecondsSinceEpoch (later k) \<le> L"
  shows "covered P L tq \<Longrightarrow> run_expired malloc cbs later its tq = Inr tq' \<Longrightarrow> covered P L tq'"
proof (induction its arbitrary: tq)
  case (Cons it its)
  then show ?case by (auto simp: rbind_eq_Inr dest!: timer_calls_covered [OF assms, rotated])
qed simp

text \<open>A restarted timer is due after \<open>now\<close>, so \<open>reset\<close> does not take its time for invalid.\<close>

lemma reset_loop_covered:
  assumes "Timestamp_valid now"
  shows "covered past_epoch L tq \<Longrightarrow> reset_loop its now tq = Inr tq' \<Longrightarrow> covered past_epoch L tq'"
proof (induction its arbitrary: tq)
  case (Cons it its)
  let ?p = "snd it"
  obtain t where t: "heap tq ?p = Some t" "deref ?p tq = Inr t"
    using Cons.prems(2) by (cases "heap tq ?p") (simp_all add: deref_def)
  show ?case
  proof (cases "repeat t \<and> (?p, sequence t) \<notin> cancelingTimers tq")
    case True
    then obtain e where e: "addTime now (interval t) = Inr e" "Timer_restart now t = Inr (t\<lparr>expiration := e\<rparr>)"
      using Cons.prems(2) t(2) by (auto simp: rbind_eq_Inr Timer_restart_def)
    have pos: "double_positive (interval t)" using Cons.prems(1) t(1) True by (auto simp: covered_def)
    then have "Timestamp_valid e"
      using addTime_ge [OF e(1)] assms by (auto simp: Timestamp_valid_def less_eq_Timestamp_def)
    then have "covered past_epoch L (tq\<lparr>heap := (heap tq)(?p \<mapsto> t\<lparr>expiration := e\<rparr>), timers := insert (e, ?p) (timers tq),
        activeTimers := insert (?p, sequence t) (activeTimers tq)\<rparr>)"
      using Cons.prems(1) pos by (auto simp: covered_def)
    then show ?thesis
      using Cons.IH Cons.prems(2) True t(2) e(2) by (auto simp: tq_insert_def deref_def Let_def)
  next
    case False
    have "covered past_epoch L (tq\<lparr>heap := (heap tq)(?p := None)\<rparr>)"
      by (rule covered_frame [OF Cons.prems(1)]) (auto simp: map_le_def)
    then show ?thesis using Cons.IH Cons.prems(2) False t(2) by (auto simp: if_not_P)
  qed
qed simp

lemma tq_reset_covered:
  assumes inv: "tq_inv (map snd its) tq" and "covered past_epoch L tq" "Timestamp_valid now"
    "microSecondsSinceEpoch after \<le> L" and run: "tq_reset its now after tq = Inr tq'"
  shows "covered (\<lambda>_. True) L tq'"
proof -
  obtain tq1 where tq1: "reset_loop its now tq = Inr tq1"
      "rbind (if timers tq1 = {} then Inr Timestamp_default
              else rbind (deref (snd (Min (timers tq1))) tq1) (\<lambda>t. Inr (expiration t))) (\<lambda>nextExpire.
         if Timestamp_valid nextExpire then resetTimerfd after nextExpire tq1 else Inr tq1) = Inr tq'"
    using run by (auto simp: tq_reset_def rbind_eq_Inr)
  have cov: "covered past_epoch L tq1" using reset_loop_covered [OF assms(3,2) tq1(1)] .
  have inv1: "tq_inv [] tq1" using reset_loop_ends [of its "[]" tq now] inv tq1(1) by simp
  show ?thesis
  proof (cases "timers tq1 = {}")
    case True
    then show ?thesis using tq1(2) cov by (simp add: Timestamp_default_def Timestamp_valid_def covered_def)
  next
    case False
    let ?m = "Min (timers tq1)"
    have m: "?m \<in> timers tq1" "\<forall>e\<in>timers tq1. fst ?m \<le> fst e"
      using False tq_invD(1) [OF inv1] by (auto simp: less_eq_prod_def dest!: Min_le)
    then obtain t where t: "deref (snd ?m) tq1 = Inr t" "expiration t = fst ?m"
      using tq_invD(5) [OF inv1, of "fst ?m" "snd ?m"] by (auto simp: deref_def)
    show ?thesis
    proof (cases "Timestamp_valid (fst ?m)")
      case True
      then have "tq' = tq1\<lparr>timerfd_fires := Some (max (microSecondsSinceEpoch (fst ?m)) (microSecondsSinceEpoch after + 100))\<rparr>"
        using tq1(2) t False by (auto dest!: resetTimerfd_fires)
      moreover have "max (microSecondsSinceEpoch (fst ?m)) (microSecondsSinceEpoch after + 100) \<le>
          max (microSecondsSinceEpoch (fst e)) (L + 100)" if "e \<in> timers tq1" for e
      proof -
        have "microSecondsSinceEpoch (fst ?m) \<le> microSecondsSinceEpoch (fst e)"
          using m(2) that by (simp add: less_eq_Timestamp_def)
        then show ?thesis using assms(4) by linarith
      qed
      ultimately show ?thesis using cov by (auto simp: covered_def)
    next
      case invalid: False
      then have tq': "tq' = tq1" using tq1(2) t False by simp
      obtain f where f: "timerfd_fires tq1 = Some f" "f \<le> max (microSecondsSinceEpoch (fst ?m)) (L + 100)"
        using cov m(1) invalid unfolding covered_def by blast
      have "f \<le> max (microSecondsSinceEpoch (fst e)) (L + 100)" if "e \<in> timers tq1" for e
        using f(2) m(2) that by (fastforce simp: less_eq_Timestamp_def)
      then show ?thesis using cov f(1) by (auto simp: covered_def tq')
    qed
  qed
qed

lemma tq_handleRead_covered:
  assumes inv: "tq_inv [] tq" and spec: "malloc_spec malloc" and cov: "covered (\<lambda>_. True) L tq"
    and now: "Timestamp_valid now" and later: "\<And>k. microSecondsSinceEpoch (later k) \<le> L"
    and after: "microSecondsSinceEpoch after \<le> L"
    and run: "tq_handleRead malloc cbs n now later after tq = Inr tq'"
  shows "covered (\<lambda>_. True) L tq'"
proof -
  let ?exp = "sorted_list_of_set {e \<in> timers tq. fst e \<le> now}"
  obtain tq1 where tq1: "getExpired now (readTimerfd n tq) = Inr (?exp, tq1)" "tq_inv (map snd ?exp) tq1"
      "timers tq1 = {e \<in> timers tq. now < fst e}" "heap tq1 = heap tq"
    using getExpired_ok [of "[]" "readTimerfd n tq" now] inv by auto
  let ?tq1 = "tq1\<lparr>callingExpiredTimers := True, cancelingTimers := {}\<rparr>"
  obtain tq2 where tq2: "run_expired malloc cbs later ?exp ?tq1 = Inr tq2"
      "tq_reset ?exp now after (tq2\<lparr>callingExpiredTimers := False\<rparr>) = Inr tq'"
    using run tq1(1) by (auto simp: tq_handleRead_def rbind_eq_Inr)
  have "covered past_epoch L ?tq1"
    using cov now tq1(3,4)
    by (auto simp: covered_def Timestamp_valid_def less_Timestamp_def Timestamp_less_def)
  then have "covered past_epoch L (tq2\<lparr>callingExpiredTimers := False\<rparr>)"
    using run_expired_covered [OF _ later _ tq2(1), of past_epoch] by simp
  moreover have "tq_inv (map snd ?exp) (tq2\<lparr>callingExpiredTimers := False\<rparr>)"
    using run_expired_ends [of "map snd ?exp" ?tq1 malloc ?exp cbs later] tq1(2) spec tq2(1) by simp
  ultimately show ?thesis using tq_reset_covered now after tq2(2) by blast
qed

text \<open>The clock readings of an operation.\<close>

fun tq_clock :: "tq_op \<Rightarrow> Timestamp set" where
  "tq_clock (AddOp now cb when ival) = {now}"
| "tq_clock (QueuedOp now) = {now}"
| "tq_clock (ExpireOp n now later after) = {now, after} \<union> range later"
| "tq_clock oper = {}"

lemma tq_exec_covered:
  assumes inv: "tq_inv [] tq" and spec: "malloc_spec malloc" and cov: "covered (\<lambda>_. True) L tq"
    and clock: "\<forall>c\<in>tq_clock oper. Timestamp_valid c \<and> microSecondsSinceEpoch c \<le> L"
    and run: "tq_exec malloc cbs oper tq = Inr tq'"
  shows "covered (\<lambda>_. True) L tq'"
proof (cases oper)
  case (AddOp now cb w ival)
  then show ?thesis using run clock addTimer_covered [OF cov] by (auto simp: rbind_eq_Inr)
next
  case (AddBegin cb w ival)
  then show ?thesis
    using run covered_new [OF cov] by (auto simp: addTimer_begin_def rbind_eq_Inr Let_def split: option.splits)
next
  case (AddReturn p)
  then show ?thesis using run cov by (auto simp: rbind_eq_Inr)
next
  case (CancelOp inLoop tid)
  then show ?thesis using run tq_cancel_covered [OF cov] by simp
next
  case (QueuedOp now)
  have now: "microSecondsSinceEpoch now \<le> L" using clock QueuedOp by simp
  show ?thesis
  proof (cases "queued tq")
    case Nil
    then show ?thesis using run cov QueuedOp by simp
  next
    case (Cons f fs)
    have cov': "covered (\<lambda>_. True) L (tq\<lparr>queued := fs\<rparr>)" using cov by simp
    show ?thesis
      using run QueuedOp Cons addTimerInLoop_covered [OF cov' _ now] cancelInLoop_covered [OF cov'] by (cases f) simp_all
  qed
next
  case (ExpireOp n now later after)
  then show ?thesis using run clock tq_handleRead_covered [OF inv spec cov, of now later after cbs n tq'] by auto
qed

lemma tq_run_covered:
  assumes spec: "malloc_spec malloc"
  shows "tq_inv [] tq \<Longrightarrow> covered (\<lambda>_. True) L tq \<Longrightarrow>
    \<forall>oper\<in>set opers. \<forall>c\<in>tq_clock oper. Timestamp_valid c \<and> microSecondsSinceEpoch c \<le> L \<Longrightarrow>
    tq_run malloc cbs opers tq = Inr tq' \<Longrightarrow> covered (\<lambda>_. True) L tq'"
proof (induction opers arbitrary: tq)
  case (Cons oper opers)
  obtain tq1 where tq1: "tq_exec malloc cbs oper tq = Inr tq1" "tq_run malloc cbs opers tq1 = Inr tq'"
    using Cons.prems(4) by (auto simp: rbind_eq_Inr)
  have "tq_pre oper tq" using tq1(1) by (cases oper) (auto simp: addTimer_return_def deref_def rbind_eq_Inr split: option.splits)
  then have "tq_inv [] tq1" using tq_exec_ends [OF Cons.prems(1) spec, of oper cbs] tq1(1) by simp
  moreover have "covered (\<lambda>_. True) L tq1"
    using tq_exec_covered [OF Cons.prems(1) spec Cons.prems(2) _ tq1(1)] Cons.prems(3) by simp
  ultimately show ?case using Cons.IH Cons.prems(3) tq1(2) by simp
qed simp

section \<open>Properties\<close>

text \<open>C26: no waiting timer is forgotten. From a new queue, after any operations (adding, cancelling, running queued
  functors, expiring with any result of reading the descriptor, callbacks that add and cancel), whose
  clock readings are valid and at most \<open>L\<close>, the descriptor is armed whenever a timer waits, and fires no later
  than any waiting timer is due, or than 100 microseconds after \<open>L\<close> when that is past.\<close>

theorem timerfd_covers_timers:
  assumes "malloc_spec malloc" "tq_run malloc cbs opers TimerQueue_new = Inr tq"
    "\<forall>oper\<in>set opers. \<forall>c\<in>tq_clock oper. Timestamp_valid c \<and> microSecondsSinceEpoch c \<le> L"
    "(w, p) \<in> timers tq"
  shows "\<exists>f. timerfd_fires tq = Some f \<and> f \<le> max (microSecondsSinceEpoch w) (L + 100)"
proof -
  have "covered (\<lambda>_. True) L TimerQueue_new" by (simp add: covered_def TimerQueue_new_def)
  from tq_run_covered [OF assms(1) new_queue_inv this assms(3,2)] assms(4) show ?thesis
    by (fastforce simp: covered_def)
qed

theorem timerfd_covers_timers_witness:
  "\<exists>tq f. tq_run sample_malloc (\<lambda>_. []) [AddOp (Timestamp 10) 7 (Timestamp 1000) (Finite 1 0),
      AddOp (Timestamp 20) 8 (Timestamp 900) (Finite 0 0), CancelOp True (2, 2)] TimerQueue_new = Inr tq \<and>
    (Timestamp 1000, 1) \<in> timers tq \<and> timerfd_fires tq = Some f \<and> f \<le> 1000"
proof -
  let ?ops = "[AddOp (Timestamp 10) 7 (Timestamp 1000) (Finite 1 0),
      AddOp (Timestamp 20) 8 (Timestamp 900) (Finite 0 0), CancelOp True (2, 2)]"
  obtain tq where tq: "tq_run sample_malloc (\<lambda>_. []) ?ops TimerQueue_new = Inr tq" "(Timestamp 1000, 1) \<in> timers tq"
    by (simp add: TimerQueue_new_def addTimer_eq sample_malloc_def int64_def addTimerInLoop_def tq_insert_def
        deref_def Timer_new_def resetTimerfd_def howMuchTimeFromNow_def tq_cancel_def cancelInLoop_def Let_def
        less_Timestamp_def Timestamp_less_def)
  have "\<forall>oper\<in>set ?ops. \<forall>c\<in>tq_clock oper. Timestamp_valid c \<and> microSecondsSinceEpoch c \<le> 20"
    by (simp add: Timestamp_valid_def)
  from timerfd_covers_timers [OF sample_malloc_spec tq(1) this tq(2)] tq show ?thesis by auto
qed

text \<open>C28: \<open>addTimer\<close> of another thread can read a deleted timer. It queues the insertion and then reads the
  sequence number through the pointer. If the loop runs in between, inserts the timer and finds it due,
  a timer that does not repeat has been deleted when its number is read.\<close>

theorem addTimer_race_use_after_free:
  assumes inv: "tq_inv [] tq" and spec: "malloc_spec malloc" and "queued tq = []"
    and ival: "\<not> double_positive ival" and due: "when \<le> now"
    and add: "addTimer_begin malloc False now\<^sub>0 cb when ival tq = Inr (p, tq\<^sub>1)"
    and loop: "tq_run malloc cbs [QueuedOp now\<^sub>1, ExpireOp n now later after] tq\<^sub>1 = Inr tq\<^sub>2"
  shows "addTimer_return p tq\<^sub>2 = Inl UseAfterFree"
proof -
  obtain seq where p: "heap tq p = None" "p < UINTPTR_MAX" and seq: "seq = s_numCreated tq + 1"
      and tq1: "tq\<^sub>1 = tq\<lparr>heap := (heap tq)(p \<mapsto> Timer_new cb when ival seq), s_numCreated := seq,
        queued := [AddTimerInLoopFn p]\<rparr>"
    using add spec \<open>queued tq = []\<close>
    by (auto simp: addTimer_begin_def malloc_spec_def int64_def Let_def split: option.splits if_splits)
  let ?t = "Timer_new cb when ival seq"
  let ?tq = "tq\<lparr>heap := (heap tq)(p \<mapsto> ?t), s_numCreated := seq, queued := []\<rparr>"
  obtain tq3 where tq3: "addTimerInLoop now\<^sub>1 p ?tq = Inr tq3" "tq_handleRead malloc cbs n now later after tq3 = Inr tq\<^sub>2"
    using loop tq1 by (auto simp: rbind_eq_Inr)
  have "tq_inv [p] (tq\<lparr>heap := (heap tq)(p \<mapsto> ?t), s_numCreated := seq\<rparr>)"
    using flight_new [OF inv p, of ?t] seq by (simp add: Timer_new_def)
  moreover have "?tq = tq\<lparr>heap := (heap tq)(p \<mapsto> ?t), s_numCreated := seq\<rparr>"
    using \<open>queued tq = []\<close> by (cases tq) simp
  ultimately have "tq_inv [p] ?tq" by simp
  then have "tq_inv [] tq3" using addTimerInLoop_ends [of p "[]" ?tq now\<^sub>1] tq3(1) by simp
  moreover have "(when, p) \<in> timers tq3" "heap tq3 p = Some ?t"
    using tq3(1) addTimerInLoop_frame [OF tq3(1)]
    by (auto simp: addTimerInLoop_def tq_insert_def deref_def Timer_new_def Let_def rbind_eq_Inr
        dest!: resetTimerfd_fires split: if_splits)
  ultimately have "\<exists>c. reset_done now c p ?t tq\<^sub>2"
    using handleRead_effect [OF _ spec tq3(2)] due by (auto simp: Let_def)
  then show ?thesis using ival by (auto simp: reset_done_def Timer_new_def addTimer_return_def deref_def)
qed

theorem addTimer_race_use_after_free_witness:
  "\<exists>tq\<^sub>1 tq\<^sub>2. addTimer_begin sample_malloc False (Timestamp 0) 7 (Timestamp 900) (Finite 0 0) TimerQueue_new = Inr (1, tq\<^sub>1) \<and>
    tq_run sample_malloc (\<lambda>_. []) [QueuedOp (Timestamp 10), ExpireOp 8 (Timestamp 2000) (\<lambda>_. Timestamp 2050) (Timestamp 2100)] tq\<^sub>1 = Inr tq\<^sub>2 \<and>
    addTimer_return 1 tq\<^sub>2 = Inl UseAfterFree"
proof -
  obtain tq1 where tq1: "addTimer_begin sample_malloc False (Timestamp 0) 7 (Timestamp 900) (Finite 0 0) TimerQueue_new = Inr (1, tq1)"
      "tq1 = TimerQueue_new\<lparr>heap := [1 \<mapsto> Timer_new 7 (Timestamp 900) (Finite 0 0) 1], s_numCreated := 1,
        queued := [AddTimerInLoopFn 1]\<rparr>"
    by (simp add: addTimer_begin_def sample_malloc_def int64_def TimerQueue_new_def)
  have S: "{e. e = (Timestamp 900, 1) \<and> e < (Timestamp 2000, UINTPTR_MAX)} = {(Timestamp 900, Suc 0)}"
    by (auto simp: less_Timestamp_def Timestamp_less_def less_eq_Timestamp_def)
  obtain tq2 where tq2: "tq_run sample_malloc (\<lambda>_. [])
      [QueuedOp (Timestamp 10), ExpireOp 8 (Timestamp 2000) (\<lambda>_. Timestamp 2050) (Timestamp 2100)] tq1 = Inr tq2"
    using S by (simp add: tq1(2) TimerQueue_new_def tq_handleRead_def readTimerfd_def getExpired_def addTimerInLoop_def
        tq_insert_def deref_def Timer_new_def tq_reset_def resetTimerfd_def howMuchTimeFromNow_def int64_def
        Timestamp_valid_def Timestamp_default_def Let_def)
  have "addTimer_return 1 tq2 = Inl UseAfterFree"
    by (rule addTimer_race_use_after_free [OF new_queue_inv sample_malloc_spec _ _ _ tq1(1) tq2])
      (simp_all add: TimerQueue_new_def less_eq_Timestamp_def)
  then show ?thesis using tq1(1) tq2 by blast
qed

end
