(* ===== verification/Net_Poller.thy ===== *)
theory Net_Poller
  imports Base_Timestamp
begin

text \<open>
  \<open>src/net/Channel\<close>, \<open>Poller\<close> and \<open>EPollPoller\<close>: a channel holds the interest mask of a file descriptor,
  the poller keeps the kernel's epoll instance in step with it. Channels live in a store addressed by
  numbers, because the poller and the kernel hold pointers to them. \<open>epoll_ctl\<close> and \<open>epoll_wait\<close> are
  arguments; \<open>epoll_spec\<close> states what \<open>epoll_ctl(2)\<close> documents.
\<close>

unbundle bit_operations_syntax

section \<open>Channel\<close>

type_synonym events = "32 word"
type_synonym channel_id = nat

definition EPOLLIN :: events where "EPOLLIN = 1"
definition EPOLLPRI :: events where "EPOLLPRI = 2"
definition EPOLLOUT :: events where "EPOLLOUT = 4"
definition EPOLLERR :: events where "EPOLLERR = 8"
definition EPOLLHUP :: events where "EPOLLHUP = 16"

definition kNoneEvent :: events where "kNoneEvent = 0"
definition kReadEvent :: events where "kReadEvent = EPOLLIN OR EPOLLPRI"
definition kWriteEvent :: events where "kWriteEvent = EPOLLOUT"

lemmas event_bits = EPOLLIN_def EPOLLPRI_def EPOLLOUT_def EPOLLERR_def EPOLLHUP_def
  kNoneEvent_def kReadEvent_def kWriteEvent_def

text \<open>The state \<open>index_\<close> records for the poller.\<close>

definition kNew :: int where "kNew = - 1"
definition kAdded :: int where "kAdded = 1"
definition kDeleted :: int where "kDeleted = 2"

lemmas index_defs = kNew_def kAdded_def kDeleted_def

text \<open>Which of the four callbacks are set is part of the channel.\<close>

record Channel =
  ch_fd :: int
  ch_events :: events
  ch_revents :: events
  ch_index :: int
  ch_tied :: bool
  has_readCallback :: bool
  has_writeCallback :: bool
  has_closeCallback :: bool
  has_errorCallback :: bool

definition Channel_new :: "int \<Rightarrow> Channel" where
  "Channel_new fd = \<lparr>ch_fd = fd, ch_events = 0, ch_revents = 0, ch_index = - 1, ch_tied = False,
     has_readCallback = False, has_writeCallback = False, has_closeCallback = False,
     has_errorCallback = False\<rparr>"

definition Channel_tie :: "Channel \<Rightarrow> Channel" where
  "Channel_tie c = c\<lparr>ch_tied := True\<rparr>"

definition isNoneEvent :: "Channel \<Rightarrow> bool" where
  "isNoneEvent c \<longleftrightarrow> ch_events c = kNoneEvent"

definition isWriting :: "Channel \<Rightarrow> bool" where
  "isWriting c \<longleftrightarrow> ch_events c AND kWriteEvent \<noteq> 0"

definition isReading :: "Channel \<Rightarrow> bool" where
  "isReading c \<longleftrightarrow> ch_events c AND kReadEvent \<noteq> 0"

text \<open>The masks the five setters compute before they call \<open>update\<close>.\<close>

datatype interest_op = EnableReading | DisableReading | EnableWriting | DisableWriting | DisableAll

fun interest_mask :: "interest_op \<Rightarrow> events \<Rightarrow> events" where
  "interest_mask EnableReading e = e OR kReadEvent"
| "interest_mask DisableReading e = e AND NOT kReadEvent"
| "interest_mask EnableWriting e = e OR kWriteEvent"
| "interest_mask DisableWriting e = e AND NOT kWriteEvent"
| "interest_mask DisableAll e = kNoneEvent"

subsection \<open>Dispatch\<close>

datatype callback = CloseCb | ErrorCb | ReadCb Timestamp | WriteCb

definition handleEventWithGuard :: "Channel \<Rightarrow> Timestamp \<Rightarrow> callback list" where
  "handleEventWithGuard c receiveTime =
     (if ch_revents c AND EPOLLHUP \<noteq> 0 \<and> \<not> ch_revents c AND EPOLLIN \<noteq> 0
      then (if has_closeCallback c then [CloseCb] else []) else [])
     @ (if ch_revents c AND EPOLLERR \<noteq> 0 then (if has_errorCallback c then [ErrorCb] else []) else [])
     @ (if ch_revents c AND (EPOLLIN OR EPOLLPRI) \<noteq> 0
        then (if has_readCallback c then [ReadCb receiveTime] else []) else [])
     @ (if ch_revents c AND EPOLLOUT \<noteq> 0 then (if has_writeCallback c then [WriteCb] else []) else [])"

text \<open>\<open>alive\<close>: \<open>tie_.lock()\<close> gives a pointer.\<close>

definition handleEvent :: "Channel \<Rightarrow> bool \<Rightarrow> Timestamp \<Rightarrow> callback list" where
  "handleEvent c alive receiveTime =
     (if ch_tied c then (if alive then handleEventWithGuard c receiveTime else [])
      else handleEventWithGuard c receiveTime)"

section \<open>EPollPoller\<close>

datatype ctl_op = EPOLL_CTL_ADD | EPOLL_CTL_MOD | EPOLL_CTL_DEL

text \<open>\<open>epoll_ctl\<close> on the kernel's state: operation, descriptor, mask, user data; \<open>None\<close> for \<open>-1\<close>.\<close>

type_synonym 'k epoll_ctl = "'k \<Rightarrow> ctl_op \<Rightarrow> int \<Rightarrow> events \<Rightarrow> channel_id \<Rightarrow> 'k option"

record 'k EPollPoller =
  channels :: "int \<rightharpoonup> channel_id"
  eventList_size :: nat
  kernel :: 'k
  chan :: "channel_id \<Rightarrow> Channel"
  ctl_errors :: nat

definition kInitEventListSize :: nat where "kInitEventListSize = 16"

definition EPollPoller_new :: "'k \<Rightarrow> (channel_id \<Rightarrow> Channel) \<Rightarrow> 'k EPollPoller" where
  "EPollPoller_new k cs =
     \<lparr>channels = Map.empty, eventList_size = kInitEventListSize, kernel = k, chan = cs, ctl_errors = 0\<rparr>"

definition hasChannel :: "'k EPollPoller \<Rightarrow> channel_id \<Rightarrow> bool" where
  "hasChannel p c \<longleftrightarrow> channels p (ch_fd (chan p c)) = Some c"

definition set_chan :: "channel_id \<Rightarrow> (Channel \<Rightarrow> Channel) \<Rightarrow> 'k EPollPoller \<Rightarrow> 'k EPollPoller" where
  "set_chan c f p = p\<lparr>chan := (chan p)(c := f (chan p c))\<rparr>"

text \<open>
  \<open>update\<close>: a failing deletion is logged as an error and ignored, any other failure is fatal.
\<close>

definition epoll_update :: "'k epoll_ctl \<Rightarrow> ctl_op \<Rightarrow> channel_id \<Rightarrow> 'k EPollPoller \<Rightarrow> 'k EPollPoller result" where
  "epoll_update ctl operation c p =
     (case ctl (kernel p) operation (ch_fd (chan p c)) (ch_events (chan p c)) c of
        Some k \<Rightarrow> Inr (p\<lparr>kernel := k\<rparr>)
      | None \<Rightarrow>
          if operation = EPOLL_CTL_DEL then Inr (p\<lparr>ctl_errors := ctl_errors p + 1\<rparr>)
          else Inl (Fatal ''epoll_ctl add or del error''))"

definition updateChannel :: "'k epoll_ctl \<Rightarrow> channel_id \<Rightarrow> 'k EPollPoller \<Rightarrow> 'k EPollPoller result" where
  "updateChannel ctl c p =
     (let index = ch_index (chan p c)
      in if index = kNew \<or> index = kDeleted
         then let p1 = (if index = kNew
                        then p\<lparr>channels := (channels p)(ch_fd (chan p c) \<mapsto> c)\<rparr> else p)
              in rbind (epoll_update ctl EPOLL_CTL_ADD c p1) (\<lambda>p2.
                   Inr (set_chan c (\<lambda>h. h\<lparr>ch_index := kAdded\<rparr>) p2))
         else if isNoneEvent (chan p c)
         then rbind (epoll_update ctl EPOLL_CTL_DEL c p) (\<lambda>p2.
                Inr (set_chan c (\<lambda>h. h\<lparr>ch_index := kDeleted\<rparr>) p2))
         else epoll_update ctl EPOLL_CTL_MOD c p)"

definition removeChannel :: "'k epoll_ctl \<Rightarrow> channel_id \<Rightarrow> 'k EPollPoller \<Rightarrow> 'k EPollPoller result" where
  "removeChannel ctl c p =
     (let p1 = p\<lparr>channels := (channels p)(ch_fd (chan p c) := None)\<rparr>
      in rbind (if ch_index (chan p c) = kAdded then epoll_update ctl EPOLL_CTL_DEL c p1 else Inr p1)
           (\<lambda>p2. Inr (set_chan c (\<lambda>h. h\<lparr>ch_index := kNew\<rparr>) p2)))"

text \<open>A setter of the channel: the new mask, then \<open>update\<close> through the loop.\<close>

definition set_interest ::
  "'k epoll_ctl \<Rightarrow> interest_op \<Rightarrow> channel_id \<Rightarrow> 'k EPollPoller \<Rightarrow> 'k EPollPoller result" where
  "set_interest ctl oper c p =
     updateChannel ctl c (set_chan c (\<lambda>h. h\<lparr>ch_events := interest_mask oper (ch_events h)\<rparr>) p)"

fun fillActiveChannels ::
  "(events \<times> channel_id) list \<Rightarrow> 'k EPollPoller \<Rightarrow> 'k EPollPoller \<times> channel_id list" where
  "fillActiveChannels [] p = (p, [])"
| "fillActiveChannels ((ev, c) # es) p =
     (let (p', active) = fillActiveChannels es (set_chan c (\<lambda>h. h\<lparr>ch_revents := ev\<rparr>) p)
      in (p', c # active))"

text \<open>
  \<open>poll\<close> on the answer of \<open>epoll_wait\<close>: \<open>errno\<close>, or the reported events. The second component of the
  result is the list of active channels, the third whether an error was logged.
\<close>

definition EINTR :: int where "EINTR = 4"

definition EPollPoller_poll ::
  "int + (events \<times> channel_id) list \<Rightarrow> 'k EPollPoller \<Rightarrow> 'k EPollPoller \<times> channel_id list \<times> bool" where
  "EPollPoller_poll answer p =
     (case answer of
        Inl saveErrno \<Rightarrow> (p, [], saveErrno \<noteq> EINTR)
      | Inr evs \<Rightarrow>
          if evs = [] then (p, [], False)
          else let (p1, active) = fillActiveChannels evs p
               in (if eventList_size p1 = length evs then p1\<lparr>eventList_size := eventList_size p1 * 2\<rparr>
                   else p1, active, False))"

section \<open>The kernel\<close>

text \<open>
  \<open>interest k\<close> is the interest list of the epoll instance. Adding needs a descriptor that is not in
  it and modifying one that is; deleting one that is in it succeeds.
\<close>

definition epoll_spec :: "'k epoll_ctl \<Rightarrow> ('k \<Rightarrow> int \<rightharpoonup> events \<times> channel_id) \<Rightarrow> bool" where
  "epoll_spec ctl interest \<longleftrightarrow>
     (\<forall>k fd ev c k'. ctl k EPOLL_CTL_ADD fd ev c = Some k' \<longrightarrow>
        interest k fd = None \<and> interest k' = (interest k)(fd \<mapsto> (ev, c))) \<and>
     (\<forall>k fd ev c k'. ctl k EPOLL_CTL_MOD fd ev c = Some k' \<longrightarrow>
        interest k fd \<noteq> None \<and> interest k' = (interest k)(fd \<mapsto> (ev, c))) \<and>
     (\<forall>k fd ev c k'. ctl k EPOLL_CTL_DEL fd ev c = Some k' \<longrightarrow>
        interest k' = (interest k)(fd := None)) \<and>
     (\<forall>k fd ev c. interest k fd \<noteq> None \<longrightarrow> ctl k EPOLL_CTL_DEL fd ev c \<noteq> None)"

text \<open>
  The invariant: a channel is in the map exactly when its index says so, and in the kernel's interest
  list, with its current mask and its own address, exactly when it is marked as added.
\<close>

definition poller_inv :: "('k \<Rightarrow> int \<rightharpoonup> events \<times> channel_id) \<Rightarrow> 'k EPollPoller \<Rightarrow> bool" where
  "poller_inv interest p \<longleftrightarrow>
     (\<forall>c. ch_index (chan p c) \<in> {kNew, kAdded, kDeleted}) \<and>
     (\<forall>fd c. channels p fd = Some c \<longleftrightarrow>
        ch_fd (chan p c) = fd \<and> ch_index (chan p c) \<in> {kAdded, kDeleted}) \<and>
     (\<forall>fd ev c. interest (kernel p) fd = Some (ev, c) \<longleftrightarrow>
        ch_fd (chan p c) = fd \<and> ch_index (chan p c) = kAdded \<and> ev = ch_events (chan p c))"


lemma poller_invD:
  assumes "poller_inv interest p"
  shows "ch_index (chan p c) = kNew \<or> ch_index (chan p c) = kAdded \<or> ch_index (chan p c) = kDeleted"
    "channels p fd = Some c \<longleftrightarrow> ch_fd (chan p c) = fd \<and> (ch_index (chan p c) = kAdded \<or> ch_index (chan p c) = kDeleted)"
    "interest (kernel p) fd = Some (ev, c) \<longleftrightarrow>
      ch_fd (chan p c) = fd \<and> ch_index (chan p c) = kAdded \<and> ev = ch_events (chan p c)"
  using assms by (auto simp: poller_inv_def)

lemma poller_invI:
  assumes "\<And>c. ch_index (chan p c) = kNew \<or> ch_index (chan p c) = kAdded \<or> ch_index (chan p c) = kDeleted"
    and "\<And>fd c. channels p fd = Some c \<longleftrightarrow>
      ch_fd (chan p c) = fd \<and> (ch_index (chan p c) = kAdded \<or> ch_index (chan p c) = kDeleted)"
    and "\<And>fd ev c. interest (kernel p) fd = Some (ev, c) \<longleftrightarrow>
      ch_fd (chan p c) = fd \<and> ch_index (chan p c) = kAdded \<and> ev = ch_events (chan p c)"
  shows "poller_inv interest p"
  unfolding poller_inv_def using assms by blast

lemma index_distinct [simp]:
  "kNew \<noteq> kAdded" "kAdded \<noteq> kNew" "kNew \<noteq> kDeleted" "kDeleted \<noteq> kNew"
  "kAdded \<noteq> kDeleted" "kDeleted \<noteq> kAdded"
  by (simp_all add: index_defs)

text \<open>Two registered channels never share a descriptor.\<close>

lemma registered_unique:
  assumes "poller_inv interest p" "ch_index (chan p c) \<noteq> kNew" "ch_index (chan p d) \<noteq> kNew"
    "ch_fd (chan p c) = ch_fd (chan p d)"
  shows "c = d"
proof -
  have "channels p (ch_fd (chan p c)) = Some c" "channels p (ch_fd (chan p c)) = Some d"
    using assms poller_invD(1) [OF assms(1)] by (auto simp: poller_invD(2) [OF assms(1)])
  then show ?thesis by simp
qed

lemma other_registered:
  assumes "poller_inv interest p" "ch_index (chan p c) \<noteq> kNew" "d \<noteq> c"
  shows "ch_index (chan p d) = kAdded \<Longrightarrow> ch_fd (chan p d) \<noteq> ch_fd (chan p c)"
    "ch_index (chan p d) = kDeleted \<Longrightarrow> ch_fd (chan p d) \<noteq> ch_fd (chan p c)"
  using registered_unique [OF assms(1,2), of d] assms(3) by auto

text \<open>The three outcomes of a setter: added, deleted, modified.\<close>

lemma set_interest_add:
  assumes "set_interest ctl oper c p = Inr p'"
    and "ch_index (chan p c) = kNew \<or> ch_index (chan p c) = kDeleted"
  shows "\<exists>k. ctl (kernel p) EPOLL_CTL_ADD (ch_fd (chan p c)) (interest_mask oper (ch_events (chan p c))) c = Some k \<and>
    p' = p\<lparr>channels := (if ch_index (chan p c) = kNew then (channels p)(ch_fd (chan p c) \<mapsto> c) else channels p),
           kernel := k,
           chan := (chan p)(c := (chan p c)\<lparr>ch_events := interest_mask oper (ch_events (chan p c)),
                                            ch_index := kAdded\<rparr>)\<rparr>"
  using assms
  by (auto simp: set_interest_def updateChannel_def set_chan_def epoll_update_def rbind_eq_Inr Let_def
      split: option.splits if_splits)

lemma set_interest_del:
  assumes "set_interest ctl oper c p = Inr p'" "ch_index (chan p c) = kAdded"
    and "interest_mask oper (ch_events (chan p c)) = kNoneEvent"
    and "ctl (kernel p) EPOLL_CTL_DEL (ch_fd (chan p c)) kNoneEvent c \<noteq> None"
  shows "\<exists>k. ctl (kernel p) EPOLL_CTL_DEL (ch_fd (chan p c)) kNoneEvent c = Some k \<and>
    p' = p\<lparr>kernel := k,
           chan := (chan p)(c := (chan p c)\<lparr>ch_events := kNoneEvent, ch_index := kDeleted\<rparr>)\<rparr>"
  using assms
  by (auto simp: set_interest_def updateChannel_def set_chan_def epoll_update_def rbind_eq_Inr Let_def
      isNoneEvent_def split: option.splits if_splits)

lemma set_interest_mod:
  assumes "set_interest ctl oper c p = Inr p'" "ch_index (chan p c) = kAdded"
    and "interest_mask oper (ch_events (chan p c)) \<noteq> kNoneEvent"
  shows "\<exists>k. ctl (kernel p) EPOLL_CTL_MOD (ch_fd (chan p c)) (interest_mask oper (ch_events (chan p c))) c = Some k \<and>
    p' = p\<lparr>kernel := k,
           chan := (chan p)(c := (chan p c)\<lparr>ch_events := interest_mask oper (ch_events (chan p c))\<rparr>)\<rparr>"
  using assms
  by (auto simp: set_interest_def updateChannel_def set_chan_def epoll_update_def rbind_eq_Inr Let_def
      isNoneEvent_def split: option.splits if_splits)

lemma epoll_specD:
  assumes "epoll_spec ctl interest"
  shows "ctl k EPOLL_CTL_ADD fd ev c = Some k' \<Longrightarrow> interest k fd = None \<and> interest k' = (interest k)(fd \<mapsto> (ev, c))"
    "ctl k EPOLL_CTL_MOD fd ev c = Some k' \<Longrightarrow> interest k fd \<noteq> None \<and> interest k' = (interest k)(fd \<mapsto> (ev, c))"
    "ctl k EPOLL_CTL_DEL fd ev c = Some k' \<Longrightarrow> interest k' = (interest k)(fd := None)"
    "interest k fd \<noteq> None \<Longrightarrow> ctl k EPOLL_CTL_DEL fd ev c \<noteq> None"
  using assms unfolding epoll_spec_def by blast+

lemma set_interest_inv:
  assumes spec: "epoll_spec ctl interest" and inv: "poller_inv interest p"
    and free: "ch_index (chan p c) = kNew \<longrightarrow> channels p (ch_fd (chan p c)) = None"
    and run: "set_interest ctl oper c p = Inr p'"
  shows "poller_inv interest p'"
proof -
  note D = poller_invD [OF inv]
  consider "ch_index (chan p c) = kNew" | "ch_index (chan p c) = kDeleted" | "ch_index (chan p c) = kAdded"
    using D(1) by blast
  then show ?thesis
  proof cases
    case 1
    then obtain k where k: "ctl (kernel p) EPOLL_CTL_ADD (ch_fd (chan p c))
          (interest_mask oper (ch_events (chan p c))) c = Some k"
        "p' = p\<lparr>channels := (channels p)(ch_fd (chan p c) \<mapsto> c), kernel := k,
           chan := (chan p)(c := (chan p c)\<lparr>ch_events := interest_mask oper (ch_events (chan p c)),
                                            ch_index := kAdded\<rparr>)\<rparr>"
      using set_interest_add [OF run] by auto
    show ?thesis
      using 1 free D(2) [of "ch_fd (chan p c)"] epoll_specD(1) [OF spec k(1)]
      by (intro poller_invI) (auto simp: k(2) D dest: other_registered [OF inv])
  next
    case 2
    then obtain k where k: "ctl (kernel p) EPOLL_CTL_ADD (ch_fd (chan p c))
          (interest_mask oper (ch_events (chan p c))) c = Some k"
        "p' = p\<lparr>channels := channels p, kernel := k,
           chan := (chan p)(c := (chan p c)\<lparr>ch_events := interest_mask oper (ch_events (chan p c)),
                                            ch_index := kAdded\<rparr>)\<rparr>"
      using set_interest_add [OF run] by auto
    have "ch_index (chan p c) \<noteq> kNew" using 2 by simp
    note uniq = other_registered [OF inv this]
    show ?thesis
      using 2 epoll_specD(1) [OF spec k(1)]
      by (intro poller_invI) (auto simp: k(2) D dest: uniq)
  next
    case 3
    have "ch_index (chan p c) \<noteq> kNew" using 3 by simp
    note uniq = other_registered [OF inv this]
    have reg: "interest (kernel p) (ch_fd (chan p c)) = Some (ch_events (chan p c), c)"
      using 3 D(3) by simp
    show ?thesis
    proof (cases "interest_mask oper (ch_events (chan p c)) = kNoneEvent")
      case True
      obtain k where k: "ctl (kernel p) EPOLL_CTL_DEL (ch_fd (chan p c)) kNoneEvent c = Some k"
          "p' = p\<lparr>kernel := k,
             chan := (chan p)(c := (chan p c)\<lparr>ch_events := kNoneEvent, ch_index := kDeleted\<rparr>)\<rparr>"
        using set_interest_del [OF run 3 True] epoll_specD(4) [OF spec] reg by fastforce
      show ?thesis
        using 3 epoll_specD(3) [OF spec k(1)]
        by (intro poller_invI) (auto simp: k(2) D dest: uniq)
    next
      case False
      then obtain k where k: "ctl (kernel p) EPOLL_CTL_MOD (ch_fd (chan p c))
            (interest_mask oper (ch_events (chan p c))) c = Some k"
          "p' = p\<lparr>kernel := k,
             chan := (chan p)(c := (chan p c)\<lparr>ch_events := interest_mask oper (ch_events (chan p c))\<rparr>)\<rparr>"
        using set_interest_mod [OF run 3] by auto
      show ?thesis
        using 3 epoll_specD(2) [OF spec k(1)]
        by (intro poller_invI) (auto simp: k(2) D dest: uniq)
    qed
  qed
qed

lemma removeChannel_ok:
  assumes spec: "epoll_spec ctl interest" and inv: "poller_inv interest p"
    and reg: "ch_index (chan p c) \<noteq> kNew"
  shows "\<exists>p'. removeChannel ctl c p = Inr p' \<and> poller_inv interest p' \<and>
    interest (kernel p') (ch_fd (chan p c)) = None \<and> channels p' (ch_fd (chan p c)) = None \<and>
    ch_index (chan p' c) = kNew \<and> ch_fd (chan p' c) = ch_fd (chan p c)"
proof -
  note D = poller_invD [OF inv] and uniq = other_registered [OF inv reg]
  let ?fd = "ch_fd (chan p c)"
  let ?chan = "(chan p)(c := (chan p c)\<lparr>ch_index := kNew\<rparr>)"
  show ?thesis
  proof (cases "ch_index (chan p c) = kAdded")
    case True
    then have "interest (kernel p) ?fd \<noteq> None" using D(3) by blast
    then obtain k where k: "ctl (kernel p) EPOLL_CTL_DEL ?fd (ch_events (chan p c)) c = Some k"
      using epoll_specD(4) [OF spec] by blast
    let ?p = "p\<lparr>channels := (channels p)(?fd := None), kernel := k, chan := ?chan\<rparr>"
    have "removeChannel ctl c p = Inr ?p"
      using True k by (simp add: removeChannel_def epoll_update_def set_chan_def)
    moreover have "poller_inv interest ?p"
      using epoll_specD(3) [OF spec k] by (intro poller_invI) (auto simp: D dest: uniq)
    ultimately show ?thesis using epoll_specD(3) [OF spec k] by simp
  next
    case False
    let ?p = "p\<lparr>channels := (channels p)(?fd := None), chan := ?chan\<rparr>"
    have "removeChannel ctl c p = Inr ?p"
      using False by (simp add: removeChannel_def set_chan_def)
    moreover have none: "interest (kernel p) ?fd = None"
    proof (cases "interest (kernel p) ?fd")
      case (Some x)
      then show ?thesis
        using False D(3) [of ?fd "fst x" "snd x"] uniq [of "snd x"] by auto
    qed
    moreover have "poller_inv interest ?p"
      using False none by (intro poller_invI) (auto simp: D dest: uniq)
    ultimately show ?thesis by simp
  qed
qed


section \<open>The interface the loop's clients use\<close>

text \<open>
  A kernel with memory to spare also accepts every addition of a descriptor it does not watch and every
  change of one it does watch.
\<close>

definition epoll_total :: "'k epoll_ctl \<Rightarrow> ('k \<Rightarrow> int \<rightharpoonup> events \<times> channel_id) \<Rightarrow> bool" where
  "epoll_total ctl interest \<longleftrightarrow>
     (\<forall>k fd ev c. interest k fd = None \<longrightarrow> ctl k EPOLL_CTL_ADD fd ev c \<noteq> None) \<and>
     (\<forall>k fd ev c. interest k fd \<noteq> None \<longrightarrow> ctl k EPOLL_CTL_MOD fd ev c \<noteq> None)"

definition poller_ready :: "'k epoll_ctl \<Rightarrow> ('k \<Rightarrow> int \<rightharpoonup> events \<times> channel_id) \<Rightarrow> 'k EPollPoller \<Rightarrow> bool" where
  "poller_ready ctl interest p \<longleftrightarrow> epoll_spec ctl interest \<and> epoll_total ctl interest \<and> poller_inv interest p"

text \<open>A channel can be given to the poller: it is registered, or nobody has its descriptor.\<close>

definition may_update :: "'k EPollPoller \<Rightarrow> channel_id \<Rightarrow> bool" where
  "may_update p c \<longleftrightarrow> ch_index (chan p c) \<noteq> kNew \<or> channels p (ch_fd (chan p c)) = None"

lemma unwatched:
  assumes "poller_inv interest p" "may_update p c" "ch_index (chan p c) \<noteq> kAdded"
  shows "interest (kernel p) (ch_fd (chan p c)) = None"
proof (rule ccontr)
  assume "interest (kernel p) (ch_fd (chan p c)) \<noteq> None"
  then obtain ev d where "interest (kernel p) (ch_fd (chan p c)) = Some (ev, d)" by auto
  then have d: "ch_fd (chan p d) = ch_fd (chan p c)" "ch_index (chan p d) = kAdded"
    using poller_invD(3) [OF assms(1)] by blast+
  then have "channels p (ch_fd (chan p c)) = Some d" using poller_invD(2) [OF assms(1)] by blast
  then have "ch_index (chan p c) \<noteq> kNew" using assms(2) by (auto simp: may_update_def)
  then have "c = d" using registered_unique [OF assms(1), of c d] d by simp
  with d(2) assms(3) show False by simp
qed

lemma set_interest_ok:
  assumes ready: "poller_ready ctl interest p" and may: "may_update p c"
  shows "\<exists>p' i. set_interest ctl oper c p = Inr p' \<and> poller_ready ctl interest p' \<and> i \<noteq> kNew \<and>
    chan p' = (chan p)(c := (chan p c)\<lparr>ch_events := interest_mask oper (ch_events (chan p c)), ch_index := i\<rparr>)"
proof -
  have spec: "epoll_spec ctl interest" and inv: "poller_inv interest p" and tot: "epoll_total ctl interest"
    using ready by (simp_all add: poller_ready_def)
  let ?ev = "interest_mask oper (ch_events (chan p c))"
  have "\<exists>p' i. set_interest ctl oper c p = Inr p' \<and> i \<noteq> kNew \<and>
    chan p' = (chan p)(c := (chan p c)\<lparr>ch_events := ?ev, ch_index := i\<rparr>)"
  proof (cases "ch_index (chan p c) = kAdded")
    case False
    then obtain k where "ctl (kernel p) EPOLL_CTL_ADD (ch_fd (chan p c)) ?ev c = Some k"
      using unwatched [OF inv may] tot unfolding epoll_total_def by blast
    then show ?thesis
      using False poller_invD(1) [OF inv, of c]
      by (auto simp: set_interest_def updateChannel_def epoll_update_def set_chan_def Let_def
          intro!: exI [of _ kAdded])
  next
    case True
    then have "interest (kernel p) (ch_fd (chan p c)) \<noteq> None"
      using poller_invD(3) [OF inv, of "ch_fd (chan p c)" "ch_events (chan p c)" c] by simp
    then obtain k k' where k: "ctl (kernel p) EPOLL_CTL_MOD (ch_fd (chan p c)) ?ev c = Some k"
        "ctl (kernel p) EPOLL_CTL_DEL (ch_fd (chan p c)) ?ev c = Some k'"
      using tot epoll_specD(4) [OF spec] by (fastforce simp: epoll_total_def)
    show ?thesis
    proof (cases "?ev = kNoneEvent")
      case ev: True
      show ?thesis
        by (rule exI [of _ "p\<lparr>kernel := k', chan := (chan p)(c := (chan p c)\<lparr>ch_events := ?ev, ch_index := kDeleted\<rparr>)\<rparr>"],
            rule exI [of _ kDeleted])
          (use True k ev in \<open>simp add: set_interest_def updateChannel_def epoll_update_def set_chan_def
            isNoneEvent_def\<close>)
    next
      case ev: False
      have same: "(chan p c)\<lparr>ch_events := ?ev, ch_index := kAdded\<rparr> = (chan p c)\<lparr>ch_events := ?ev\<rparr>"
        using True by (cases "chan p c") simp
      show ?thesis
        by (intro exI [of _ kAdded] exI [of _ "p\<lparr>kernel := k, chan := (chan p)(c := (chan p c)\<lparr>ch_events := ?ev\<rparr>)\<rparr>"])
          (use True k ev in \<open>simp add: set_interest_def updateChannel_def epoll_update_def set_chan_def
            isNoneEvent_def same\<close>)
    qed
  qed
  then obtain p' i where p': "set_interest ctl oper c p = Inr p'" "i \<noteq> kNew"
      "chan p' = (chan p)(c := (chan p c)\<lparr>ch_events := ?ev, ch_index := i\<rparr>)"
    by blast
  have "poller_inv interest p'"
    by (rule set_interest_inv [OF spec inv _ p'(1)]) (use may in \<open>auto simp: may_update_def\<close>)
  with p' spec tot show ?thesis by (auto simp: poller_ready_def)
qed

lemma removeChannel_chan:
  assumes "removeChannel ctl c p = Inr p'"
  shows "chan p' = (chan p)(c := (chan p c)\<lparr>ch_index := kNew\<rparr>)"
  using assms
  by (auto simp: removeChannel_def rbind_eq_Inr set_chan_def epoll_update_def Let_def
      split: option.splits if_splits)

text \<open>
  The contract: a client sees the channels, changes the mask of one, removes one. Every legal call
  succeeds, changes nothing else and keeps the poller usable.
\<close>

locale channel_registry =
  fixes ready :: "'p \<Rightarrow> bool"
    and view :: "'p \<Rightarrow> channel_id \<Rightarrow> Channel"
    and may :: "'p \<Rightarrow> channel_id \<Rightarrow> bool"
    and setter :: "interest_op \<Rightarrow> channel_id \<Rightarrow> 'p \<Rightarrow> 'p result"
    and remover :: "channel_id \<Rightarrow> 'p \<Rightarrow> 'p result"
  assumes set_ok: "ready p \<Longrightarrow> may p c \<Longrightarrow> \<exists>p' i. setter oper c p = Inr p' \<and> ready p' \<and> i \<noteq> kNew \<and>
      view p' = (view p)(c := (view p c)\<lparr>ch_events := interest_mask oper (ch_events (view p c)), ch_index := i\<rparr>)"
    and remove_ok: "ready p \<Longrightarrow> ch_index (view p c) \<noteq> kNew \<Longrightarrow> \<exists>p'. remover c p = Inr p' \<and> ready p' \<and>
      may p' c \<and> view p' = (view p)(c := (view p c)\<lparr>ch_index := kNew\<rparr>)"
    and known_may: "ch_index (view p c) \<noteq> kNew \<Longrightarrow> may p c"
begin

text \<open>The calls of a life of a channel: registered, changed any number of times, removed.\<close>

fun set_all :: "interest_op list \<Rightarrow> channel_id \<Rightarrow> 'p \<Rightarrow> 'p result" where
  "set_all [] c p = Inr p"
| "set_all (oper # opers) c p = rbind (setter oper c p) (set_all opers c)"

lemma set_all_ok:
  "ready p \<Longrightarrow> may p c \<Longrightarrow> \<exists>p'. set_all opers c p = Inr p' \<and> ready p' \<and> may p' c \<and>
     ch_events (view p' c) = fold interest_mask opers (ch_events (view p c)) \<and>
     (opers \<noteq> [] \<longrightarrow> ch_index (view p' c) \<noteq> kNew) \<and> (\<forall>d. d \<noteq> c \<longrightarrow> view p' d = view p d)"
proof (induction opers arbitrary: p)
  case Nil
  then show ?case by simp
next
  case (Cons oper opers)
  obtain p1 i where p1: "setter oper c p = Inr p1" "ready p1" "i \<noteq> kNew"
      "view p1 = (view p)(c := (view p c)\<lparr>ch_events := interest_mask oper (ch_events (view p c)), ch_index := i\<rparr>)"
    using set_ok [OF Cons.prems] by blast
  have "may p1 c" using p1(3,4) by (intro known_may) simp
  from Cons.IH [OF p1(2) this] p1 show ?case by (cases "opers = []") auto
qed

lemma life_of_channel:
  assumes "ready p" "may p c" "opers \<noteq> []"
  shows "\<exists>p1 p2. set_all opers c p = Inr p1 \<and> remover c p1 = Inr p2 \<and> ready p2 \<and> may p2 c \<and>
    ch_events (view p2 c) = fold interest_mask opers (ch_events (view p c)) \<and>
    ch_index (view p2 c) = kNew \<and> (\<forall>d. d \<noteq> c \<longrightarrow> view p2 d = view p d)"
  using set_all_ok [OF assms(1,2), of opers] remove_ok [of _ c] assms(3) by fastforce

end

interpretation epoll: channel_registry "poller_ready ctl interest" chan may_update "set_interest ctl"
  "removeChannel ctl" for ctl :: "'k epoll_ctl" and interest
proof unfold_locales
  fix p :: "'k EPollPoller" and c
  assume a: "poller_ready ctl interest p" "ch_index (chan p c) \<noteq> kNew"
  then obtain p' where p': "removeChannel ctl c p = Inr p'" "poller_inv interest p'"
      "channels p' (ch_fd (chan p c)) = None" "ch_fd (chan p' c) = ch_fd (chan p c)"
    using removeChannel_ok [of ctl interest p c] by (auto simp: poller_ready_def)
  then show "\<exists>p'. removeChannel ctl c p = Inr p' \<and> poller_ready ctl interest p' \<and> may_update p' c \<and>
      chan p' = (chan p)(c := (chan p c)\<lparr>ch_index := kNew\<rparr>)"
    using a removeChannel_chan [OF p'(1)] by (auto simp: poller_ready_def may_update_def)
qed (use set_interest_ok in \<open>blast, simp add: may_update_def\<close>)

text \<open>
  A new channel in the place of one the poller does not know; and the life of a channel that watches
  the descriptor \<open>fd\<close> of its owner (a listening socket, an event descriptor, a timer descriptor).
\<close>

lemma set_chan_ready:
  assumes "poller_ready ctl interest p" "ch_index (chan p c) = kNew" "ch_index h = kNew"
  shows "poller_ready ctl interest (set_chan c (\<lambda>_. h) p)"
  using assms by (auto simp: poller_ready_def poller_inv_def set_chan_def)

abbreviation owned_channel :: "int \<Rightarrow> Channel" where
  "owned_channel fd \<equiv> (Channel_new fd)\<lparr>has_readCallback := True\<rparr>"

lemma owned_channel_life:
  assumes "poller_ready ctl interest p" "ch_index (chan p c) = kNew" "channels p fd = None"
  shows "\<exists>p1 p2 p3. set_interest ctl EnableReading c (set_chan c (\<lambda>_. owned_channel fd) p) = Inr p1 \<and>
    poller_ready ctl interest p1 \<and> isReading (chan p1 c) \<and> hasChannel p1 c \<and>
    set_interest ctl DisableAll c p1 = Inr p2 \<and> removeChannel ctl c p2 = Inr p3 \<and> poller_ready ctl interest p3 \<and>
    (\<forall>d. d \<noteq> c \<longrightarrow> chan p3 d = chan p d)"
proof -
  let ?p = "set_chan c (\<lambda>_. owned_channel fd) p"
  have r: "poller_ready ctl interest ?p" using assms(1,2) by (rule set_chan_ready) (simp add: Channel_new_def kNew_def)
  have m: "may_update ?p c" using assms(3) by (simp add: may_update_def set_chan_def Channel_new_def)
  obtain p1 i where p1: "set_interest ctl EnableReading c ?p = Inr p1" "poller_ready ctl interest p1" "i \<noteq> kNew"
      "chan p1 = (chan ?p)(c := (chan ?p c)\<lparr>ch_events := interest_mask EnableReading (ch_events (chan ?p c)), ch_index := i\<rparr>)"
    using epoll.set_ok [OF r m] by blast
  have "isReading (chan p1 c)"
    using p1(4) by (simp add: isReading_def set_chan_def Channel_new_def kReadEvent_def event_bits)
  moreover have "hasChannel p1 c"
  proof -
    have inv: "poller_inv interest p1" using p1(2) by (simp add: poller_ready_def)
    have "ch_index (chan p1 c) \<noteq> kNew" using p1(3,4) by simp
    then show ?thesis using poller_invD(1) [OF inv, of c] by (auto simp: hasChannel_def poller_invD(2) [OF inv])
  qed
  moreover have "may_update p1 c" using p1(3,4) by (intro epoll.known_may) simp
  from epoll.life_of_channel [OF p1(2) this, of "[DisableAll]"] obtain p2 p3 where
      "set_interest ctl DisableAll c p1 = Inr p2" "removeChannel ctl c p2 = Inr p3" "poller_ready ctl interest p3"
      "\<forall>d. d \<noteq> c \<longrightarrow> chan p3 d = chan p1 d"
    by (auto simp: rbind_eq_Inr)
  ultimately show ?thesis using p1 by (auto simp: set_chan_def)
qed

text \<open>Which masks write or read, after a setter.\<close>

lemma writing_mask [simp]:
  "interest_mask EnableWriting e AND kWriteEvent \<noteq> 0"
  "interest_mask DisableWriting e AND kWriteEvent = 0"
  "interest_mask DisableAll e AND kWriteEvent = 0"
  "(interest_mask EnableReading e AND kWriteEvent = 0) = (e AND kWriteEvent = 0)"
  "(interest_mask DisableReading e AND kWriteEvent = 0) = (e AND kWriteEvent = 0)"
  by (simp_all add: event_bits word_ao_dist word_bw_assocs)

section \<open>Sequences of operations\<close>

datatype poller_op = SetInterest interest_op channel_id | Remove channel_id

fun poller_exec :: "'k epoll_ctl \<Rightarrow> poller_op \<Rightarrow> 'k EPollPoller \<Rightarrow> 'k EPollPoller result" where
  "poller_exec ctl (SetInterest oper c) p = set_interest ctl oper c p"
| "poller_exec ctl (Remove c) p = removeChannel ctl c p"

text \<open>
  How the library uses the poller: a channel that is not registered is registered only when no other
  channel has its descriptor, and only registered channels are removed.
\<close>

fun poller_pre :: "poller_op \<Rightarrow> 'k EPollPoller \<Rightarrow> bool" where
  "poller_pre (SetInterest oper c) p =
     (ch_index (chan p c) = kNew \<longrightarrow> channels p (ch_fd (chan p c)) = None)"
| "poller_pre (Remove c) p = (ch_index (chan p c) \<noteq> kNew)"

fun poller_run :: "'k epoll_ctl \<Rightarrow> 'k EPollPoller \<Rightarrow> poller_op list \<Rightarrow> 'k EPollPoller result" where
  "poller_run ctl p [] = Inr p"
| "poller_run ctl p (oper # opers) = rbind (poller_exec ctl oper p) (\<lambda>p'. poller_run ctl p' opers)"

fun poller_pres :: "'k epoll_ctl \<Rightarrow> 'k EPollPoller \<Rightarrow> poller_op list \<Rightarrow> bool" where
  "poller_pres ctl p [] = True"
| "poller_pres ctl p (oper # opers) =
     (poller_pre oper p \<and> (\<forall>p'. poller_exec ctl oper p = Inr p' \<longrightarrow> poller_pres ctl p' opers))"

lemma poller_exec_inv:
  assumes "epoll_spec ctl interest" "poller_inv interest p" "poller_pre oper p" "poller_exec ctl oper p = Inr p'"
  shows "poller_inv interest p'"
proof (cases oper)
  case (SetInterest i c)
  then show ?thesis using set_interest_inv [OF assms(1,2)] assms(3,4) by simp
next
  case (Remove c)
  then show ?thesis using removeChannel_ok [OF assms(1,2), of c] assms(3,4) by auto
qed

lemma poller_run_inv:
  "epoll_spec ctl interest \<Longrightarrow> poller_inv interest p \<Longrightarrow> poller_pres ctl p opers \<Longrightarrow>
    poller_run ctl p opers = Inr p' \<Longrightarrow> poller_inv interest p'"
proof (induction opers arbitrary: p)
  case Nil
  then show ?case by simp
next
  case (Cons oper opers)
  then show ?case by (auto simp: rbind_eq_Inr dest: poller_exec_inv)
qed

text \<open>An interest list kept as a map: what a kernel that never runs out of memory does.\<close>

definition map_ctl :: "(int \<rightharpoonup> events \<times> channel_id) epoll_ctl" where
  "map_ctl k operation fd ev c =
     (case operation of
        EPOLL_CTL_ADD \<Rightarrow> if k fd = None then Some (k(fd \<mapsto> (ev, c))) else None
      | EPOLL_CTL_MOD \<Rightarrow> if k fd \<noteq> None then Some (k(fd \<mapsto> (ev, c))) else None
      | EPOLL_CTL_DEL \<Rightarrow> if k fd \<noteq> None then Some (k(fd := None)) else None)"

lemma map_ctl_spec: "epoll_spec map_ctl (\<lambda>k. k)"
  by (auto simp: epoll_spec_def map_ctl_def split: if_splits)

lemma map_ctl_total: "epoll_total map_ctl (\<lambda>k. k)"
  by (auto simp: epoll_total_def map_ctl_def)

lemma new_poller_inv:
  assumes "interest k = Map.empty"
  shows "poller_inv interest (EPollPoller_new k (\<lambda>c. Channel_new (int c)))"
  using assms by (auto simp: poller_inv_def EPollPoller_new_def Channel_new_def index_defs)

section \<open>Properties\<close>

text \<open>C8: the poller's bookkeeping and the kernel agree. Whatever channels are enabled, disabled and
  removed in whatever order, as long as the process is not aborted by a failing \<open>epoll_ctl\<close>: a channel
  is in \<open>channels_\<close> exactly when its index is \<open>kAdded\<close> or \<open>kDeleted\<close>, and the kernel watches a
  descriptor exactly when the channel is \<open>kAdded\<close>, with the channel's own mask and address.\<close>

theorem poller_agrees_with_kernel:
  assumes "epoll_spec ctl interest" "poller_inv interest p" "poller_pres ctl p opers"
    and "poller_run ctl p opers = Inr p'"
  shows "(\<forall>fd c. channels p' fd = Some c \<longleftrightarrow>
      ch_fd (chan p' c) = fd \<and> ch_index (chan p' c) \<in> {kAdded, kDeleted}) \<and>
    (\<forall>fd ev c. interest (kernel p') fd = Some (ev, c) \<longleftrightarrow>
      ch_fd (chan p' c) = fd \<and> ch_index (chan p' c) = kAdded \<and> ev = ch_events (chan p' c))"
  using poller_run_inv [OF assms] by (simp add: poller_inv_def)

theorem poller_agrees_with_kernel_witness:
  "\<exists>p'. poller_run map_ctl (EPollPoller_new Map.empty (\<lambda>c. Channel_new (int c)))
      [SetInterest EnableReading 7, SetInterest EnableWriting 7, SetInterest DisableWriting 7] = Inr p' \<and>
    kernel p' 7 = Some (3, 7) \<and> channels p' 7 = Some 7"
proof -
  let ?p = "EPollPoller_new Map.empty (\<lambda>c. Channel_new (int c))"
  let ?ops = "[SetInterest EnableReading 7, SetInterest EnableWriting 7, SetInterest DisableWriting 7]"
  obtain p' where p': "poller_run map_ctl ?p ?ops = Inr p'" "ch_events (chan p' 7) = 3"
      "ch_index (chan p' 7) = kAdded" "ch_fd (chan p' 7) = 7"
    by (simp add: set_interest_def updateChannel_def epoll_update_def set_chan_def map_ctl_def
        EPollPoller_new_def Channel_new_def index_defs event_bits isNoneEvent_def)
  have pre: "poller_pres map_ctl ?p ?ops"
    by (auto simp: set_interest_def updateChannel_def epoll_update_def set_chan_def map_ctl_def
        EPollPoller_new_def Channel_new_def index_defs event_bits isNoneEvent_def)
  have "poller_inv (\<lambda>k. k) ?p" by (rule new_poller_inv) simp
  with poller_agrees_with_kernel [OF map_ctl_spec _ pre p'(1)] p' show ?thesis by auto
qed

text \<open>Removing a registered channel always works and cleans up completely: no failure, the
  descriptor is gone from the kernel's interest list and from \<open>channels_\<close>, the channel is new again,
  and all other channels keep their registration.\<close>

lemma removeChannel_cleans_up:
  assumes "epoll_spec ctl interest" "poller_inv interest p" "ch_index (chan p c) \<noteq> kNew"
  shows "\<exists>p'. removeChannel ctl c p = Inr p' \<and> poller_inv interest p' \<and>
    interest (kernel p') (ch_fd (chan p c)) = None \<and> channels p' (ch_fd (chan p c)) = None \<and>
    ch_index (chan p' c) = kNew \<and>
    (\<forall>d. d \<noteq> c \<longrightarrow> chan p' d = chan p d \<and> hasChannel p' d = hasChannel p d)"
proof -
  obtain p' where p': "removeChannel ctl c p = Inr p'" "poller_inv interest p'"
      "interest (kernel p') (ch_fd (chan p c)) = None" "channels p' (ch_fd (chan p c)) = None"
      "ch_index (chan p' c) = kNew"
    using removeChannel_ok [OF assms] by blast
  have chan: "chan p' d = chan p d" if "d \<noteq> c" for d
    using p'(1) that
    by (auto simp: removeChannel_def rbind_eq_Inr set_chan_def epoll_update_def Let_def
        split: option.splits if_splits)
  have "hasChannel p' d = hasChannel p d" if "d \<noteq> c" for d
    using poller_invD(2) [OF p'(2), of "ch_fd (chan p' d)" d] chan [OF that]
      poller_invD(2) [OF assms(2), of "ch_fd (chan p d)" d]
    by (simp add: hasChannel_def)
  with p' chan show ?thesis by blast
qed

text \<open>\<open>disableAll\<close> is not idempotent. On an added channel it takes the descriptor out of the kernel's
  interest list; a second call finds the index \<open>kDeleted\<close> and puts it back with an empty mask, so the
  kernel reports hang-ups and errors of that descriptor again.\<close>

lemma disableAll_twice_registers_again:
  assumes "epoll_spec ctl interest" "poller_inv interest p" "ch_index (chan p c) = kAdded"
    and "set_interest ctl DisableAll c p = Inr p1" "set_interest ctl DisableAll c p1 = Inr p2"
  shows "interest (kernel p1) (ch_fd (chan p c)) = None \<and>
    interest (kernel p2) (ch_fd (chan p c)) = Some (kNoneEvent, c)"
proof -
  have reg: "interest (kernel p) (ch_fd (chan p c)) \<noteq> None"
    using poller_invD(3) [OF assms(2)] assms(3) by blast
  obtain k where k: "ctl (kernel p) EPOLL_CTL_DEL (ch_fd (chan p c)) kNoneEvent c = Some k"
      "p1 = p\<lparr>kernel := k,
         chan := (chan p)(c := (chan p c)\<lparr>ch_events := kNoneEvent, ch_index := kDeleted\<rparr>)\<rparr>"
    using set_interest_del [OF assms(4,3)] epoll_specD(4) [OF assms(1) reg] by auto
  obtain k2 where "ctl k EPOLL_CTL_ADD (ch_fd (chan p c)) kNoneEvent c = Some k2" "kernel p2 = k2"
    using set_interest_add [OF assms(5)] k(2) by auto
  with k epoll_specD(1,3) [OF assms(1)] show ?thesis by fastforce
qed

end
