(* ===== verification/Net_EventLoop.thy ===== *)
theory Net_EventLoop
  imports Net_Poller Net_Timer
begin

text \<open>
  \<open>src/net/EventLoop\<close>: the loop of one thread, with the queue of functors that other threads hand over
  and the event descriptor that wakes the loop from its poll. A functor is an element of a type
  variable; \<open>spawn f\<close> are the functors that running \<open>f\<close> queues on the same loop. The steps of the
  loop's thread and of all others interleave; what the mutex protects is one step.
\<close>

section \<open>The loop object\<close>

text \<open>
  \<open>wakeupFd\<close> is the counter of the \<open>eventfd\<close>. A write adds one unless the counter is at its maximum
  (then it fails and is logged), a read resets it.
\<close>

record 'f EventLoop =
  looping :: bool
  quit_flag :: bool
  threadId :: int
  wakeupFd :: nat
  callingPendingFunctors :: bool
  pendingFunctors :: "'f list"
  timerQueue :: "TimerQueue option"

definition eventfd_max :: nat where "eventfd_max = 2 ^ 64 - 2"

definition kPollTimeMs :: int where "kPollTimeMs = 10000"

text \<open>
  \<open>newDefaultPoller\<close> gives no poller when the environment variable \<open>MUDUO_USE_POLL\<close> is set. The
  constructor of the loop: \<open>this_thread\<close> is the loop already bound to the thread, if any; \<open>wc\<close> is the
  address of \<open>wakeupChannel_\<close>. The member list does not initialise \<open>timerQueue_\<close>, which stays null.
\<close>

definition newDefaultPoller :: "bool \<Rightarrow> 'k \<Rightarrow> (channel_id \<Rightarrow> Channel) \<Rightarrow> 'k EPollPoller option" where
  "newDefaultPoller use_poll k cs = (if use_poll then None else Some (EPollPoller_new k cs))"

definition EventLoop_new ::
  "'k epoll_ctl \<Rightarrow> 'k EPollPoller option \<Rightarrow> channel_id \<Rightarrow> 'l option \<Rightarrow> int + int \<Rightarrow> int
    \<Rightarrow> ('f EventLoop \<times> 'k EPollPoller) result" where
  "EventLoop_new ctl poll wc this_thread evtfd tid =
     (case evtfd of
        Inl e \<Rightarrow> Inl (Fatal ''eventfd error'')
      | Inr fd \<Rightarrow>
          if this_thread \<noteq> None then Inl (Fatal ''Another EventLoop exists in this thread'')
          else case poll of
            None \<Rightarrow> Inl NullDeref
          | Some p \<Rightarrow>
              rbind (set_interest ctl EnableReading wc
                 (set_chan wc (\<lambda>_. (Channel_new fd)\<lparr>has_readCallback := True\<rparr>) p)) (\<lambda>p'.
                Inr (\<lparr>looping = False, quit_flag = False, threadId = tid, wakeupFd = 0,
                      callingPendingFunctors = False, pendingFunctors = [], timerQueue = None\<rparr>, p')))"

text \<open>
  The destructor takes the wakeup channel out of the poller, closes its descriptor and unbinds the loop
  from the thread. It gives that descriptor and the new value of \<open>t_loopInThisThread\<close>.
\<close>

definition EventLoop_delete ::
  "'k epoll_ctl \<Rightarrow> channel_id \<Rightarrow> 'k EPollPoller \<Rightarrow> (int \<times> 'l option \<times> 'k EPollPoller) result" where
  "EventLoop_delete ctl wc p =
     rbind (set_interest ctl DisableAll wc p) (\<lambda>p1.
     rbind (removeChannel ctl wc p1) (\<lambda>p2. Inr (ch_fd (chan p2 wc), None, p2)))"

text \<open>\<open>EventLoop::hasChannel\<close> forwards to the poller, like \<open>updateChannel\<close> and \<open>removeChannel\<close>.\<close>

definition loop_hasChannel :: "'k EPollPoller option \<Rightarrow> channel_id \<Rightarrow> bool result" where
  "loop_hasChannel poller c = (case poller of None \<Rightarrow> Inl NullDeref | Some p \<Rightarrow> Inr (hasChannel p c))"

definition isInLoopThread :: "'f EventLoop \<Rightarrow> int \<Rightarrow> bool" where
  "isInLoopThread s tid \<longleftrightarrow> threadId s = tid"

definition wakeup :: "'f EventLoop \<Rightarrow> 'f EventLoop" where
  "wakeup s = (if wakeupFd s < eventfd_max then s\<lparr>wakeupFd := wakeupFd s + 1\<rparr> else s)"

definition loop_handleRead :: "'f EventLoop \<Rightarrow> 'f EventLoop" where
  "loop_handleRead s = s\<lparr>wakeupFd := 0\<rparr>"

text \<open>\<open>queueInLoop\<close> in its two parts: the push under the mutex, the test and the wakeup behind it.\<close>

definition push_functor :: "'f \<Rightarrow> 'f EventLoop \<Rightarrow> 'f EventLoop" where
  "push_functor f s = s\<lparr>pendingFunctors := pendingFunctors s @ [f]\<rparr>"

definition wake_if_needed :: "bool \<Rightarrow> 'f EventLoop \<Rightarrow> 'f EventLoop" where
  "wake_if_needed inLoopThread s =
     (if \<not> inLoopThread \<or> callingPendingFunctors s then wakeup s else s)"

definition queueInLoop :: "bool \<Rightarrow> 'f \<Rightarrow> 'f EventLoop \<Rightarrow> 'f EventLoop" where
  "queueInLoop inLoopThread f s = wake_if_needed inLoopThread (push_functor f s)"

text \<open>Running a functor in the loop's thread queues what it spawns.\<close>

definition run_functor :: "('f \<Rightarrow> 'f list) \<Rightarrow> 'f \<Rightarrow> 'f EventLoop \<Rightarrow> 'f EventLoop" where
  "run_functor spawn f s = fold (queueInLoop True) (spawn f) s"

definition runInLoop :: "('f \<Rightarrow> 'f list) \<Rightarrow> bool \<Rightarrow> 'f \<Rightarrow> 'f EventLoop \<Rightarrow> 'f EventLoop" where
  "runInLoop spawn inLoopThread f s =
     (if inLoopThread then run_functor spawn f s else queueInLoop False f s)"

definition loop_quit :: "bool \<Rightarrow> 'f EventLoop \<Rightarrow> 'f EventLoop" where
  "loop_quit inLoopThread s =
     (let s1 = s\<lparr>quit_flag := True\<rparr> in if \<not> inLoopThread then wakeup s1 else s1)"

text \<open>\<open>doPendingFunctors\<close>: take the whole queue under the mutex, run what was taken.\<close>

definition swap_functors :: "'f EventLoop \<Rightarrow> 'f list \<times> 'f EventLoop" where
  "swap_functors s = (pendingFunctors s, s\<lparr>pendingFunctors := []\<rparr>)"

definition doPendingFunctors :: "('f \<Rightarrow> 'f list) \<Rightarrow> 'f EventLoop \<Rightarrow> 'f list \<times> 'f EventLoop" where
  "doPendingFunctors spawn s =
     (let (functors, s1) = swap_functors (s\<lparr>callingPendingFunctors := True\<rparr>);
          s2 = fold (run_functor spawn) functors s1
      in (functors, s2\<lparr>callingPendingFunctors := False\<rparr>))"

text \<open>The timer interface: every call goes through \<open>timerQueue_\<close>.\<close>

definition with_timerQueue :: "(TimerQueue \<Rightarrow> ('a \<times> TimerQueue) result) \<Rightarrow> 'f EventLoop \<Rightarrow> ('a \<times> 'f EventLoop) result" where
  "with_timerQueue call s =
     (case timerQueue s of
        None \<Rightarrow> Inl NullDeref
      | Some tq \<Rightarrow> rbind (call tq) (\<lambda>(r, tq'). Inr (r, s\<lparr>timerQueue := Some tq'\<rparr>)))"

definition runAt ::
  "((timer_ptr \<rightharpoonup> Timer) \<Rightarrow> timer_ptr option) \<Rightarrow> bool \<Rightarrow> Timestamp \<Rightarrow> Timestamp \<Rightarrow> nat \<Rightarrow> 'f EventLoop
    \<Rightarrow> (TimerId \<times> 'f EventLoop) result" where
  "runAt malloc inLoop now time cb s = with_timerQueue (addTimer malloc inLoop now cb time (Finite 0 0)) s"

definition runAfter ::
  "((timer_ptr \<rightharpoonup> Timer) \<Rightarrow> timer_ptr option) \<Rightarrow> bool \<Rightarrow> Timestamp \<Rightarrow> double \<Rightarrow> nat \<Rightarrow> 'f EventLoop
    \<Rightarrow> (TimerId \<times> 'f EventLoop) result" where
  "runAfter malloc inLoop now delay cb s =
     rbind (addTime now delay) (\<lambda>time. runAt malloc inLoop now time cb s)"

definition runEvery ::
  "((timer_ptr \<rightharpoonup> Timer) \<Rightarrow> timer_ptr option) \<Rightarrow> bool \<Rightarrow> Timestamp \<Rightarrow> double \<Rightarrow> nat \<Rightarrow> 'f EventLoop
    \<Rightarrow> (TimerId \<times> 'f EventLoop) result" where
  "runEvery malloc inLoop now ival cb s =
     rbind (addTime now ival) (\<lambda>time. with_timerQueue (addTimer malloc inLoop now cb time ival) s)"

definition loop_cancel :: "bool \<Rightarrow> TimerId \<Rightarrow> 'f EventLoop \<Rightarrow> (unit \<times> 'f EventLoop) result" where
  "loop_cancel inLoop tid s =
     with_timerQueue (\<lambda>tq. rbind (tq_cancel inLoop tid tq) (\<lambda>tq'. Inr ((), tq'))) s"

text \<open>
  The timer queue on the poller of its loop: \<open>fd\<close> is what \<open>timerfd_create\<close> answers, \<open>tc\<close> the address of
  \<open>timerfdChannel_\<close>. The destructor gives the descriptor it closes.
\<close>

definition createTimerfd :: "int \<Rightarrow> int result" where
  "createTimerfd fd = (if fd < 0 then Inl (Fatal ''Failed in timerfd_create'') else Inr fd)"

definition TimerQueue_open ::
  "'k epoll_ctl \<Rightarrow> int \<Rightarrow> channel_id \<Rightarrow> 'k EPollPoller \<Rightarrow> (TimerQueue \<times> 'k EPollPoller) result" where
  "TimerQueue_open ctl answer tc p =
     rbind (createTimerfd answer) (\<lambda>fd.
     rbind (set_interest ctl EnableReading tc (set_chan tc (\<lambda>_. (Channel_new fd)\<lparr>has_readCallback := True\<rparr>) p)) (\<lambda>p'.
       Inr (TimerQueue_new, p')))"

definition TimerQueue_close ::
  "'k epoll_ctl \<Rightarrow> channel_id \<Rightarrow> TimerQueue \<Rightarrow> 'k EPollPoller \<Rightarrow> (int \<times> TimerQueue \<times> 'k EPollPoller) result" where
  "TimerQueue_close ctl tc tq p =
     rbind (set_interest ctl DisableAll tc p) (\<lambda>p1.
     rbind (removeChannel ctl tc p1) (\<lambda>p2. Inr (ch_fd (chan p tc), TimerQueue_delete tq, p2)))"

text \<open>
  On a usable poller a loop, and a timer queue, whose descriptor is new there can be created and
  destroyed again; the poller is as usable as before and the other channels are untouched.
\<close>

lemma EventLoop_life:
  assumes "poller_ready ctl interest p" "ch_index (chan p wc) = kNew" "channels p fd = None"
  shows "\<exists>loop p1 cl p2. EventLoop_new ctl (Some p) wc None (Inr fd) tid = Inr (loop, p1) \<and>
    loop_hasChannel (Some p1) wc = Inr True \<and> isInLoopThread loop tid \<and>
    EventLoop_delete ctl wc p1 = Inr (cl, None, p2) \<and> poller_ready ctl interest p2 \<and>
    (\<forall>d. d \<noteq> wc \<longrightarrow> chan p2 d = chan p d)"
  using owned_channel_life [OF assms]
  by (auto simp: EventLoop_new_def EventLoop_delete_def loop_hasChannel_def isInLoopThread_def)

lemma TimerQueue_life:
  assumes "poller_ready ctl interest p" "ch_index (chan p tc) = kNew" "channels p fd = None" "0 \<le> fd"
  shows "\<exists>tq p1 cl p2. TimerQueue_open ctl fd tc p = Inr (tq, p1) \<and> hasChannel p1 tc \<and> isReading (chan p1 tc) \<and>
    TimerQueue_close ctl tc tq p1 = Inr (cl, TimerQueue_delete tq, p2) \<and> poller_ready ctl interest p2 \<and>
    (\<forall>d. d \<noteq> tc \<longrightarrow> chan p2 d = chan p d)"
  using owned_channel_life [OF assms(1-3)] assms(4) by (auto simp: TimerQueue_open_def TimerQueue_close_def createTimerfd_def)

section \<open>The loop and its threads\<close>

text \<open>
  Where the loop's thread is: before \<open>loop()\<close>, at the test of \<open>quit_\<close>, in the poll, handling the
  reported channels, before the swap, running the taken functors, behind \<open>loop()\<close>.
\<close>

datatype 'f loop_event = WakeEvent | ChannelEvent "'f list"

datatype 'f loop_pc = NotStarted | Top | Polling | Handling "'f loop_event list" | BeforeSwap
  | Running "'f list" | Finished

text \<open>
  The whole: the loop, its program counter, how many other threads have pushed a functor or set the
  quit flag and have not written to the event descriptor yet, and the histories of pushed and of run
  functors. \<open>early\<close>: the loop's own thread queued a functor before it called \<open>loop()\<close>, and the queue has not been taken
  since.
\<close>

record 'f loop_state =
  ev :: "'f EventLoop"
  loop_at :: "'f loop_pc"
  owing :: nat
  pushed_fns :: "'f list"
  done_fns :: "'f list"
  early :: bool

definition push_all :: "'f list \<Rightarrow> 'f loop_state \<Rightarrow> 'f loop_state" where
  "push_all fs s = s\<lparr>ev := fold (queueInLoop True) fs (ev s), pushed_fns := pushed_fns s @ fs\<rparr>"

text \<open>Which events the poll may report: the event descriptor only when it is readable.\<close>

definition reportable :: "'f EventLoop \<Rightarrow> 'f loop_event list \<Rightarrow> bool" where
  "reportable s evs \<longleftrightarrow> (WakeEvent \<in> set evs \<longrightarrow> wakeupFd s > 0)"

text \<open>Where the loop's own thread may run code of the user, which may call \<open>quit\<close>.\<close>

fun in_user_code :: "'f loop_pc \<Rightarrow> bool" where
  "in_user_code (Handling evs) = True"
| "in_user_code (Running fs) = True"
| "in_user_code pc = (pc = NotStarted)"

inductive loop_step :: "('f \<Rightarrow> 'f list) \<Rightarrow> 'f loop_state \<Rightarrow> 'f loop_state \<Rightarrow> bool" for spawn where
  foreign_push:
    "loop_step spawn s (s\<lparr>ev := push_functor f (ev s), pushed_fns := pushed_fns s @ [f], owing := owing s + 1\<rparr>)"
| foreign_wake:
    "owing s > 0 \<Longrightarrow> loop_step spawn s (s\<lparr>ev := wake_if_needed False (ev s), owing := owing s - 1\<rparr>)"
| foreign_quit:
    "loop_step spawn s (s\<lparr>ev := (ev s)\<lparr>quit_flag := True\<rparr>, owing := owing s + 1\<rparr>)"
| own_quit:
    "in_user_code (loop_at s) \<Longrightarrow> loop_step spawn s (s\<lparr>ev := loop_quit True (ev s)\<rparr>)"
| own_queue:
    "loop_at s = NotStarted \<Longrightarrow> loop_step spawn s ((push_all [f] s)\<lparr>early := True\<rparr>)"
| start:
    "loop_at s = NotStarted \<Longrightarrow>
     loop_step spawn s (s\<lparr>ev := (ev s)\<lparr>looping := True, quit_flag := False\<rparr>, loop_at := Top\<rparr>)"
| enter:
    "loop_at s = Top \<Longrightarrow> \<not> quit_flag (ev s) \<Longrightarrow> loop_step spawn s (s\<lparr>loop_at := Polling\<rparr>)"
| leave:
    "loop_at s = Top \<Longrightarrow> quit_flag (ev s) \<Longrightarrow>
     loop_step spawn s (s\<lparr>ev := (ev s)\<lparr>looping := False\<rparr>, loop_at := Finished\<rparr>)"
| poll:
    "loop_at s = Polling \<Longrightarrow> reportable (ev s) evs \<Longrightarrow> loop_step spawn s (s\<lparr>loop_at := Handling evs\<rparr>)"
| handle_wake:
    "loop_at s = Handling (WakeEvent # evs) \<Longrightarrow>
     loop_step spawn s (s\<lparr>ev := loop_handleRead (ev s), loop_at := Handling evs\<rparr>)"
| handle_channel:
    "loop_at s = Handling (ChannelEvent fs # evs) \<Longrightarrow>
     loop_step spawn s ((push_all fs s)\<lparr>loop_at := Handling evs\<rparr>)"
| handled:
    "loop_at s = Handling [] \<Longrightarrow>
     loop_step spawn s (s\<lparr>ev := (ev s)\<lparr>callingPendingFunctors := True\<rparr>, loop_at := BeforeSwap\<rparr>)"
| swap:
    "loop_at s = BeforeSwap \<Longrightarrow> swap_functors (ev s) = (fs, e) \<Longrightarrow>
     loop_step spawn s (s\<lparr>ev := e, loop_at := Running fs, early := False\<rparr>)"
| run:
    "loop_at s = Running (f # fs) \<Longrightarrow>
     loop_step spawn s ((push_all (spawn f) s)\<lparr>loop_at := Running fs, done_fns := done_fns s @ [f]\<rparr>)"
| finish:
    "loop_at s = Running [] \<Longrightarrow>
     loop_step spawn s (s\<lparr>ev := (ev s)\<lparr>callingPendingFunctors := False\<rparr>, loop_at := Top\<rparr>)"

inductive loop_reach :: "('f \<Rightarrow> 'f list) \<Rightarrow> 'f loop_state \<Rightarrow> 'f loop_state \<Rightarrow> bool" for spawn s0 where
  reach_init: "loop_reach spawn s0 s0"
| reach_step: "loop_reach spawn s0 s \<Longrightarrow> loop_step spawn s s' \<Longrightarrow> loop_reach spawn s0 s'"

definition loop_init :: "'f EventLoop \<Rightarrow> 'f loop_state" where
  "loop_init e = \<lparr>ev = e, loop_at = NotStarted, owing = 0, pushed_fns = [], done_fns = [], early = False\<rparr>"

section \<open>The invariant\<close>

lemma queueInLoop_own [simp]:
  "pendingFunctors (queueInLoop True f s) = pendingFunctors s @ [f]"
  "callingPendingFunctors (queueInLoop True f s) = callingPendingFunctors s"
  "quit_flag (queueInLoop True f s) = quit_flag s"
  "timerQueue (queueInLoop True f s) = timerQueue s"
  "wakeupFd s \<le> wakeupFd (queueInLoop True f s)"
  "callingPendingFunctors s \<Longrightarrow> 0 < wakeupFd (queueInLoop True f s)"
  by (auto simp: queueInLoop_def wake_if_needed_def wakeup_def push_functor_def eventfd_max_def)

lemma queue_fold [simp]:
  "pendingFunctors (fold (queueInLoop True) fs s) = pendingFunctors s @ fs"
  "callingPendingFunctors (fold (queueInLoop True) fs s) = callingPendingFunctors s"
  "quit_flag (fold (queueInLoop True) fs s) = quit_flag s"
  "timerQueue (fold (queueInLoop True) fs s) = timerQueue s"
  by (induction fs arbitrary: s) auto

lemma queue_fold_wakes: "wakeupFd s \<le> wakeupFd (fold (queueInLoop True) fs s)"
proof (induction fs arbitrary: s)
  case (Cons f fs)
  have "wakeupFd s \<le> wakeupFd (queueInLoop True f s)" by (rule queueInLoop_own(5))
  also have "\<dots> \<le> wakeupFd (fold (queueInLoop True) fs (queueInLoop True f s))" by (rule Cons)
  finally show ?case by simp
qed simp

lemma queue_fold_woken:
  assumes "callingPendingFunctors s" "fs \<noteq> []"
  shows "0 < wakeupFd (fold (queueInLoop True) fs s)"
proof -
  obtain f gs where "fs = f # gs" using assms(2) by (cases fs) auto
  then show ?thesis
    using queueInLoop_own(6) [OF assms(1), of f] queue_fold_wakes [of "queueInLoop True f s" gs] by simp
qed

definition taken_fns :: "'f loop_state \<Rightarrow> 'f list" where
  "taken_fns s = (case loop_at s of Running fs \<Rightarrow> fs | _ \<Rightarrow> [])"

text \<open>The rest of the current iteration takes the queue.\<close>

definition will_swap :: "'f loop_state \<Rightarrow> bool" where
  "will_swap s = (case loop_at s of Handling evs \<Rightarrow> True | BeforeSwap \<Rightarrow> True | _ \<Rightarrow> False)"

definition woken :: "'f loop_state \<Rightarrow> bool" where
  "woken s \<longleftrightarrow> 0 < wakeupFd (ev s) \<or> 0 < owing s"

definition loop_inv :: "'f loop_state \<Rightarrow> bool" where
  "loop_inv s \<longleftrightarrow>
     pushed_fns s = done_fns s @ taken_fns s @ pendingFunctors (ev s) \<and>
     callingPendingFunctors (ev s) = (case loop_at s of BeforeSwap \<Rightarrow> True | Running fs \<Rightarrow> True | _ \<Rightarrow> False) \<and>
     (\<not> early s \<and> pendingFunctors (ev s) \<noteq> [] \<longrightarrow> will_swap s \<or> woken s) \<and>
     (loop_at s = Polling \<and> quit_flag (ev s) \<longrightarrow> woken s) \<and>
     (early s \<or> loop_at s = NotStarted \<longrightarrow> done_fns s = [] \<and> taken_fns s = [])"

lemmas loop_defs = loop_inv_def taken_fns_def will_swap_def woken_def

lemma wake_if_needed_simps [simp]:
  "pendingFunctors (wake_if_needed b s) = pendingFunctors s"
  "callingPendingFunctors (wake_if_needed b s) = callingPendingFunctors s"
  "quit_flag (wake_if_needed b s) = quit_flag s"
  "timerQueue (wake_if_needed b s) = timerQueue s"
  "0 < wakeupFd (wake_if_needed False s)"
  by (auto simp: wake_if_needed_def wakeup_def eventfd_max_def)

lemma loop_quit_own [simp]: "loop_quit True e = e\<lparr>quit_flag := True\<rparr>"
  by (simp add: loop_quit_def)

lemma loop_step_inv:
  assumes "loop_step spawn s s'" "loop_inv s"
  shows "loop_inv s'"
  using assms
proof (induction rule: loop_step.induct)
  case (own_queue s f)
  then show ?case by (simp add: loop_defs push_all_def)
next
  case (handle_channel s fs evs)
  then show ?case by (simp add: loop_defs push_all_def)
next
  case (run s f fs)
  then show ?case
    using queue_fold_wakes [of "ev s" "spawn f"] queue_fold_woken [of "ev s" "spawn f"]
    by (cases "spawn f = []") (auto simp: loop_defs push_all_def)
qed (auto simp: loop_defs push_functor_def loop_handleRead_def swap_functors_def split: loop_pc.splits)

lemma loop_reach_inv:
  assumes "loop_reach spawn s0 s" "loop_inv s0"
  shows "loop_inv s"
  using assms by (induction rule: loop_reach.induct) (auto dest: loop_step_inv)

lemma loop_step_timerQueue:
  "loop_step spawn s s' \<Longrightarrow> timerQueue (ev s') = timerQueue (ev s)"
  by (induction rule: loop_step.induct)
    (auto simp: push_all_def push_functor_def loop_handleRead_def swap_functors_def)

lemma loop_reach_timerQueue:
  "loop_reach spawn s0 s \<Longrightarrow> timerQueue (ev s) = timerQueue (ev s0)"
  by (induction rule: loop_reach.induct) (auto dest: loop_step_timerQueue)

lemma EventLoop_new_inv:
  assumes "EventLoop_new ctl poll wc this_thread evtfd tid = Inr (e, p)"
  shows "loop_inv (loop_init e)" "timerQueue e = None"
  using assms by (auto simp: EventLoop_new_def loop_defs loop_init_def rbind_eq_Inr split: sum.splits if_splits option.splits)

text \<open>
  How far the loop's thread is from the end of its current iteration. Once \<open>quit_\<close> is set every step that
  moves the thread brings it closer.
\<close>

fun loop_rank :: "'f loop_pc \<Rightarrow> nat \<times> nat" where
  "loop_rank NotStarted = (5, 0)"
| "loop_rank Polling = (4, 0)"
| "loop_rank (Handling evs) = (3, length evs)"
| "loop_rank BeforeSwap = (2, 0)"
| "loop_rank (Running fs) = (1, length fs)"
| "loop_rank Top = (0, 1)"
| "loop_rank Finished = (0, 0)"

inductive_cases loop_stepE: "loop_step spawn s s'"

lemma quit_step:
  assumes "loop_step spawn s s'" "quit_flag (ev s)" "loop_at s \<noteq> NotStarted"
  shows "quit_flag (ev s') \<and> loop_at s' \<noteq> NotStarted \<and>
    (loop_at s' = loop_at s \<or> (loop_rank (loop_at s'), loop_rank (loop_at s)) \<in> less_than <*lex*> less_than)"
  using assms
  by (elim loop_stepE) (auto simp: push_all_def push_functor_def loop_handleRead_def swap_functors_def)

text \<open>The loop's thread is never stuck: only in its poll does it depend on anything.\<close>

lemma loop_enabled:
  assumes "loop_at s \<noteq> Finished"
  shows "\<exists>s'. loop_step spawn s s' \<and> loop_at s' \<noteq> loop_at s"
proof (cases "loop_at s")
  case NotStarted
  then show ?thesis using loop_step.start [of s spawn] by fastforce
next
  case Top
  show ?thesis
  proof (cases "quit_flag (ev s)")
    case True
    then show ?thesis using Top loop_step.leave [of s spawn] by fastforce
  next
    case False
    then show ?thesis using Top loop_step.enter [of s spawn] by fastforce
  qed
next
  case Polling
  moreover have "reportable (ev s) []" by (simp add: reportable_def)
  ultimately show ?thesis using loop_step.poll [of s "[]" spawn] by fastforce
next
  case (Handling evs)
  show ?thesis
  proof (cases evs)
    case Nil
    then show ?thesis using Handling loop_step.handled [of s spawn] by fastforce
  next
    case (Cons e es)
    then show ?thesis
      using Handling loop_step.handle_wake [of s es spawn] loop_step.handle_channel [of s _ es spawn]
      by (cases e) fastforce+
  qed
next
  case BeforeSwap
  then show ?thesis using loop_step.swap [OF _ swap_functors_def, of s spawn] by fastforce
next
  case (Running fs)
  then show ?thesis using loop_step.finish [of s spawn] loop_step.run [of s _ _ spawn] by (cases fs) fastforce+
qed (use assms in simp)

text \<open>The sequential reading of one round: it runs the snapshot and leaves what was queued meanwhile.\<close>

lemma run_all_pending:
  "pendingFunctors (fold (run_functor spawn) fs s) = pendingFunctors s @ concat (map spawn fs)"
  "callingPendingFunctors (fold (run_functor spawn) fs s) = callingPendingFunctors s"
  by (induction fs arbitrary: s) (auto simp: run_functor_def)

lemma run_all_wakes: "wakeupFd s \<le> wakeupFd (fold (run_functor spawn) fs s)"
proof (induction fs arbitrary: s)
  case (Cons f fs)
  have "wakeupFd s \<le> wakeupFd (run_functor spawn f s)" unfolding run_functor_def by (rule queue_fold_wakes)
  also have "\<dots> \<le> wakeupFd (fold (run_functor spawn) fs (run_functor spawn f s))" by (rule Cons)
  finally show ?case by simp
qed simp

lemma run_all_woken:
  "callingPendingFunctors s \<Longrightarrow> concat (map spawn fs) \<noteq> [] \<Longrightarrow> 0 < wakeupFd (fold (run_functor spawn) fs s)"
proof (induction fs arbitrary: s)
  case (Cons f fs)
  show ?case
  proof (cases "spawn f = []")
    case True
    then show ?thesis using Cons by (simp add: run_functor_def)
  next
    case False
    then have "0 < wakeupFd (run_functor spawn f s)"
      unfolding run_functor_def using Cons.prems(1) by (intro queue_fold_woken)
    then show ?thesis using run_all_wakes [of "run_functor spawn f s" spawn fs] by simp
  qed
qed simp

text \<open>Concrete states of a run, for the samples below.\<close>

abbreviation sample_loop :: "bool \<Rightarrow> bool \<Rightarrow> nat \<Rightarrow> bool \<Rightarrow> 'f list \<Rightarrow> int \<Rightarrow> 'f EventLoop" where
  "sample_loop l q w c p tid \<equiv> \<lparr>looping = l, quit_flag = q, threadId = tid, wakeupFd = w,
     callingPendingFunctors = c, pendingFunctors = p, timerQueue = None\<rparr>"

abbreviation quiet_state :: "'f EventLoop \<Rightarrow> 'f loop_pc \<Rightarrow> nat \<Rightarrow> 'f loop_state" where
  "quiet_state e pc n \<equiv> \<lparr>ev = e, loop_at = pc, owing = n, pushed_fns = [], done_fns = [], early = False\<rparr>"

lemma reach_trans: "loop_reach spawn s1 s2 \<Longrightarrow> loop_reach spawn s0 s1 \<Longrightarrow> loop_reach spawn s0 s2"
  by (induction rule: loop_reach.induct) (auto intro: reach_step)

lemma reach_one: "loop_step spawn s s' \<Longrightarrow> loop_reach spawn s s'"
  by (blast intro: reach_init reach_step)

text \<open>A started loop that reaches its poll, and one full iteration on an empty queue with a readable event descriptor.\<close>

lemma reach_polling:
  "loop_reach spawn (quiet_state (sample_loop l q w c p tid) NotStarted n) (quiet_state (sample_loop True False w c p tid) Polling n)"
  (is "loop_reach _ ?s0 ?s2")
proof -
  let ?s1 = "quiet_state (sample_loop True False w c p tid) Top n"
  have "loop_step spawn ?s0 ?s1" using loop_step.start [of ?s0 spawn] by simp
  moreover have "loop_step spawn ?s1 ?s2" using loop_step.enter [of ?s1 spawn] by simp
  ultimately show ?thesis by (blast intro: reach_init reach_step)
qed

lemma reach_idle_round:
  assumes "0 < w"
  shows "loop_reach spawn (quiet_state (sample_loop l False w False [] tid) Polling n)
    (quiet_state (sample_loop l False 0 False [] tid) Polling n)" (is "loop_reach _ ?s0 ?s6")
proof -
  let ?s1 = "quiet_state (sample_loop l False w False [] tid) (Handling [WakeEvent]) n"
  let ?s2 = "quiet_state (sample_loop l False 0 False [] tid) (Handling []) n"
  let ?s3 = "quiet_state (sample_loop l False 0 True [] tid) BeforeSwap n"
  let ?s4 = "quiet_state (sample_loop l False 0 True [] tid) (Running []) n"
  let ?s5 = "quiet_state (sample_loop l False 0 False [] tid) Top n"
  have a1: "loop_step spawn ?s0 ?s1"
    using loop_step.poll [of ?s0 "[WakeEvent]" spawn] assms by (simp add: reportable_def)
  have a2: "loop_step spawn ?s1 ?s2"
    using loop_step.handle_wake [of ?s1 "[]" spawn] by (simp add: loop_handleRead_def)
  have a3: "loop_step spawn ?s2 ?s3" using loop_step.handled [of ?s2 spawn] by simp
  have a4: "loop_step spawn ?s3 ?s4"
    using loop_step.swap [of ?s3 "[]" "ev ?s3" spawn] by (simp add: swap_functors_def)
  have a5: "loop_step spawn ?s4 ?s5" using loop_step.finish [of ?s4 spawn] by simp
  have a6: "loop_step spawn ?s5 ?s6" using loop_step.enter [of ?s5 spawn] by simp
  show ?thesis
    by (rule reach_step [OF reach_step [OF reach_step [OF reach_step [OF reach_step [OF reach_one [OF a1] a2] a3] a4] a5] a6])
qed

definition sample_EventLoop :: "('f EventLoop \<times> (int \<rightharpoonup> events \<times> channel_id) EPollPoller) result" where
  "sample_EventLoop = EventLoop_new map_ctl (newDefaultPoller False Map.empty (\<lambda>c. Channel_new (int c))) 5
     (None :: unit option) (Inr 5) 1"

lemma sample_new:
  obtains p where "EventLoop_new map_ctl (newDefaultPoller False Map.empty (\<lambda>c. Channel_new (int c))) 5
    (None :: unit option) (Inr 5) 1 = Inr (sample_loop False False 0 False [] 1, p)"
  by (simp add: EventLoop_new_def newDefaultPoller_def set_interest_def updateChannel_def epoll_update_def
      set_chan_def map_ctl_def EPollPoller_new_def Channel_new_def index_defs)

lemma sample_push:
  "loop_reach spawn (loop_init (sample_loop False False 0 False [] tid))
    ((quiet_state (sample_loop True False 0 False [f] tid) Polling 1)\<lparr>pushed_fns := [f]\<rparr>)"
proof -
  let ?s = "quiet_state (sample_loop True False 0 False [] tid) Polling 0"
  have "loop_step spawn ?s ((quiet_state (sample_loop True False 0 False [f] tid) Polling 1)\<lparr>pushed_fns := [f]\<rparr>)"
    using loop_step.foreign_push [of spawn ?s f] by (simp add: push_functor_def)
  moreover have "loop_reach spawn (loop_init (sample_loop False False 0 False [] tid)) ?s"
    unfolding loop_init_def by (rule reach_polling)
  ultimately show ?thesis by (blast intro: reach_step)
qed

text \<open>One round of functors is finite and complete. \<open>doPendingFunctors\<close> runs exactly the functors queued when
  it starts, in order; what they queue is left for the next round, in order, even when a functor queues
  itself again, and then the loop has been woken so that the next poll returns at once.\<close>

lemma doPendingFunctors_snapshot:
  assumes "doPendingFunctors spawn s = (functors, s')"
  shows "functors = pendingFunctors s \<and> pendingFunctors s' = concat (map spawn functors) \<and>
    \<not> callingPendingFunctors s' \<and> (pendingFunctors s' \<noteq> [] \<longrightarrow> wakeupFd s' > 0)"
proof -
  let ?s1 = "s\<lparr>callingPendingFunctors := True, pendingFunctors := []\<rparr>"
  have "functors = pendingFunctors s" and s': "s' = (fold (run_functor spawn) functors ?s1)\<lparr>callingPendingFunctors := False\<rparr>"
    using assms by (auto simp: doPendingFunctors_def swap_functors_def)
  moreover have "pendingFunctors s' = concat (map spawn functors)"
    by (simp add: s' run_all_pending)
  moreover have "concat (map spawn functors) \<noteq> [] \<Longrightarrow> 0 < wakeupFd s'"
    using run_all_woken [of ?s1 spawn functors] by (simp add: s')
  ultimately show ?thesis by auto
qed

section \<open>Properties\<close>

text \<open>C4: no lost wakeup, with one exception. Whenever the loop's thread is about to block in its poll while a functor
  is queued or another thread has asked it to quit, the event descriptor is readable or the thread that
  pushed is about to write to it, in every interleaving with any number of other threads and with functors that
  queue further functors. The exception: functors that the loop's own thread queued before it called
  \<open>loop()\<close> may wait, without a wakeup, through the first poll; no functor has been run before that poll, and the flag
  that marks this state is cleared as soon as the queue is taken.\<close>

theorem EventLoop_no_lost_wakeup:
  assumes "EventLoop_new ctl poll wc this_thread evtfd tid = Inr (e, p)" "loop_reach spawn (loop_init e) s" "loop_at s = Polling"
  shows "(pendingFunctors (ev s) \<noteq> [] \<or> quit_flag (ev s)) \<longrightarrow>
    wakeupFd (ev s) > 0 \<or> owing s > 0 \<or> early s \<and> done_fns s = [] \<and> \<not> quit_flag (ev s)"
  using loop_reach_inv [OF assms(2) EventLoop_new_inv(1) [OF assms(1)]] assms(3)
  by (auto simp: loop_defs)

theorem EventLoop_no_lost_wakeup_witness:
  "\<exists>e p s. sample_EventLoop = Inr (e, p) \<and> loop_reach (\<lambda>_. []) (loop_init e) s \<and> loop_at s = Polling \<and>
    pendingFunctors (ev s) = [7 :: nat] \<and> (wakeupFd (ev s) > 0 \<or> owing s > 0)"
proof -
  let ?e = "sample_loop False False 0 False [] 1 :: nat EventLoop"
  let ?s = "(quiet_state (sample_loop True False 0 False [7] 1) Polling 1)\<lparr>pushed_fns := [7 :: nat]\<rparr>"
  obtain p where new: "sample_EventLoop = Inr (?e, p)" by (rule sample_new [folded sample_EventLoop_def])
  have "loop_at ?s = Polling" "pendingFunctors (ev ?s) = [7]" "\<not> early ?s" by simp_all
  with EventLoop_no_lost_wakeup [OF new [unfolded sample_EventLoop_def]
    sample_push [where spawn = "\<lambda>_. []" and f = "7 :: nat"]] new
    sample_push [of "\<lambda>_. []" 1 "7 :: nat"]
  show ?thesis by (intro exI [of _ ?e] exI [of _ p] exI [of _ ?s]) simp
qed

text \<open>C13: functors run in the order they were queued, each exactly once. In every reachable state the queued
  functors are those already run, followed by those taken and not yet run, followed by the queue.\<close>

theorem EventLoop_functors_fifo:
  assumes "EventLoop_new ctl poll wc this_thread evtfd tid = Inr (e, p)" "loop_reach spawn (loop_init e) s"
  shows "pushed_fns s = done_fns s @ (case loop_at s of Running fs \<Rightarrow> fs | _ \<Rightarrow> []) @ pendingFunctors (ev s)"
  using loop_reach_inv [OF assms(2) EventLoop_new_inv(1) [OF assms(1)]]
  by (simp add: loop_inv_def taken_fns_def)

theorem EventLoop_functors_fifo_witness:
  "\<exists>e p s. sample_EventLoop = Inr (e, p) \<and> loop_reach (\<lambda>_. []) (loop_init e) s \<and>
    pushed_fns s = [7 :: nat] \<and> pushed_fns s = done_fns s @ pendingFunctors (ev s)"
proof -
  let ?e = "sample_loop False False 0 False [] 1 :: nat EventLoop"
  let ?s = "(quiet_state (sample_loop True False 0 False [7] 1) Polling 1)\<lparr>pushed_fns := [7 :: nat]\<rparr>"
  obtain p where new: "sample_EventLoop = Inr (?e, p)" by (rule sample_new [folded sample_EventLoop_def])
  have "pushed_fns ?s = done_fns ?s @ pendingFunctors (ev ?s)"
    using EventLoop_functors_fifo [OF new [unfolded sample_EventLoop_def]
      sample_push [where spawn = "\<lambda>_. []" and f = "7 :: nat"]] by simp
  with new sample_push [of "\<lambda>_. []" 1 "7 :: nat"]
  show ?thesis by (intro exI [of _ ?e] exI [of _ p] exI [of _ ?s]) simp
qed

text \<open>C27: a loop that runs ends after \<open>quit\<close>. Once \<open>quit_\<close> is set on a running loop, by its own thread or another,
  it stays set and the thread can always go on until it is behind \<open>loop()\<close>; every step that moves it brings
  it closer in a well-founded order, so it polls at most once more; and if it is in that poll, the event
  descriptor is readable or the thread that called \<open>quit\<close> is about to write to it.\<close>

theorem EventLoop_quit_ends:
  assumes "EventLoop_new ctl poll wc this_thread evtfd tid = Inr (e, p)" "loop_reach spawn (loop_init e) s"
    and quit: "quit_flag (ev s)" and started: "loop_at s \<noteq> NotStarted"
  shows "(loop_at s \<noteq> Finished \<longrightarrow> (\<exists>s'. loop_step spawn s s' \<and> loop_at s' \<noteq> loop_at s)) \<and>
    (\<forall>s'. loop_step spawn s s' \<longrightarrow> quit_flag (ev s') \<and> loop_at s' \<noteq> NotStarted \<and>
      (loop_at s' = loop_at s \<or>
       (loop_rank (loop_at s'), loop_rank (loop_at s)) \<in> less_than <*lex*> less_than)) \<and>
    (loop_at s = Polling \<longrightarrow> wakeupFd (ev s) > 0 \<or> owing s > 0)"
proof (intro conjI impI allI)
  have "loop_inv s" using loop_reach_inv [OF assms(2) EventLoop_new_inv(1) [OF assms(1)]] .
  then show "loop_at s = Polling \<Longrightarrow> wakeupFd (ev s) > 0 \<or> owing s > 0" using quit by (simp add: loop_defs)
qed (use loop_enabled quit_step [OF _ quit started] in blast)+

theorem EventLoop_quit_ends_witness:
  "\<exists>(e :: nat EventLoop) p s. sample_EventLoop = Inr (e, p) \<and> loop_reach (\<lambda>_. []) (loop_init e) s \<and>
    quit_flag (ev s) \<and> loop_at s = Polling \<and> (wakeupFd (ev s) > 0 \<or> owing s > 0)"
proof -
  let ?e = "sample_loop False False 0 False [] 1 :: nat EventLoop"
  let ?s = "quiet_state (sample_loop True True 0 False [] 1) Polling 1 :: nat loop_state"
  obtain p where new: "sample_EventLoop = Inr (?e, p)" by (rule sample_new [folded sample_EventLoop_def])
  have "loop_reach (\<lambda>_. []) (loop_init ?e) (quiet_state (sample_loop True False 0 False [] 1) Polling 0)"
    using reach_polling [where spawn = "\<lambda>_. []"] by (simp add: loop_init_def)
  moreover have "loop_step (\<lambda>_. []) (quiet_state (sample_loop True False 0 False [] 1) Polling 0) ?s"
    using loop_step.foreign_quit [of "\<lambda>_. []" "quiet_state (sample_loop True False 0 False [] 1) Polling 0 :: nat loop_state"] by simp
  ultimately have "loop_reach (\<lambda>_. []) (loop_init ?e) ?s" by (rule reach_step)
  moreover from EventLoop_quit_ends [OF new [unfolded sample_EventLoop_def] this] have "wakeupFd (ev ?s) > 0 \<or> owing ?s > 0"
    by simp
  ultimately show ?thesis using new by (intro exI [of _ ?e] exI [of _ p] exI [of _ ?s]) simp
qed

text \<open>C34: a request to quit that arrives before \<open>loop()\<close> is lost. \<open>loop()\<close> clears the flag when it starts, so after
  the wakeup has been consumed the loop waits in its poll with nothing left that would stop it; a thread
  that joins the loop's thread waits for ever.\<close>

theorem quit_before_loop_is_lost:
  assumes "EventLoop_new ctl poll wc this_thread evtfd tid = Inr (e, p)"
  shows "\<exists>s1 s2. loop_step spawn (loop_init e) s1 \<and> quit_flag (ev s1) \<and> loop_reach spawn s1 s2 \<and>
    loop_at s2 = Polling \<and> \<not> quit_flag (ev s2) \<and> wakeupFd (ev s2) = 0 \<and> owing s2 = 0 \<and>
    pendingFunctors (ev s2) = []"
proof -
  have e: "e = sample_loop False False 0 False [] tid"
    using assms by (auto simp: EventLoop_new_def rbind_eq_Inr split: sum.splits if_splits option.splits)
  let ?s1 = "quiet_state (sample_loop False True 0 False [] tid) NotStarted 1"
  let ?s2 = "quiet_state (sample_loop False True 1 False [] tid) NotStarted 0"
  let ?s3 = "quiet_state (sample_loop True False 1 False [] tid) Polling 0"
  let ?s4 = "quiet_state (sample_loop True False 0 False [] tid) Polling 0"
  have "loop_step spawn (loop_init e) ?s1"
    using loop_step.foreign_quit [of spawn "loop_init e"] by (simp add: loop_init_def e)
  moreover have "loop_step spawn ?s1 ?s2"
    using loop_step.foreign_wake [of ?s1 spawn]
    by (simp add: wake_if_needed_def wakeup_def eventfd_max_def)
  then have "loop_reach spawn ?s1 ?s2" by (rule reach_one)
  moreover have "loop_reach spawn ?s2 ?s3" by (rule reach_polling)
  moreover have "loop_reach spawn ?s3 ?s4" by (rule reach_idle_round) simp
  ultimately have "loop_reach spawn ?s1 ?s4" by (blast intro: reach_trans)
  with \<open>loop_step spawn (loop_init e) ?s1\<close> show ?thesis
    by (intro exI [of _ ?s1] exI [of _ ?s4]) simp
qed

theorem quit_before_loop_is_lost_witness:
  "\<exists>(e :: nat EventLoop) p s1 s2. sample_EventLoop = Inr (e, p) \<and> loop_step (\<lambda>_. []) (loop_init e) s1 \<and>
    quit_flag (ev s1) \<and> loop_reach (\<lambda>_. []) s1 s2 \<and> loop_at s2 = Polling \<and> \<not> quit_flag (ev s2)"
proof -
  let ?e = "sample_loop False False 0 False [] 1 :: nat EventLoop"
  obtain p where new: "sample_EventLoop = Inr (?e, p)" by (rule sample_new [folded sample_EventLoop_def])
  from quit_before_loop_is_lost [OF new [unfolded sample_EventLoop_def], where spawn = "\<lambda>_. []"] new
  show ?thesis by blast
qed

text \<open>C33: timers cannot be used through the loop. The constructor leaves \<open>timerQueue_\<close> null and no step of the
  loop changes that, so in every reachable state \<open>runAt\<close>, \<open>runAfter\<close>, \<open>runEvery\<close> and \<open>cancel\<close> go through a
  null pointer.\<close>

theorem timers_dereference_null:
  assumes "EventLoop_new ctl poll wc this_thread evtfd tid = Inr (e, p)" "loop_reach spawn (loop_init e) s"
    and "addTime now d = Inr t"
  shows "runAt malloc inLoop now when cb (ev s) = Inl NullDeref \<and>
    runAfter malloc inLoop now d cb (ev s) = Inl NullDeref \<and>
    runEvery malloc inLoop now d cb (ev s) = Inl NullDeref \<and>
    loop_cancel inLoop tid' (ev s) = Inl NullDeref"
proof -
  have "timerQueue (ev s) = None"
    using loop_reach_timerQueue [OF assms(2)] EventLoop_new_inv(2) [OF assms(1)] by (simp add: loop_init_def)
  then show ?thesis
    using assms(3) by (simp add: runAt_def runAfter_def runEvery_def loop_cancel_def with_timerQueue_def)
qed

theorem timers_dereference_null_witness:
  "\<exists>s :: nat loop_state. runAfter sample_malloc True (Timestamp 0) (Finite 1 0) 7 (ev s) = Inl NullDeref \<and>
    loop_at s = Polling"
proof -
  have "addTime (Timestamp 0) (Finite 1 0) = Inr (Timestamp 1000000)"
    using addTime_whole [of 1 "Timestamp 0"] by simp
  moreover obtain p where new: "sample_EventLoop = Inr (sample_loop False False 0 False [] 1 :: nat EventLoop, p)"
    by (rule sample_new [folded sample_EventLoop_def])
  ultimately show ?thesis
    using timers_dereference_null [OF new [unfolded sample_EventLoop_def] sample_push [where spawn = "\<lambda>_. []" and f = 7]]
    by fastforce
qed

end
