(* ===== verification/Net_Buffer.thy ===== *)
theory Net_Buffer
  imports Cpp_Prelude
begin

text \<open>
  \<open>src/net/Buffer.h\<close> and \<open>src/net/Buffer.cc\<close>: the growing byte buffer with a read and a write index.
  Every operation of the class is one definition; a throw of \<open>resize\<close> and an access outside the
  vector are the failures of its result. The system calls \<open>readv\<close> and \<open>write\<close> are arguments: they
  take what the code hands to the kernel and give back \<open>errno\<close> or what was transferred.
  The abstraction \<open>Buffer_content\<close> is the readable part. The locale \<open>byte_queue\<close> is what the
  connections rely on: a first-in first-out queue of bytes.
\<close>

section \<open>The class\<close>

record Buffer =
  buffer :: "char list"
  readerIndex :: size_t
  writerIndex :: size_t

definition kCheapPrepend :: size_t where "kCheapPrepend = 8"
definition kInitialSize :: size_t where "kInitialSize = 1024"

definition Buffer_new :: "size_t \<Rightarrow> Buffer" where
  "Buffer_new initialSize =
     \<lparr>buffer = replicate (sz_add initialSize kCheapPrepend) (CHR 0x00),
      readerIndex = kCheapPrepend, writerIndex = kCheapPrepend\<rparr>"

definition readableBytes :: "Buffer \<Rightarrow> size_t" where
  "readableBytes b = sz_sub (writerIndex b) (readerIndex b)"

definition wirteableBytes :: "Buffer \<Rightarrow> size_t" where
  "wirteableBytes b = sz_sub (length (buffer b)) (writerIndex b)"

definition prependableBytes :: "Buffer \<Rightarrow> size_t" where
  "prependableBytes b = readerIndex b"

definition retrieveAll :: "Buffer \<Rightarrow> Buffer" where
  "retrieveAll b = b\<lparr>readerIndex := kCheapPrepend, writerIndex := kCheapPrepend\<rparr>"

definition retrieve :: "Buffer \<Rightarrow> size_t \<Rightarrow> Buffer" where
  "retrieve b len =
     (if len < readableBytes b then b\<lparr>readerIndex := sz_add (readerIndex b) len\<rparr>
      else retrieveAll b)"

text \<open>\<open>std::string result(peek(), len)\<close> copies \<open>len\<close> characters from the read index.\<close>

definition retrieveAsString :: "Buffer \<Rightarrow> size_t \<Rightarrow> (string \<times> Buffer) result" where
  "retrieveAsString b len =
     rbind (read_range (buffer b) (readerIndex b) len) (\<lambda>result. Inr (result, retrieve b len))"

definition retrieveAllAsString :: "Buffer \<Rightarrow> (string \<times> Buffer) result" where
  "retrieveAllAsString b = retrieveAsString b (readableBytes b)"

definition makeSpace :: "Buffer \<Rightarrow> size_t \<Rightarrow> Buffer result" where
  "makeSpace b len =
     (if sz_add (wirteableBytes b) (prependableBytes b) < sz_add len kCheapPrepend
      then rbind (vec_resize (buffer b) (sz_add (writerIndex b) len)) (\<lambda>v. Inr (b\<lparr>buffer := v\<rparr>))
      else let readable = readableBytes b in
        rbind (read_range (buffer b) (readerIndex b) (writerIndex b - readerIndex b)) (\<lambda>xs.
        rbind (write_at (buffer b) kCheapPrepend xs) (\<lambda>v.
          Inr (b\<lparr>buffer := v, readerIndex := kCheapPrepend,
                 writerIndex := sz_add kCheapPrepend readable\<rparr>))))"

definition ensureWriteableBytes :: "Buffer \<Rightarrow> size_t \<Rightarrow> Buffer result" where
  "ensureWriteableBytes b len = (if wirteableBytes b < len then makeSpace b len else Inr b)"

definition Buffer_append :: "Buffer \<Rightarrow> char list \<Rightarrow> Buffer result" where
  "Buffer_append b data =
     rbind (ensureWriteableBytes b (length data)) (\<lambda>b'.
     rbind (write_at (buffer b') (writerIndex b') data) (\<lambda>v.
       Inr (b'\<lparr>buffer := v, writerIndex := sz_add (writerIndex b') (length data)\<rparr>)))"

text \<open>
  \<open>readv\<close> gets the lengths of the blocks and answers with \<open>errno\<close> or with the bytes it scattered
  over them in order. The result is the return value, the saved \<open>errno\<close> and the buffer.
\<close>

definition extrabuf_size :: size_t where "extrabuf_size = 65536"

definition readFd :: "(size_t list \<Rightarrow> int + char list) \<Rightarrow> Buffer \<Rightarrow> (int \<times> int \<times> Buffer) result" where
  "readFd readv b =
     (let writeable = wirteableBytes b;
          vec = (if writeable < extrabuf_size then [writeable, extrabuf_size] else [writeable])
      in case readv vec of
           Inl errno \<Rightarrow> Inr (- 1, errno, b)
         | Inr bytes \<Rightarrow>
             rbind (write_at (buffer b) (writerIndex b) (take writeable bytes)) (\<lambda>v.
               if length bytes \<le> writeable
               then Inr (int (length bytes), 0,
                         b\<lparr>buffer := v, writerIndex := sz_add (writerIndex b) (length bytes)\<rparr>)
               else rbind (Buffer_append (b\<lparr>buffer := v, writerIndex := length v\<rparr>)
                            (drop writeable bytes))
                          (\<lambda>b'. Inr (int (length bytes), 0, b'))))"

text \<open>\<open>write\<close> gets the readable bytes and answers with \<open>errno\<close> or how many it took.\<close>

definition writeFd :: "(char list \<Rightarrow> int + nat) \<Rightarrow> Buffer \<Rightarrow> (int \<times> int) result" where
  "writeFd write b =
     rbind (read_range (buffer b) (readerIndex b) (readableBytes b)) (\<lambda>data.
       case write data of Inl errno \<Rightarrow> Inr (- 1, errno) | Inr n \<Rightarrow> Inr (int n, 0))"

section \<open>Invariant and abstraction\<close>

definition Buffer_inv :: "Buffer \<Rightarrow> bool" where
  "Buffer_inv b \<longleftrightarrow>
     kCheapPrepend \<le> readerIndex b \<and> readerIndex b \<le> writerIndex b \<and>
     writerIndex b \<le> length (buffer b) \<and> length (buffer b) \<le> max_size"

definition Buffer_content :: "Buffer \<Rightarrow> char list" where
  "Buffer_content b = slice (buffer b) (readerIndex b) (writerIndex b)"

text \<open>
  Room for \<open>n\<close> more bytes behind \<open>m\<close> readable ones. The vector grows to \<open>writerIndex + n\<close>, and the
  free space in front is below \<open>n + 8\<close> when it does, so \<open>m + 2 n + 8\<close> bounds the new size.
\<close>

definition Buffer_room :: "nat \<Rightarrow> nat \<Rightarrow> bool" where
  "Buffer_room m n \<longleftrightarrow> m + 2 * n + kCheapPrepend \<le> max_size"

lemma Buffer_invD:
  assumes "Buffer_inv b"
  shows "8 \<le> readerIndex b" "readerIndex b \<le> writerIndex b"
    "writerIndex b \<le> length (buffer b)" "length (buffer b) \<le> max_size"
    "length (buffer b) < 2 ^ 63"
  using assms by (auto simp: Buffer_inv_def kCheapPrepend_def max_size_def)

lemma Buffer_sizes:
  assumes "Buffer_inv b"
  shows "readableBytes b = writerIndex b - readerIndex b"
    "wirteableBytes b = length (buffer b) - writerIndex b"
    "readableBytes b = length (Buffer_content b)"
  using Buffer_invD [OF assms]
  by (simp_all add: readableBytes_def wirteableBytes_def Buffer_content_def size_simps)

lemma Buffer_new_ok:
  assumes "n + 8 \<le> max_size"
  shows "Buffer_inv (Buffer_new n)" "Buffer_content (Buffer_new n) = []"
  using assms
  by (simp_all add: Buffer_inv_def Buffer_new_def Buffer_content_def kCheapPrepend_def
      max_size_def size_simps)

lemma retrieveAll_ok:
  assumes "Buffer_inv b"
  shows "Buffer_inv (retrieveAll b)" "Buffer_content (retrieveAll b) = []"
  using Buffer_invD [OF assms]
  by (simp_all add: Buffer_inv_def retrieveAll_def Buffer_content_def kCheapPrepend_def)

lemma retrieve_ok:
  assumes "Buffer_inv b"
  shows "Buffer_inv (retrieve b n)" "Buffer_content (retrieve b n) = drop n (Buffer_content b)"
proof -
  note inv = Buffer_invD [OF assms] and sz = Buffer_sizes [OF assms]
  have "Buffer_inv (retrieve b n) \<and> Buffer_content (retrieve b n) = drop n (Buffer_content b)"
  proof (cases "n < readableBytes b")
    case True
    then have "sz_add (readerIndex b) n = readerIndex b + n"
      using inv sz by (simp add: size_simps)
    with True show ?thesis
      using inv sz by (simp add: retrieve_def Buffer_inv_def Buffer_content_def kCheapPrepend_def)
  next
    case False
    then show ?thesis
      using retrieveAll_ok [OF assms] sz by (simp add: retrieve_def)
  qed
  then show "Buffer_inv (retrieve b n)" "Buffer_content (retrieve b n) = drop n (Buffer_content b)"
    by auto
qed

lemma retrieveAsString_ok:
  assumes "Buffer_inv b" "n \<le> length (Buffer_content b)"
  shows "retrieveAsString b n = Inr (take n (Buffer_content b), retrieve b n)"
proof -
  note inv = Buffer_invD [OF assms(1)]
  have n: "n \<le> writerIndex b - readerIndex b"
    using assms inv by (simp add: Buffer_content_def)
  then have "read_range (buffer b) (readerIndex b) n = Inr (take n (drop (readerIndex b) (buffer b)))"
    using inv by (simp add: mem_simps)
  moreover have "take n (drop (readerIndex b) (buffer b)) = take n (Buffer_content b)"
    using n by (simp add: Buffer_content_def slice_def min_def)
  ultimately show ?thesis by (simp add: retrieveAsString_def)
qed

lemma makeSpace_ok:
  assumes "Buffer_inv b" "wirteableBytes b < n" "Buffer_room (length (Buffer_content b)) n"
  shows "\<exists>b'. makeSpace b n = Inr b' \<and> Buffer_inv b' \<and> Buffer_content b' = Buffer_content b \<and>
    n \<le> wirteableBytes b'"
proof -
  note inv = Buffer_invD [OF assms(1)] and sz = Buffer_sizes [OF assms(1)]
  have len: "length (Buffer_content b) = writerIndex b - readerIndex b"
    using inv by (simp add: Buffer_content_def)
  have room: "writerIndex b - readerIndex b + 2 * n + 8 \<le> max_size"
    using assms(3) len by (simp add: Buffer_room_def kCheapPrepend_def)
  have small: "n < 2 ^ 63" using room by (simp add: max_size_def)
  have sums: "sz_add (wirteableBytes b) (prependableBytes b)
      = length (buffer b) - writerIndex b + readerIndex b"
    "sz_add n kCheapPrepend = n + 8"
    using inv sz small by (simp_all add: size_simps prependableBytes_def kCheapPrepend_def)
  show ?thesis
  proof (cases "sz_add (wirteableBytes b) (prependableBytes b) < sz_add n kCheapPrepend")
    case True
    then have w: "writerIndex b + n \<le> max_size"
      using room sums inv by simp
    then have add: "sz_add (writerIndex b) n = writerIndex b + n"
      by (simp add: size_simps max_size_def)
    let ?v = "take (writerIndex b + n) (buffer b)
        @ replicate (writerIndex b + n - length (buffer b)) (CHR 0x00)"
    have grow: "length (buffer b) \<le> writerIndex b + n"
      using assms(2) sz inv by simp
    then have lv: "length ?v = writerIndex b + n" by simp
    have eq: "makeSpace b n = Inr (b\<lparr>buffer := ?v\<rparr>)"
      using True w add by (simp add: makeSpace_def mem_simps)
    have "Buffer_inv (b\<lparr>buffer := ?v\<rparr>)"
      using inv w lv by (simp add: Buffer_inv_def kCheapPrepend_def)
    moreover from this have "n \<le> wirteableBytes (b\<lparr>buffer := ?v\<rparr>)"
      using lv by (simp add: Buffer_sizes)
    moreover have "Buffer_content (b\<lparr>buffer := ?v\<rparr>) = Buffer_content b"
      using inv by (simp add: Buffer_content_def slice_take_prefix)
    ultimately show ?thesis using eq by blast
  next
    case False
    let ?xs = "Buffer_content b"
    have rd: "read_range (buffer b) (readerIndex b) (writerIndex b - readerIndex b) = Inr ?xs"
      using inv by (simp add: mem_simps Buffer_content_def slice_def)
    let ?v = "take 8 (buffer b) @ ?xs @ drop (8 + length ?xs) (buffer b)"
    have fit: "8 + length ?xs \<le> length (buffer b)" using len inv by simp
    let ?b = "b\<lparr>buffer := ?v, readerIndex := 8, writerIndex := 8 + length ?xs\<rparr>"
    have eq: "makeSpace b n = Inr ?b"
      using False rd fit len inv sz
      by (simp add: makeSpace_def mem_simps Let_def kCheapPrepend_def size_simps)
    have lv: "length ?v = length (buffer b)" using fit by simp
    have "Buffer_inv ?b"
      using inv fit lv by (simp add: Buffer_inv_def kCheapPrepend_def)
    moreover from this have "n \<le> wirteableBytes ?b"
      using False sums lv len inv by (simp add: Buffer_sizes)
    moreover have "Buffer_content ?b = ?xs"
      using fit slice_write_behind [of 8 8 ?xs "buffer b"] by (simp add: Buffer_content_def)
    ultimately show ?thesis using eq by blast
  qed
qed

lemma ensureWriteableBytes_ok:
  assumes "Buffer_inv b" "Buffer_room (length (Buffer_content b)) n"
  shows "\<exists>b'. ensureWriteableBytes b n = Inr b' \<and> Buffer_inv b' \<and>
    Buffer_content b' = Buffer_content b \<and> n \<le> wirteableBytes b'"
  using makeSpace_ok [OF assms(1) _ assms(2)] assms(1)
  by (cases "wirteableBytes b < n") (auto simp: ensureWriteableBytes_def)

text \<open>Storing \<open>xs\<close> at the write index of a buffer with enough free space.\<close>

lemma Buffer_store_ok:
  assumes "Buffer_inv b" "length xs \<le> wirteableBytes b"
  shows "\<exists>v. write_at (buffer b) (writerIndex b) xs = Inr v \<and> length v = length (buffer b) \<and>
    Buffer_inv (b\<lparr>buffer := v, writerIndex := sz_add (writerIndex b) (length xs)\<rparr>) \<and>
    Buffer_content (b\<lparr>buffer := v, writerIndex := sz_add (writerIndex b) (length xs)\<rparr>)
      = Buffer_content b @ xs"
proof -
  note inv = Buffer_invD [OF assms(1)] and sz = Buffer_sizes [OF assms(1)]
  have fit: "writerIndex b + length xs \<le> length (buffer b)" using assms(2) inv sz by simp
  then have add: "sz_add (writerIndex b) (length xs) = writerIndex b + length xs"
    using inv by (simp add: size_simps)
  let ?v = "take (writerIndex b) (buffer b) @ xs @ drop (writerIndex b + length xs) (buffer b)"
  have "write_at (buffer b) (writerIndex b) xs = Inr ?v" using fit by (rule write_at_ok)
  moreover have "length ?v = length (buffer b)" using fit by simp
  moreover from this have "Buffer_inv (b\<lparr>buffer := ?v, writerIndex := writerIndex b + length xs\<rparr>)"
    using inv fit by (simp add: Buffer_inv_def kCheapPrepend_def)
  moreover have "Buffer_content (b\<lparr>buffer := ?v, writerIndex := writerIndex b + length xs\<rparr>)
      = Buffer_content b @ xs"
    using slice_write_behind [OF inv(2) fit] by (simp add: Buffer_content_def)
  ultimately show ?thesis by (auto simp: add)
qed

lemma Buffer_append_ok:
  assumes "Buffer_inv b" "Buffer_room (length (Buffer_content b)) (length xs)"
  shows "\<exists>b'. Buffer_append b xs = Inr b' \<and> Buffer_inv b' \<and>
    Buffer_content b' = Buffer_content b @ xs"
proof -
  obtain b1 where b1: "ensureWriteableBytes b (length xs) = Inr b1" "Buffer_inv b1"
      "Buffer_content b1 = Buffer_content b" "length xs \<le> wirteableBytes b1"
    using ensureWriteableBytes_ok [OF assms] by blast
  from Buffer_store_ok [OF b1(2,4)] show ?thesis
    using b1 by (auto simp: Buffer_append_def)
qed


section \<open>The system calls\<close>

text \<open>
  \<open>readv(2)\<close> fills the blocks in order, so it returns at most as many bytes as they hold;
  \<open>write(2)\<close> takes at most the bytes it is given.
\<close>

definition readv_spec :: "(size_t list \<Rightarrow> int + char list) \<Rightarrow> bool" where
  "readv_spec readv \<longleftrightarrow> (\<forall>vec bytes. readv vec = Inr bytes \<longrightarrow> length bytes \<le> sum_list vec)"

definition write_spec :: "(char list \<Rightarrow> int + nat) \<Rightarrow> bool" where
  "write_spec write \<longleftrightarrow> (\<forall>xs n. write xs = Inr n \<longrightarrow> n \<le> length xs)"

lemma write_specD: "write_spec write \<Longrightarrow> write xs = Inr n \<Longrightarrow> n \<le> length xs"
  by (auto simp: write_spec_def)

definition readFd_vec :: "Buffer \<Rightarrow> size_t list" where
  "readFd_vec b = (if wirteableBytes b < extrabuf_size then [wirteableBytes b, extrabuf_size]
     else [wirteableBytes b])"

lemma readFd_unfold:
  "readFd readv b = (case readv (readFd_vec b) of
       Inl errno \<Rightarrow> Inr (- 1, errno, b)
     | Inr bytes \<Rightarrow>
         rbind (write_at (buffer b) (writerIndex b) (take (wirteableBytes b) bytes)) (\<lambda>v.
           if length bytes \<le> wirteableBytes b
           then Inr (int (length bytes), 0,
                     b\<lparr>buffer := v, writerIndex := sz_add (writerIndex b) (length bytes)\<rparr>)
           else rbind (Buffer_append (b\<lparr>buffer := v, writerIndex := length v\<rparr>)
                        (drop (wirteableBytes b) bytes))
                      (\<lambda>b'. Inr (int (length bytes), 0, b'))))"
  by (simp add: readFd_def readFd_vec_def Let_def)

lemma readFd_spill:
  assumes inv: "Buffer_inv b" and long: "\<not> length bytes \<le> wirteableBytes b"
    and bound: "length bytes \<le> sum_list (readFd_vec b)"
    and room: "length (buffer b) + 2 * extrabuf_size + kCheapPrepend \<le> max_size"
    and ans: "readv (readFd_vec b) = Inr bytes"
  shows "\<exists>b'. readFd readv b = Inr (int (length bytes), 0, b') \<and> Buffer_inv b' \<and>
    Buffer_content b' = Buffer_content b @ bytes"
proof -
  let ?w = "wirteableBytes b" let ?fst = "take ?w bytes" let ?snd = "drop ?w bytes"
  note dims = Buffer_invD [OF inv] and sz = Buffer_sizes [OF inv]
  have l1: "length ?fst = ?w" using long by simp
  obtain v where v: "write_at (buffer b) (writerIndex b) ?fst = Inr v"
      "length v = length (buffer b)"
      "Buffer_inv (b\<lparr>buffer := v, writerIndex := sz_add (writerIndex b) ?w\<rparr>)"
      "Buffer_content (b\<lparr>buffer := v, writerIndex := sz_add (writerIndex b) ?w\<rparr>)
        = Buffer_content b @ ?fst"
    using Buffer_store_ok [OF inv, of ?fst] l1 by auto
  have "sz_add (writerIndex b) ?w = length v"
    using dims sz v(2) by (simp add: size_simps)
  with v have full: "Buffer_inv (b\<lparr>buffer := v, writerIndex := length v\<rparr>)"
      "Buffer_content (b\<lparr>buffer := v, writerIndex := length v\<rparr>) = Buffer_content b @ ?fst"
    by simp_all
  have "length ?snd \<le> extrabuf_size"
    using bound long by (auto simp: readFd_vec_def split: if_splits)
  moreover have "length (Buffer_content b @ ?fst) \<le> length (buffer b)"
    using dims sz l1 by (simp add: Buffer_content_def)
  ultimately have "Buffer_room (length (Buffer_content b @ ?fst)) (length ?snd)"
    using room by (simp add: Buffer_room_def)
  then obtain b' where
      "Buffer_append (b\<lparr>buffer := v, writerIndex := length v\<rparr>) ?snd = Inr b'"
      "Buffer_inv b'" "Buffer_content b' = Buffer_content b @ bytes"
    using Buffer_append_ok [OF full(1), of ?snd] full(2) by auto
  then show ?thesis
    using v(1) long ans by (simp add: readFd_unfold)
qed

lemma readFd_fit:
  assumes inv: "Buffer_inv b" and short: "length bytes \<le> wirteableBytes b"
    and ans: "readv (readFd_vec b) = Inr bytes"
  shows "\<exists>b'. readFd readv b = Inr (int (length bytes), 0, b') \<and> Buffer_inv b' \<and>
    Buffer_content b' = Buffer_content b @ bytes"
proof -
  obtain v where "write_at (buffer b) (writerIndex b) bytes = Inr v"
      "Buffer_inv (b\<lparr>buffer := v, writerIndex := sz_add (writerIndex b) (length bytes)\<rparr>)"
      "Buffer_content (b\<lparr>buffer := v, writerIndex := sz_add (writerIndex b) (length bytes)\<rparr>)
        = Buffer_content b @ bytes"
    using Buffer_store_ok [OF inv short] by blast
  then show ?thesis using short ans by (simp add: readFd_unfold)
qed

lemma readFd_ok:
  assumes "Buffer_inv b" "readv_spec readv"
    and "length (buffer b) + 2 * extrabuf_size + kCheapPrepend \<le> max_size"
  shows "\<exists>n e b'. readFd readv b = Inr (n, e, b') \<and> Buffer_inv b' \<and>
    (case readv (readFd_vec b) of
       Inl errno \<Rightarrow> n = - 1 \<and> e = errno \<and> b' = b
     | Inr bytes \<Rightarrow> n = int (length bytes) \<and> Buffer_content b' = Buffer_content b @ bytes)"
proof (cases "readv (readFd_vec b)")
  case (Inl errno)
  with assms(1) show ?thesis by (simp add: readFd_unfold)
next
  case (Inr bytes)
  then have "length bytes \<le> sum_list (readFd_vec b)"
    using assms(2) by (auto simp: readv_spec_def)
  with Inr show ?thesis
    using readFd_fit [of b bytes readv] readFd_spill [of b bytes readv] assms(1,3)
    by (cases "length bytes \<le> wirteableBytes b") auto
qed

lemma writeFd_ok:
  assumes "Buffer_inv b"
  shows "writeFd write b = Inr (case write (Buffer_content b) of
    Inl errno \<Rightarrow> (- 1, errno) | Inr n \<Rightarrow> (int n, 0))"
  using Buffer_invD [OF assms] Buffer_sizes [OF assms]
  by (auto simp: writeFd_def mem_simps Buffer_content_def slice_def split: sum.splits)

section \<open>The contract: a queue of bytes\<close>

text \<open>
  Clients append at one end and drop from the other. \<open>fifo_run\<close> is the specification on plain
  lists, \<open>byte_run\<close> runs the same operations on a representation.
\<close>

datatype byte_op = PushBytes "char list" | PopBytes nat

fun fifo_run :: "char list \<Rightarrow> byte_op list \<Rightarrow> char list" where
  "fifo_run xs [] = xs"
| "fifo_run xs (PushBytes ys # ops) = fifo_run (xs @ ys) ops"
| "fifo_run xs (PopBytes n # ops) = fifo_run (drop n xs) ops"

fun byte_run :: "('b \<Rightarrow> char list \<Rightarrow> 'b result) \<Rightarrow> ('b \<Rightarrow> nat \<Rightarrow> 'b) \<Rightarrow> 'b \<Rightarrow> byte_op list \<Rightarrow> 'b result"
  where
  "byte_run push pop b [] = Inr b"
| "byte_run push pop b (PushBytes ys # ops) = rbind (push b ys) (\<lambda>b'. byte_run push pop b' ops)"
| "byte_run push pop b (PopBytes n # ops) = byte_run push pop (pop b n) ops"

fun pushed :: "byte_op list \<Rightarrow> nat" where
  "pushed [] = 0"
| "pushed (PushBytes ys # ops) = length ys + pushed ops"
| "pushed (PopBytes n # ops) = pushed ops"

locale byte_queue =
  fixes inv :: "'b \<Rightarrow> bool"
    and content :: "'b \<Rightarrow> char list"
    and room :: "nat \<Rightarrow> nat \<Rightarrow> bool"
    and push :: "'b \<Rightarrow> char list \<Rightarrow> 'b result"
    and pop :: "'b \<Rightarrow> nat \<Rightarrow> 'b"
  assumes push_ok: "inv b \<Longrightarrow> room (length (content b)) (length xs) \<Longrightarrow>
      \<exists>b'. push b xs = Inr b' \<and> inv b' \<and> content b' = content b @ xs"
    and pop_inv: "inv b \<Longrightarrow> inv (pop b n)"
    and pop_content: "inv b \<Longrightarrow> content (pop b n) = drop n (content b)"
    and room_anti: "room m n \<Longrightarrow> m' \<le> m \<Longrightarrow> n' \<le> n \<Longrightarrow> room m' n'"
begin

lemma run_refines_bounded:
  "inv b \<Longrightarrow> room m n \<Longrightarrow> length (content b) + pushed ops \<le> m \<Longrightarrow> pushed ops \<le> n \<Longrightarrow>
    \<exists>b'. byte_run push pop b ops = Inr b' \<and> inv b' \<and> content b' = fifo_run (content b) ops"
proof (induction ops arbitrary: b)
  case Nil
  then show ?case by simp
next
  case (Cons oper ops)
  show ?case
  proof (cases oper)
    case (PushBytes ys)
    have "room (length (content b)) (length ys)"
      using Cons.prems PushBytes by (auto intro: room_anti)
    then obtain b1 where "push b ys = Inr b1" "inv b1" "content b1 = content b @ ys"
      using push_ok [OF Cons.prems(1)] by blast
    with Cons.IH [of b1] Cons.prems PushBytes show ?thesis by simp
  next
    case (PopBytes k)
    with Cons.IH [of "pop b k"] Cons.prems show ?thesis
      by (simp add: pop_inv pop_content)
  qed
qed

lemma run_refines:
  "inv b \<Longrightarrow> room (length (content b) + pushed ops) (pushed ops) \<Longrightarrow>
    \<exists>b'. byte_run push pop b ops = Inr b' \<and> inv b' \<and> content b' = fifo_run (content b) ops"
  by (rule run_refines_bounded) auto

lemma push_pop_all:
  "inv b \<Longrightarrow> content b = [] \<Longrightarrow> room 0 (length xs) \<Longrightarrow>
    \<exists>b'. push b xs = Inr b' \<and> content (pop b' (length xs)) = []"
  using push_ok [of b xs] pop_content by force

end

interpretation buf: byte_queue Buffer_inv Buffer_content Buffer_room Buffer_append retrieve
proof unfold_locales
  fix b :: Buffer and xs :: "char list"
  assume "Buffer_inv b" "Buffer_room (length (Buffer_content b)) (length xs)"
  then show "\<exists>b'. Buffer_append b xs = Inr b' \<and> Buffer_inv b' \<and>
      Buffer_content b' = Buffer_content b @ xs"
    by (rule Buffer_append_ok)
qed (auto simp: retrieve_ok Buffer_room_def)

section \<open>Properties\<close>

text \<open>C7: a buffer is a first-in first-out byte queue. Whatever sequence of \<open>append\<close> and \<open>retrieve\<close>
  is run on a well-formed buffer, nothing is thrown, no access leaves the vector, and the readable
  bytes are those the same operations leave on a plain list, as long as the total stays below the
  vector's maximal size.\<close>

theorem Buffer_refines_fifo:
  assumes "Buffer_inv b"
    and "Buffer_room (length (Buffer_content b) + pushed ops) (pushed ops)"
  shows "\<exists>b'. byte_run Buffer_append retrieve b ops = Inr b' \<and> Buffer_inv b' \<and>
    Buffer_content b' = fifo_run (Buffer_content b) ops"
  using assms by (rule buf.run_refines)

theorem Buffer_refines_fifo_witness:
  "\<exists>b'. byte_run Buffer_append retrieve (Buffer_new 4)
      [PushBytes ''abcdef'', PopBytes 4, PushBytes ''ghi''] = Inr b' \<and> Buffer_inv b' \<and>
    Buffer_content b' = ''efghi''"
  using Buffer_refines_fifo [of "Buffer_new 4" "[PushBytes ''abcdef'', PopBytes 4, PushBytes ''ghi'']"]
    Buffer_new_ok [of 4]
  by (simp add: max_size_def Buffer_room_def kCheapPrepend_def)

text \<open>C22: \<open>readFd\<close> loses and reorders nothing. Whether the bytes fit into the free space of the
  vector or spill into the stack block and are appended from there, the readable part becomes its
  old value followed by exactly the bytes the kernel delivered, and their number is returned; on an
  error the buffer is unchanged and \<open>errno\<close> is saved.\<close>

theorem readFd_appends_what_was_read:
  assumes "Buffer_inv b" "readv_spec readv"
    and "length (buffer b) + 2 * extrabuf_size + kCheapPrepend \<le> max_size"
  shows "\<exists>n e b'. readFd readv b = Inr (n, e, b') \<and> Buffer_inv b' \<and>
    (case readv (readFd_vec b) of
       Inl errno \<Rightarrow> n = - 1 \<and> e = errno \<and> b' = b
     | Inr bytes \<Rightarrow> n = int (length bytes) \<and> Buffer_content b' = Buffer_content b @ bytes)"
  using assms by (rule readFd_ok)

text \<open>A socket with seven bytes waiting, read into a buffer with four bytes of free space.\<close>

definition sample_readv :: "size_t list \<Rightarrow> int + char list" where
  "sample_readv vec = Inr (take (sum_list vec) ''payload'')"

theorem readFd_appends_what_was_read_witness:
  "\<exists>b'. readFd sample_readv (Buffer_new 4) = Inr (7, 0, b') \<and> Buffer_content b' = ''payload''"
proof -
  let ?b = "Buffer_new 4"
  have w: "wirteableBytes ?b = 4"
    using Buffer_sizes(2) [OF Buffer_new_ok(1), of 4]
    by (simp add: max_size_def Buffer_new_def kCheapPrepend_def sz_add_def)
  have inv: "Buffer_inv ?b" "Buffer_content ?b = []"
    using Buffer_new_ok [of 4] by (simp_all add: max_size_def)
  have spec: "readv_spec sample_readv"
    by (auto simp: readv_spec_def sample_readv_def)
  have "length (buffer ?b) = 12"
    by (simp add: Buffer_new_def kCheapPrepend_def sz_add_def)
  then have small: "length (buffer ?b) + 2 * extrabuf_size + kCheapPrepend \<le> max_size"
    by (simp add: extrabuf_size_def kCheapPrepend_def max_size_def)
  have ans: "sample_readv (readFd_vec ?b) = Inr ''payload''"
    by (simp add: sample_readv_def readFd_vec_def w extrabuf_size_def)
  show ?thesis
    using readFd_appends_what_was_read [OF inv(1) spec small] inv(2) ans
    by (auto simp: readFd_unfold rbind_eq_Inr split: if_splits)
qed

text \<open>What was appended can be taken out again. After \<open>append\<close> to a well-formed buffer,
  \<open>retrieveAllAsString\<close> returns the old readable bytes followed by the new ones and leaves an empty,
  well-formed buffer with its indices back at the front.\<close>

lemma append_retrieveAllAsString:
  assumes "Buffer_inv b" "Buffer_room (length (Buffer_content b)) (length xs)"
  shows "\<exists>b1 b2. Buffer_append b xs = Inr b1 \<and>
    retrieveAllAsString b1 = Inr (Buffer_content b @ xs, b2) \<and>
    Buffer_inv b2 \<and> Buffer_content b2 = [] \<and> prependableBytes b2 = kCheapPrepend"
proof -
  obtain b1 where b1: "Buffer_append b xs = Inr b1" "Buffer_inv b1"
      "Buffer_content b1 = Buffer_content b @ xs"
    using Buffer_append_ok [OF assms] by blast
  let ?n = "readableBytes b1"
  have n: "?n = length (Buffer_content b1)" using Buffer_sizes(3) [OF b1(2)] .
  have "retrieveAllAsString b1 = Inr (Buffer_content b1, retrieve b1 ?n)"
    using retrieveAsString_ok [OF b1(2), of ?n] n by (simp add: retrieveAllAsString_def)
  moreover have "retrieve b1 ?n = retrieveAll b1"
    by (simp add: retrieve_def)
  ultimately show ?thesis
    using b1 retrieveAll_ok [OF b1(2)] by (auto simp: retrieveAll_def prependableBytes_def)
qed

end
