(* ===== verification/Net_Acceptor.thy ===== *)
theory Net_Acceptor
  imports Net_Poller
begin

text \<open>
  \<open>src/net/InetAddress\<close>, \<open>Socket\<close> and \<open>Acceptor\<close>: addresses and their text, the listening socket, and what
  the acceptor does when it is readable. The answers of system calls are arguments.
\<close>

section \<open>InetAddress\<close>

text \<open>
  \<open>sockaddr_in\<close>: the port as it is stored, in network order, and the four bytes of the address.
  \<open>htons\<close> and \<open>ntohs\<close> swap the bytes, as on a little-endian machine. \<open>inet_addr\<close> is an argument;
  \<open>inet_ntop\<close> prints the bytes in decimal with dots.
\<close>

type_synonym port = "16 word"

record sockaddr_in =
  sin_port :: port
  sin_addr :: "8 word \<times> 8 word \<times> 8 word \<times> 8 word"

definition htons :: "port \<Rightarrow> port" where
  "htons p = push_bit 8 p OR drop_bit 8 p"

definition ntohs :: "port \<Rightarrow> port" where "ntohs = htons"

definition InetAddress ::
  "(string \<Rightarrow> 8 word \<times> 8 word \<times> 8 word \<times> 8 word) \<Rightarrow> port \<Rightarrow> string \<Rightarrow> sockaddr_in" where
  "InetAddress inet_addr p ip = \<lparr>sin_port = htons p, sin_addr = inet_addr ip\<rparr>"

definition inet_ntop :: "8 word \<times> 8 word \<times> 8 word \<times> 8 word \<Rightarrow> string" where
  "inet_ntop addr = (case addr of (a, b, c, d) \<Rightarrow>
     nat_dec (unat a) @ ''.'' @ nat_dec (unat b) @ ''.'' @ nat_dec (unat c) @ ''.'' @ nat_dec (unat d))"

definition toIp :: "sockaddr_in \<Rightarrow> string" where
  "toIp addr = inet_ntop (sin_addr addr)"

definition toPort :: "sockaddr_in \<Rightarrow> port" where
  "toPort addr = ntohs (sin_port addr)"

text \<open>\<open>sprintf\<close> behind the address in a buffer of 64 bytes, with its terminating zero.\<close>

definition toIpPort :: "sockaddr_in \<Rightarrow> string result" where
  "toIpPort addr =
     (let s = inet_ntop (sin_addr addr) @ '':'' @ nat_dec (unat (ntohs (sin_port addr)))
      in if length s + 1 \<le> 64 then Inr s else Inl OutOfBounds)"

section \<open>Socket\<close>

datatype sockopt = TCP_NODELAY | SO_REUSEADDR | SO_REUSEPORT | SO_KEEPALIVE

record Socket =
  sockfd :: int
  sock_opts :: "sockopt \<rightharpoonup> int"
  sock_bound :: "sockaddr_in option"
  sock_listening :: bool
  write_shut :: bool
  sock_closed :: bool

definition Socket_new :: "int \<Rightarrow> Socket" where
  "Socket_new fd = \<lparr>sockfd = fd, sock_opts = Map.empty, sock_bound = None, sock_listening = False, write_shut = False,
     sock_closed = False\<rparr>"

definition setsockopt :: "sockopt \<Rightarrow> bool \<Rightarrow> Socket \<Rightarrow> Socket" where
  "setsockopt opt on s = s\<lparr>sock_opts := (sock_opts s)(opt \<mapsto> (if on then 1 else 0))\<rparr>"

definition setTcpNoDelay :: "bool \<Rightarrow> Socket \<Rightarrow> Socket" where "setTcpNoDelay = setsockopt TCP_NODELAY"
definition setReuseAddr :: "bool \<Rightarrow> Socket \<Rightarrow> Socket" where "setReuseAddr = setsockopt SO_REUSEADDR"
definition setReusePort :: "bool \<Rightarrow> Socket \<Rightarrow> Socket" where "setReusePort = setsockopt SO_REUSEPORT"
definition setKeepAlive :: "bool \<Rightarrow> Socket \<Rightarrow> Socket" where "setKeepAlive = setsockopt SO_KEEPALIVE"

text \<open>The answers of \<open>bind\<close>, \<open>listen\<close>, \<open>shutdown\<close>: zero, or a failure.\<close>

definition bindAddress :: "int \<Rightarrow> sockaddr_in \<Rightarrow> Socket \<Rightarrow> Socket result" where
  "bindAddress answer addr s =
     (if answer \<noteq> 0 then Inl (Fatal ''bind sockfd fail'') else Inr (s\<lparr>sock_bound := Some addr\<rparr>))"

definition Socket_listen :: "int \<Rightarrow> Socket \<Rightarrow> Socket result" where
  "Socket_listen answer s =
     (if answer \<noteq> 0 then Inl (Fatal ''listen sockfd fail'') else Inr (s\<lparr>sock_listening := True\<rparr>))"

text \<open>\<open>accept4\<close> answers with an \<open>errno\<close> or with a descriptor and the peer.\<close>

definition Socket_accept :: "int + (int \<times> sockaddr_in) \<Rightarrow> sockaddr_in \<Rightarrow> int \<times> sockaddr_in" where
  "Socket_accept answer peeraddr =
     (case answer of Inl e \<Rightarrow> (- 1, peeraddr)
      | Inr (connfd, peer) \<Rightarrow> (connfd, if connfd \<ge> 0 then peer else peeraddr))"

definition shutdownWrite :: "int \<Rightarrow> Socket \<Rightarrow> Socket" where
  "shutdownWrite answer s = (if answer < 0 then s else s\<lparr>write_shut := True\<rparr>)"

definition Socket_delete :: "Socket \<Rightarrow> Socket" where
  "Socket_delete s = s\<lparr>sock_closed := True\<rparr>"

section \<open>Acceptor\<close>

record Acceptor =
  acceptSocket :: Socket
  acceptChannel :: channel_id
  listenning :: bool
  idleFd :: int

text \<open>
  The constructor. Its argument \<open>reuseport\<close> is not used: the option is always set. \<open>socket\<close> and \<open>open\<close>
  answer with a descriptor. The channel lives at address \<open>c\<close>.
\<close>

definition Acceptor_new ::
  "int \<Rightarrow> int \<Rightarrow> int \<Rightarrow> channel_id \<Rightarrow> sockaddr_in \<Rightarrow> bool \<Rightarrow> 'k EPollPoller \<Rightarrow> (Acceptor \<times> 'k EPollPoller) result" where
  "Acceptor_new socket_fd null_fd bind_answer c listenAddr reuseport p =
     (if socket_fd < 0 then Inl (Fatal ''listen socket create err'')
      else rbind (bindAddress bind_answer listenAddr (setReusePort True (setReuseAddr True (Socket_new socket_fd))))
        (\<lambda>s. Inr (\<lparr>acceptSocket = s, acceptChannel = c, listenning = False, idleFd = null_fd\<rparr>,
                 set_chan c (\<lambda>_. (Channel_new socket_fd)\<lparr>has_readCallback := True\<rparr>) p)))"

text \<open>The destructor: the channel leaves the poller, the spare descriptor and the socket are closed.\<close>

definition Acceptor_delete :: "'k epoll_ctl \<Rightarrow> Acceptor \<Rightarrow> 'k EPollPoller \<Rightarrow> (int list \<times> 'k EPollPoller) result" where
  "Acceptor_delete ctl a p =
     rbind (set_interest ctl DisableAll (acceptChannel a) p) (\<lambda>p1.
     rbind (removeChannel ctl (acceptChannel a) p1) (\<lambda>p2.
       Inr ([idleFd a, sockfd (Socket_delete (acceptSocket a))], p2)))"

definition Acceptor_listen ::
  "'k epoll_ctl \<Rightarrow> int \<Rightarrow> Acceptor \<Rightarrow> 'k EPollPoller \<Rightarrow> (Acceptor \<times> 'k EPollPoller) result" where
  "Acceptor_listen ctl answer a p =
     rbind (Socket_listen answer (acceptSocket a)) (\<lambda>s.
     rbind (set_interest ctl EnableReading (acceptChannel a) p) (\<lambda>p'.
       Inr (a\<lparr>listenning := True, acceptSocket := s\<rparr>, p')))"

definition EMFILE :: int where "EMFILE = 24"

text \<open>
  \<open>handleRead\<close>: a new connection goes to the callback, or is closed when there is none. When the process
  has no descriptor left, the spare one is given up to accept and close the connection. The result
  is what is handed to the callback and the descriptors closed, in order.
\<close>

definition acceptor_handleRead ::
  "bool \<Rightarrow> int + (int \<times> sockaddr_in) \<Rightarrow> int \<Rightarrow> int \<Rightarrow> sockaddr_in \<Rightarrow> Acceptor
    \<Rightarrow> (int \<times> sockaddr_in) option \<times> int list \<times> Acceptor" where
  "acceptor_handleRead has_callback answer accept_again null_fd dflt a =
     (let (connfd, peerAddr) = Socket_accept answer dflt
      in if connfd \<ge> 0
         then (if has_callback then (Some (connfd, peerAddr), [], a) else (None, [connfd], a))
         else if answer = Inl EMFILE
         then (None, [idleFd a, accept_again], a\<lparr>idleFd := null_fd\<rparr>)
         else (None, [], a))"

section \<open>Addresses\<close>

lemma ntohs_htons [simp]: "ntohs (htons p) = p"
  by (rule bit_word_eqI) (auto simp: ntohs_def htons_def bit_simps)

lemma nat_dec_no_mark:
  assumes "c \<in> {CHR ''.'', CHR '':'', CHR ''#'', CHR ''-''}"
  shows "c \<notin> set (nat_dec n)"
proof
  assume "c \<in> set (nat_dec n)"
  then obtain d where d: "d < 10" "c = digit_char d" using nat_dec_digits by blast
  have "list_all (\<lambda>d. digit_char d \<notin> {CHR ''.'', CHR '':'', CHR ''#'', CHR ''-''}) [0..<10]" by code_simp
  with d assms show False by (auto simp: list_all_iff)
qed

lemma inet_ntop_inject: "inet_ntop x = inet_ntop y \<longleftrightarrow> x = y"
proof
  assume "inet_ntop x = inet_ntop y"
  then show "x = y"
    using nat_dec_no_mark [of "CHR ''.''"]
    by (cases x; cases y) (auto simp: inet_ntop_def cut_unique word_unat_eq_iff)
qed simp

lemma byte_dec_length: "length (nat_dec (unat (b :: 8 word))) \<le> 3"
  using unsigned_less [of b, where ?'a = nat] by (intro length_nat_dec) simp_all

lemma inet_ntop_length: "length (inet_ntop x) \<le> 15"
proof -
  obtain a b c d where "x = (a, b, c, d)" by (cases x)
  then show ?thesis
    using byte_dec_length [of a] byte_dec_length [of b] byte_dec_length [of c] byte_dec_length [of d]
    by (simp add: inet_ntop_def)
qed

lemma port_dec_length: "length (nat_dec (unat (p :: port))) \<le> 5"
  using unsigned_less [of p, where ?'a = nat] by (intro length_nat_dec) simp_all

lemma toIpPort_ok:
  "toIpPort addr = Inr (toIp addr @ '':'' @ nat_dec (unat (toPort addr)))"
  "length (toIp addr @ '':'' @ nat_dec (unat (toPort addr))) \<le> 21"
  using inet_ntop_length [of "sin_addr addr"] port_dec_length [of "ntohs (sin_port addr)"]
  by (simp_all add: toIpPort_def toIp_def toPort_def)

section \<open>The acceptor in its loop\<close>

text \<open>No descriptor leaks in the acceptor: an accepted one is handed on or closed, the spare one is replaced.\<close>

lemma acceptor_handles_every_descriptor:
  assumes "acceptor_handleRead cb answer again null_fd dflt a = (new, closed, a')"
  shows "(case answer of
      Inr (fd, peer) \<Rightarrow> fd \<ge> 0 \<longrightarrow> a' = a \<and> (if cb then new = Some (fd, peer) \<and> closed = [] else new = None \<and> closed = [fd])
    | Inl e \<Rightarrow> new = None \<and> (if e = EMFILE then closed = [idleFd a, again] \<and> idleFd a' = null_fd
        else closed = [] \<and> a' = a))"
  using assms by (auto simp: acceptor_handleRead_def Socket_accept_def Let_def split: sum.splits if_splits)

text \<open>
  On a usable poller an acceptor whose descriptor is new there can be created, listens, and is destroyed;
  afterwards the poller is as usable as before and the other channels are untouched.
\<close>

lemma Acceptor_life:
  assumes "poller_ready ctl interest p" "ch_index (chan p c) = kNew" "channels p fd = None" "0 \<le> fd"
  shows "\<exists>a p1 a' p2 p3. Acceptor_new fd null_fd 0 c addr reuse p = Inr (a, p1) \<and>
    Acceptor_listen ctl 0 a p1 = Inr (a', p2) \<and> listenning a' \<and> isReading (chan p2 c) \<and>
    Acceptor_delete ctl a' p2 = Inr ([null_fd, fd], p3) \<and> poller_ready ctl interest p3 \<and>
    (\<forall>d. d \<noteq> c \<longrightarrow> chan p3 d = chan p d)"
proof -
  obtain p2 p3 p4 where "set_interest ctl EnableReading c (set_chan c (\<lambda>_. owned_channel fd) p) = Inr p2"
      "isReading (chan p2 c)" "set_interest ctl DisableAll c p2 = Inr p3" "removeChannel ctl c p3 = Inr p4"
      "poller_ready ctl interest p4" "\<forall>d. d \<noteq> c \<longrightarrow> chan p4 d = chan p d"
    using owned_channel_life [OF assms(1-3)] by blast
  then show ?thesis
    using assms(4)
    by (auto simp: Acceptor_new_def bindAddress_def Acceptor_listen_def Socket_listen_def Acceptor_delete_def
        Socket_delete_def setReusePort_def setReuseAddr_def setsockopt_def Socket_new_def)
qed

text \<open>An address for the samples.\<close>

definition sample_addr :: sockaddr_in where
  "sample_addr = \<lparr>sin_port = htons 8080, sin_addr = (127, 0, 0, 1)\<rparr>"

section \<open>Properties\<close>

text \<open>C39: addresses print and read back. \<open>toIpPort\<close> never overruns its buffer, the text determines the address and
  the port, and an address built from a dotted text and a port gives both back.\<close>

theorem InetAddress_roundtrip:
  assumes "inet_addr ip = bytes" "ip = inet_ntop bytes"
  shows "toIp (InetAddress inet_addr p ip) = ip \<and> toPort (InetAddress inet_addr p ip) = p \<and>
    toIpPort (InetAddress inet_addr p ip) = Inr (ip @ '':'' @ nat_dec (unat p)) \<and>
    (toIpPort addr = toIpPort (InetAddress inet_addr p ip) \<longrightarrow> toIp addr = ip \<and> toPort addr = p)"
proof -
  have no_colon: "CHR '':'' \<notin> set (inet_ntop b)" for b
    using nat_dec_no_mark [of "CHR '':''"] by (cases b) (auto simp: inet_ntop_def)
  let ?a = "InetAddress inet_addr p ip"
  have a: "toIp ?a = ip" "toPort ?a = p" using assms by (simp_all add: InetAddress_def toIp_def toPort_def)
  have "toIp addr = ip \<and> toPort addr = p" if "toIpPort addr = toIpPort ?a"
  proof -
    have eq: "toIp addr @ CHR '':'' # nat_dec (unat (toPort addr)) = ip @ CHR '':'' # nat_dec (unat p)"
      using that a by (simp add: toIpPort_ok(1))
    have n: "CHR '':'' \<notin> set (toIp addr)" "CHR '':'' \<notin> set ip"
      using no_colon assms(2) by (simp_all add: toIp_def)
    from eq show ?thesis unfolding cut_unique [OF n] by (simp add: word_unat_eq_iff)
  qed
  with a show ?thesis by (simp add: toIpPort_ok(1))
qed

theorem InetAddress_roundtrip_witness:
  "toIpPort (InetAddress (\<lambda>_. (127, 0, 0, 1)) 8080 ''127.0.0.1'') = Inr ''127.0.0.1:8080''"
proof -
  have "''127'' = nat_dec 127" "''0'' = nat_dec 0" "''1'' = nat_dec 1" by code_simp+
  then have ip: "''127.0.0.1'' = inet_ntop (127, 0, 0, 1)" by (simp add: inet_ntop_def)
  have "nat_dec 8080 = ''8080''"
    by (simp add: nat_dec.simps [of 8080] nat_dec.simps [of 808] nat_dec.simps [of 80] nat_dec.simps [of 8])
  then have "nat_dec (unat (8080 :: port)) = ''8080''" by simp
  with InetAddress_roundtrip [of "\<lambda>_. (127, 0, 0, 1)" "''127.0.0.1''" "(127, 0, 0, 1)" 8080] ip
  show ?thesis by simp
qed

end
