(* ===== verification/Log_Logger.thy ===== *)
theory Log_Logger
  imports Base_Timestamp
begin

text \<open>
  \<open>src/logger/Logging.h\<close> and \<open>Logging.cc\<close>: one log statement. A temporary \<open>Logger\<close> prints the time
  and the level, the caller's items follow, and the destructor prints the source position and hands
  the record to the output function; a \<open>FATAL\<close> record flushes and aborts. The global output
  and flush functions are numbers whose calls are recorded. \<open>localtime\<close> and \<open>strerror_r\<close> are arguments.
\<close>

section \<open>SourceFile\<close>

text \<open>\<open>strrchr\<close>: the position of the last occurrence.\<close>

fun strrchr :: "string \<Rightarrow> char \<Rightarrow> nat option" where
  "strrchr [] c = None"
| "strrchr (x # xs) c =
     (case strrchr xs c of Some i \<Rightarrow> Some (Suc i) | None \<Rightarrow> if x = c then Some 0 else None)"

definition SourceFile :: "string \<Rightarrow> string" where
  "SourceFile filename =
     (case strrchr filename (CHR ''/'') of Some slash \<Rightarrow> drop (slash + 1) filename | None \<Rightarrow> filename)"

lemma strrchr_None: "strrchr s c = None \<longleftrightarrow> c \<notin> set s"
  by (induction s) (auto split: option.splits)

lemma strrchr_Some:
  "strrchr s c = Some i \<Longrightarrow> i < length s \<and> s ! i = c \<and> c \<notin> set (drop (Suc i) s)"
proof (induction s arbitrary: i)
  case Nil
  then show ?case by simp
next
  case (Cons x xs)
  then show ?case
    using strrchr_None [of xs c] by (auto split: option.splits if_splits)
qed

section \<open>Logger\<close>

datatype LogLevel = TRACE | DEBUG | INFO | WARN | ERROR | FATAL

fun level_num :: "LogLevel \<Rightarrow> nat" where
  "level_num TRACE = 0" | "level_num DEBUG = 1" | "level_num INFO = 2"
| "level_num WARN = 3" | "level_num ERROR = 4" | "level_num FATAL = 5"

fun LogLevelName :: "LogLevel \<Rightarrow> string" where
  "LogLevelName TRACE = ''TRACE ''" | "LogLevelName DEBUG = ''DEBUG ''"
| "LogLevelName INFO = ''INFO  ''" | "LogLevelName WARN = ''WARN  ''"
| "LogLevelName ERROR = ''ERROR ''" | "LogLevelName FATAL = ''FATAL ''"

record tm =
  tm_year :: int  tm_mon :: int  tm_mday :: int
  tm_hour :: int  tm_min :: int  tm_sec :: int

text \<open>\<open>%4d\<close> pads with blanks.\<close>

definition int_decw :: "nat \<Rightarrow> int \<Rightarrow> string" where
  "int_decw k i = replicate (k - length (int_dec i)) (CHR '' '') @ int_dec i"

text \<open>\<open>snprintf\<close> into an array: at most \<open>size - 1\<close> characters and a terminator.\<close>

definition sn_store :: "char list \<Rightarrow> string \<Rightarrow> char list" where
  "sn_store arr s =
     (let t = snprintf_trunc (length arr) s in t @ CHR 0x00 # drop (Suc (length t)) arr)"

definition time_text :: "tm \<Rightarrow> string" where
  "time_text t =
     int_decw 4 (tm_year t + 1900) @ ''/'' @ int_dec0 2 (tm_mon t + 1) @ ''/'' @ int_dec0 2 (tm_mday t)
     @ '' '' @ int_dec0 2 (tm_hour t) @ '':'' @ int_dec0 2 (tm_min t) @ '':'' @ int_dec0 2 (tm_sec t)"

text \<open>
  \<open>Impl::formatTime\<close> writes the thread's time array and gives the two templates it streams.
\<close>

definition formatTime :: "(int \<Rightarrow> tm) \<Rightarrow> char list \<Rightarrow> Timestamp \<Rightarrow> char list \<times> log_item list" where
  "formatTime localtime t_time time =
     (let us = microSecondsSinceEpoch time;
          seconds = cdiv us kMicroSecondsPerSecond;
          microseconds = crem us kMicroSecondsPerSecond;
          t_time' = sn_store t_time (time_text (localtime seconds));
          buf = sn_store (replicate 32 (CHR 0x00)) (''.'' @ int_dec0 6 microseconds @ '' '')
      in (t_time', [PutTemplate t_time' 19, PutTemplate buf 8]))"

record LoggerImpl =
  stream :: FixedBuffer
  level :: LogLevel
  line :: int
  basename :: string

text \<open>
  \<open>Impl::Impl\<close>: the time, the six characters of the level, the error if there is one. The result
  carries the thread's time array.
\<close>

definition Impl_new ::
  "(int \<Rightarrow> tm) \<Rightarrow> (int \<Rightarrow> string) \<Rightarrow> char list \<Rightarrow> Timestamp \<Rightarrow> LogLevel \<Rightarrow> int \<Rightarrow> string \<Rightarrow> int
    \<Rightarrow> (char list \<times> LoggerImpl) result" where
  "Impl_new localtime getErrnoMsg t_time now lev savedErrno file ln =
     (let (t_time', time_items) = formatTime localtime t_time now;
          err = (if savedErrno \<noteq> 0
                 then [PutCString (Some (getErrnoMsg savedErrno)), PutCString (Some '' (errno=''),
                       PutInteger savedErrno, PutCString (Some '') '')]
                 else [])
      in rbind (LogStream_puts (FixedBuffer_new kSmallBuffer)
                  (time_items @ [PutTemplate (LogLevelName lev) 6] @ err))
           (\<lambda>st. Inr (t_time', \<lparr>stream = st, level = lev, line = ln, basename = SourceFile file\<rparr>)))"

definition Impl_finish :: "LoggerImpl \<Rightarrow> LoggerImpl result" where
  "Impl_finish im =
     rbind (LogStream_puts (stream im)
              [PutCString (Some '' - ''), PutTemplate (basename im) (length (basename im)),
               PutChar (CHR '':''), PutInteger (line im), PutChar (CHR 0x0A)])
       (\<lambda>st. Inr (im\<lparr>stream := st\<rparr>))"

text \<open>The constructors: \<open>savedErrno\<close> is always zero; the last one also prints the function name.\<close>

definition Logger_new ::
  "(int \<Rightarrow> tm) \<Rightarrow> (int \<Rightarrow> string) \<Rightarrow> char list \<Rightarrow> Timestamp \<Rightarrow> string \<Rightarrow> int \<Rightarrow> LogLevel \<Rightarrow> string option
    \<Rightarrow> (char list \<times> LoggerImpl) result" where
  "Logger_new localtime getErrnoMsg t_time now file ln lev func =
     rbind (Impl_new localtime getErrnoMsg t_time now lev 0 file ln) (\<lambda>(t_time', im).
       case func of
         None \<Rightarrow> Inr (t_time', im)
       | Some f \<Rightarrow> rbind (LogStream_puts (stream im) [PutCString (Some f), PutChar (CHR '' '')])
                    (\<lambda>st. Inr (t_time', im\<lparr>stream := st\<rparr>)))"

text \<open>
  The globals: the threshold, the output and the flush function, which are numbers, zero for those on
  \<open>stdout\<close>; and the calls of the two so far: which function, with which record.
\<close>

record log_globals =
  g_logLevel :: LogLevel
  g_output :: nat
  g_flush :: nat
  g_outputs :: "(nat \<times> string) list"
  g_flushes :: "nat list"

definition initLogLevel :: LogLevel where "initLogLevel = INFO"

definition setLogLevel :: "LogLevel \<Rightarrow> log_globals \<Rightarrow> log_globals" where
  "setLogLevel lev g = g\<lparr>g_logLevel := lev\<rparr>"

definition log_globals_init :: log_globals where
  "log_globals_init = \<lparr>g_logLevel = initLogLevel, g_output = 0, g_flush = 0, g_outputs = [], g_flushes = []\<rparr>"

definition setOutput :: "nat \<Rightarrow> log_globals \<Rightarrow> log_globals" where
  "setOutput out g = g\<lparr>g_output := out\<rparr>"

definition setFlush :: "nat \<Rightarrow> log_globals \<Rightarrow> log_globals" where
  "setFlush flush g = g\<lparr>g_flush := flush\<rparr>"

text \<open>
  The destructor. A fatal record reaches the output and the flush function before the process
  aborts; the failure carries the record, and the globals at that moment are returned beside it.
\<close>

definition Logger_delete :: "log_globals \<Rightarrow> LoggerImpl \<Rightarrow> (log_globals \<times> fault option) result" where
  "Logger_delete g im =
     rbind (Impl_finish im) (\<lambda>im'.
       let rec = FixedBuffer_toString (stream im');
           g' = g\<lparr>g_outputs := g_outputs g @ [(g_output g, rec)]\<rparr>
       in if level im' = FATAL then Inr (g'\<lparr>g_flushes := g_flushes g' @ [g_flush g']\<rparr>, Some (Fatal rec))
          else Inr (g', None))"

text \<open>
  The macros \<open>LOG_TRACE\<close> to \<open>LOG_FATAL\<close>: only the first three look at the threshold, and only
  \<open>LOG_TRACE\<close> and \<open>LOG_DEBUG\<close> pass the function name.
\<close>

definition log_enabled :: "LogLevel \<Rightarrow> LogLevel \<Rightarrow> bool" where
  "log_enabled threshold lev = (lev \<in> {TRACE, DEBUG, INFO} \<longrightarrow> level_num threshold \<le> level_num lev)"

definition log_statement ::
  "(int \<Rightarrow> tm) \<Rightarrow> (int \<Rightarrow> string) \<Rightarrow> char list \<Rightarrow> Timestamp \<Rightarrow> log_globals \<Rightarrow> LogLevel
    \<Rightarrow> string \<Rightarrow> int \<Rightarrow> string \<Rightarrow> log_item list \<Rightarrow> (log_globals \<times> fault option) result" where
  "log_statement localtime getErrnoMsg t_time now g lev file ln func items =
     (if log_enabled (g_logLevel g) lev
      then rbind (Logger_new localtime getErrnoMsg t_time now file ln lev
                    (if lev \<in> {TRACE, DEBUG} then Some func else None)) (\<lambda>(_, im).
           rbind (LogStream_puts (stream im) items) (\<lambda>st.
             Logger_delete g (im\<lparr>stream := st\<rparr>)))
      else Inr (g, None))"

section \<open>The text of a record\<close>

definition head_items :: "(int \<Rightarrow> tm) \<Rightarrow> char list \<Rightarrow> Timestamp \<Rightarrow> LogLevel \<Rightarrow> log_item list" where
  "head_items localtime t_time now lev =
     snd (formatTime localtime t_time now) @ [PutTemplate (LogLevelName lev) 6]"

definition func_items :: "LogLevel \<Rightarrow> string \<Rightarrow> log_item list" where
  "func_items lev func =
     (if lev \<in> {TRACE, DEBUG} then [PutCString (Some func), PutChar (CHR '' '')] else [])"

definition tail_items :: "string \<Rightarrow> int \<Rightarrow> log_item list" where
  "tail_items file ln =
     [PutCString (Some '' - ''), PutTemplate (SourceFile file) (length (SourceFile file)),
      PutChar (CHR '':''), PutInteger ln, PutChar (CHR 0x0A)]"

definition record_items ::
  "(int \<Rightarrow> tm) \<Rightarrow> char list \<Rightarrow> Timestamp \<Rightarrow> LogLevel \<Rightarrow> string \<Rightarrow> int \<Rightarrow> string \<Rightarrow> log_item list \<Rightarrow> log_item list"
  where
  "record_items localtime t_time now lev file ln func items =
     head_items localtime t_time now lev @ func_items lev func @ items @ tail_items file ln"

lemma LogStream_puts_append:
  "LogStream_puts b (xs @ ys) = rbind (LogStream_puts b xs) (\<lambda>b'. LogStream_puts b' ys)"
proof (induction xs arbitrary: b)
  case Nil
  then show ?case by simp
next
  case (Cons x xs)
  show ?case by (cases "LogStream_put b x") (simp_all add: Cons.IH)
qed

text \<open>A log statement streams the items of its record into an empty small buffer.\<close>

lemma log_statement_stream:
  assumes "log_enabled (g_logLevel g) lev"
    and "LogStream_puts (FixedBuffer_new kSmallBuffer)
      (record_items localtime t_time now lev file ln func items) = Inr b"
  shows "log_statement localtime getErrnoMsg t_time now g lev file ln func items =
    (let g' = g\<lparr>g_outputs := g_outputs g @ [(g_output g, FixedBuffer_toString b)]\<rparr>
     in if lev = FATAL then Inr (g'\<lparr>g_flushes := g_flushes g @ [g_flush g]\<rparr>, Some (Fatal (FixedBuffer_toString b)))
        else Inr (g', None))"
proof -
  obtain b1 b2 b3 where
      b1: "LogStream_puts (FixedBuffer_new kSmallBuffer) (head_items localtime t_time now lev) = Inr b1"
    and b2: "LogStream_puts b1 (func_items lev func) = Inr b2"
    and b3: "LogStream_puts b2 items = Inr b3"
    and fin: "LogStream_puts b3 (tail_items file ln) = Inr b"
    using assms(2) by (auto simp only: record_items_def LogStream_puts_append rbind_eq_Inr)
  let ?im = "\<lambda>st. \<lparr>stream = st, level = lev, line = ln, basename = SourceFile file\<rparr>"
  have imp: "Impl_new localtime getErrnoMsg t_time now lev 0 file ln =
      Inr (fst (formatTime localtime t_time now), ?im b1)"
    using b1 by (simp add: Impl_new_def head_items_def split_beta del: LogStream_puts.simps)
  have new: "Logger_new localtime getErrnoMsg t_time now file ln lev
      (if lev \<in> {TRACE, DEBUG} then Some func else None)
      = Inr (fst (formatTime localtime t_time now), ?im b2)"
  proof (cases "lev \<in> {TRACE, DEBUG}")
    case True
    then show ?thesis
      using imp b2 by (simp only: Logger_new_def func_items_def if_True rbind_simps) simp
  next
    case False
    then show ?thesis
      using imp b2 by (simp only: Logger_new_def func_items_def if_False rbind_simps) simp
  qed
  have "Impl_finish (?im b3) = Inr (?im b)"
    using fin by (simp add: Impl_finish_def tail_items_def del: LogStream_puts.simps)
  then show ?thesis
    using assms(1) new b3
    by (simp add: log_statement_def Logger_delete_def Let_def)
qed


subsection \<open>Lengths\<close>

lemma length_int_dec0:
  assumes "0 \<le> i" "i < 10 ^ k" "0 < k"
  shows "length (int_dec0 k i) = k"
proof -
  have "nat i < 10 ^ k" using assms by (simp add: nat_less_iff)
  then show ?thesis
    using length_nat_dec [of "nat i" k] assms by (simp add: int_dec0_def)
qed

lemma length_int_decw:
  assumes "0 \<le> i" "i < 10 ^ k" "0 < k"
  shows "length (int_decw k i) = k"
proof -
  have "nat i < 10 ^ k" using assms by (simp add: nat_less_iff)
  then show ?thesis
    using length_nat_dec [of "nat i" k] assms by (simp add: int_decw_def int_dec_def)
qed

text \<open>What \<open>localtime\<close> returns for a date up to the year 9999.\<close>

definition tm_ok :: "tm \<Rightarrow> bool" where
  "tm_ok t \<longleftrightarrow> 0 \<le> tm_year t + 1900 \<and> tm_year t + 1900 < 10000 \<and>
     0 \<le> tm_mon t \<and> tm_mon t < 12 \<and> 1 \<le> tm_mday t \<and> tm_mday t \<le> 31 \<and>
     0 \<le> tm_hour t \<and> tm_hour t < 24 \<and> 0 \<le> tm_min t \<and> tm_min t < 60 \<and>
     0 \<le> tm_sec t \<and> tm_sec t \<le> 60"

lemma length_time_text: "tm_ok t \<Longrightarrow> length (time_text t) = 19"
  by (simp add: time_text_def tm_ok_def length_int_dec0 length_int_decw)

lemma take_sn_store:
  "length s = n \<Longrightarrow> n < length arr \<Longrightarrow> take n (sn_store arr s) = s"
  by (simp add: sn_store_def snprintf_trunc_def Let_def)

lemma length_sn_store: "0 < length arr \<Longrightarrow> length (sn_store arr s) = length arr"
  by (cases arr) (auto simp: sn_store_def snprintf_trunc_def Let_def min_def)

lemma LogLevelName_length: "length (LogLevelName lev) = 6"
  by (cases lev) simp_all

definition record_text ::
  "(int \<Rightarrow> tm) \<Rightarrow> Timestamp \<Rightarrow> LogLevel \<Rightarrow> string \<Rightarrow> int \<Rightarrow> string \<Rightarrow> log_item list \<Rightarrow> string" where
  "record_text localtime now lev file ln func items =
     time_text (localtime (microSecondsSinceEpoch now div 1000000))
     @ ''.'' @ int_dec0 6 (microSecondsSinceEpoch now mod 1000000) @ '' ''
     @ LogLevelName lev
     @ (if lev \<in> {TRACE, DEBUG} then func @ '' '' else [])
     @ concat (map item_text items)
     @ '' - '' @ SourceFile file @ '':'' @ int_dec ln @ [CHR 0x0A]"

lemma record_items_ok:
  assumes "\<forall>i\<in>set items. item_ok i" "length t_time = 64" "- (2 ^ 31) \<le> ln" "ln < 2 ^ 31"
  shows "\<forall>i\<in>set (record_items localtime t_time now lev file ln func items). item_ok i"
  using assms
  by (auto simp: record_items_def head_items_def func_items_def tail_items_def formatTime_def Let_def
      length_sn_store LogLevelName_length split: if_splits)

lemma record_items_text:
  assumes "length t_time = 64" "0 \<le> microSecondsSinceEpoch now"
    and "tm_ok (localtime (microSecondsSinceEpoch now div 1000000))"
  shows "concat (map item_text (record_items localtime t_time now lev file ln func items))
    = record_text localtime now lev file ln func items"
proof -
  let ?us = "microSecondsSinceEpoch now"
  have q: "cdiv ?us kMicroSecondsPerSecond = ?us div 1000000"
    "crem ?us kMicroSecondsPerSecond = ?us mod 1000000"
    using assms(2) by (simp_all add: kMicroSecondsPerSecond_def cdiv_nonneg crem_nonneg)
  have t: "take 19 (sn_store t_time (time_text (localtime (?us div 1000000))))
      = time_text (localtime (?us div 1000000))"
    using assms(1) length_time_text [OF assms(3)] by (intro take_sn_store) simp_all
  let ?b = "''.'' @ int_dec0 6 (?us mod 1000000) @ '' ''"
  have "length ?b = 8" by (simp add: length_int_dec0)
  then have b: "take 8 (sn_store (replicate 32 (CHR 0x00)) ?b) = ?b"
    by (intro take_sn_store) simp_all
  have name: "take 6 (LogLevelName lev) = LogLevelName lev"
    using LogLevelName_length [of lev] by simp
  have "concat (map item_text (head_items localtime t_time now lev))
      = time_text (localtime (?us div 1000000)) @ ?b @ LogLevelName lev"
    using q t b name by (simp add: head_items_def formatTime_def Let_def)
  then show ?thesis
    by (simp add: record_items_def record_text_def func_items_def tail_items_def)
qed

lemma small_buffer_ok:
  "FixedBuffer_inv (FixedBuffer_new kSmallBuffer)"
  "FixedBuffer_toString (FixedBuffer_new kSmallBuffer) = []"
  "avail (FixedBuffer_new kSmallBuffer) = 4096"
  using FixedBuffer_new_ok [of kSmallBuffer]
  by (simp_all add: kSmallBuffer_def avail_def FixedBuffer_new_def)

section \<open>Properties\<close>

text \<open>The file name in a record is the part behind the last slash: a suffix of the path without
  a slash, preceded by nothing or by a slash.\<close>

lemma SourceFile_is_basename:
  "\<exists>dir. filename = dir @ SourceFile filename \<and> CHR ''/'' \<notin> set (SourceFile filename) \<and>
    (dir = [] \<or> last dir = CHR ''/'')"
proof (cases "strrchr filename (CHR ''/'')")
  case None
  then have "SourceFile filename = filename" "CHR ''/'' \<notin> set filename"
    using strrchr_None [of filename "CHR ''/''"] by (auto simp: SourceFile_def)
  then show ?thesis by simp
next
  case (Some i)
  note i = strrchr_Some [OF Some]
  let ?d = "take (Suc i) filename"
  have "filename = ?d @ SourceFile filename" using Some by (simp add: SourceFile_def)
  moreover have "last ?d = CHR ''/''"
    using i by (simp add: take_Suc_conv_app_nth)
  moreover have "CHR ''/'' \<notin> set (SourceFile filename)"
    using i Some by (simp add: SourceFile_def)
  ultimately show ?thesis by blast
qed

text \<open>C29: the shape of a log record. An enabled statement whose text leaves 48 bytes of the 4096
  free emits exactly one record: date and time, microseconds in six digits, the level, the function
  name for \<open>LOG_TRACE\<close> and \<open>LOG_DEBUG\<close>, the caller's items, file and line. A \<open>LOG_FATAL\<close> record is
  flushed and then the process aborts; no other level does.\<close>

theorem log_record_format:
  assumes "log_enabled (g_logLevel g) lev"
    and "\<forall>i\<in>set items. item_ok i" "length t_time = 64" "- (2 ^ 31) \<le> ln" "ln < 2 ^ 31"
    and "0 \<le> microSecondsSinceEpoch now"
    and "tm_ok (localtime (microSecondsSinceEpoch now div 1000000))"
    and "length (record_text localtime now lev file ln func items) + 48 \<le> kSmallBuffer"
  shows "log_statement localtime getErrnoMsg t_time now g lev file ln func items =
    (let txt = record_text localtime now lev file ln func items;
         g' = g\<lparr>g_outputs := g_outputs g @ [(g_output g, txt)]\<rparr>
     in if lev = FATAL then Inr (g'\<lparr>g_flushes := g_flushes g @ [g_flush g]\<rparr>, Some (Fatal txt))
        else Inr (g', None))"
proof -
  let ?items = "record_items localtime t_time now lev file ln func items"
  have rt: "concat (map item_text ?items) = record_text localtime now lev file ln func items"
    using assms(3,6,7) by (rule record_items_text)
  have "\<forall>i\<in>set ?items. item_ok i" using assms(2-5) by (rule record_items_ok)
  moreover have "int (length (concat (map item_text ?items))) + kMaxNumericSize
      \<le> avail (FixedBuffer_new kSmallBuffer)"
    using assms(8) [unfolded kSmallBuffer_def] rt by (simp add: small_buffer_ok kMaxNumericSize_def)
  ultimately obtain b where "LogStream_puts (FixedBuffer_new kSmallBuffer) ?items = Inr b"
      "FixedBuffer_toString b = record_text localtime now lev file ln func items"
    using LogStream_puts_ok [OF small_buffer_ok(1), of ?items] accept_text_spare [of ?items]
      small_buffer_ok(2) rt by auto
  then show ?thesis using log_statement_stream [OF assms(1)] by (simp add: Let_def)
qed

definition sample_localtime :: "int \<Rightarrow> tm" where
  "sample_localtime s = \<lparr>tm_year = 124, tm_mon = 0, tm_mday = 2, tm_hour = 3, tm_min = 4, tm_sec = 5\<rparr>"

definition sample_globals :: log_globals where
  "sample_globals = setFlush 8 (setOutput 7 log_globals_init)"

theorem log_record_format_witness:
  "log_statement sample_localtime (\<lambda>_. []) (replicate 64 (CHR 0x00)) (Timestamp 1000007) sample_globals
     FATAL ''src/net/a.cc'' 12 ''f'' [PutString ''bind fail'']
   = Inr (sample_globals\<lparr>
        g_outputs := [(7, ''2024/01/02 03:04:05.000007 FATAL bind fail - a.cc:12'' @ [CHR 0x0A])],
        g_flushes := [8]\<rparr>,
      Some (Fatal (''2024/01/02 03:04:05.000007 FATAL bind fail - a.cc:12'' @ [CHR 0x0A])))"
proof -
  have rt: "record_text sample_localtime (Timestamp 1000007) FATAL ''src/net/a.cc'' 12 ''f''
      [PutString ''bind fail''] = ''2024/01/02 03:04:05.000007 FATAL bind fail - a.cc:12'' @ [CHR 0x0A]"
    by code_simp
  show ?thesis
    by (subst log_record_format)
      (simp_all add: rt sample_globals_def setOutput_def setFlush_def log_globals_init_def initLogLevel_def log_enabled_def tm_ok_def sample_localtime_def
        kSmallBuffer_def Let_def)
qed

text \<open>C37: which statements reach the output. A statement below the threshold leaves everything as
  it was; one at or above it emits one record; and the macros for warnings and errors ignore the
  threshold, so they emit a record even when the threshold is \<open>FATAL\<close>.\<close>

theorem log_threshold:
  assumes "\<forall>i\<in>set items. item_ok i" "length t_time = 64" "- (2 ^ 31) \<le> ln" "ln < 2 ^ 31"
  shows "\<exists>g' f. log_statement localtime getErrnoMsg t_time now g lev file ln func items = Inr (g', f) \<and>
    length (g_outputs g') = length (g_outputs g) +
      (if level_num lev \<ge> level_num (g_logLevel g) \<or> level_num lev \<ge> level_num WARN then 1 else 0)"
proof (cases "log_enabled (g_logLevel g) lev")
  case True
  let ?items = "record_items localtime t_time now lev file ln func items"
  have "\<forall>i\<in>set ?items. item_ok i" using assms by (rule record_items_ok)
  then obtain b where "LogStream_puts (FixedBuffer_new kSmallBuffer) ?items = Inr b"
    using LogStream_puts_ok [OF small_buffer_ok(1)] by blast
  note st = log_statement_stream [OF True this]
  have "level_num lev \<ge> level_num (g_logLevel g) \<or> level_num lev \<ge> level_num WARN"
    using True by (cases lev) (auto simp: log_enabled_def)
  then show ?thesis by (simp add: st Let_def)
next
  case False
  then have "\<not> (level_num lev \<ge> level_num (g_logLevel g) \<or> level_num lev \<ge> level_num WARN)"
    by (cases lev) (auto simp: log_enabled_def)
  with False show ?thesis by (simp add: log_statement_def)
qed

theorem log_threshold_witness:
  "\<exists>g' f. log_statement sample_localtime (\<lambda>_. []) (replicate 64 (CHR 0x00)) (Timestamp 5)
      (setLogLevel FATAL sample_globals) WARN ''a.cc'' 1 ''f'' [] = Inr (g', f) \<and>
    length (g_outputs g') = 1"
  using log_threshold [of "[]" "replicate 64 (CHR 0x00)" 1 sample_localtime "\<lambda>_. []" "Timestamp 5"
      "setLogLevel FATAL sample_globals" WARN "''a.cc''" "''f''"]
  by (simp add: setLogLevel_def sample_globals_def setOutput_def setFlush_def log_globals_init_def initLogLevel_def)

end
