(* ===== verification/Net_TcpConnection.thy ===== *)
theory Net_TcpConnection
  imports Net_Buffer Net_Acceptor Log_Logger
begin

text \<open>
  \<open>src/net/TcpConnection\<close>: the state machine of one connection, its two buffers and the interest mask
  of its channel. The system calls of the handlers are arguments (\<open>write\<close>, \<open>readv\<close>, \<open>getsockopt\<close>).
  Calls of user callbacks are recorded in the order they are made, functors given to the loop are
  recorded in a queue; what a user callback does in turn is a further operation of the sequence.
\<close>

section \<open>State\<close>

datatype StateE = kDisconnected | kConnecting | kConnected | kDisconnecting

record TcpConnection =
  tc_name :: string
  state :: StateE
  reading :: bool
  tc_socket :: Socket
  tc_channel :: channel_id
  has_writeComplete :: bool
  has_highWaterMark :: bool
  highWaterMark :: size_t
  inputBuffer :: Buffer
  outputBuffer :: Buffer
  context_any :: "nat option"
  localAddr :: sockaddr_in
  peerAddr :: sockaddr_in

text \<open>What is bound and given to \<open>queueInLoop\<close>, and what is called.\<close>

datatype conn_functor = WriteCompleteFn | HighWaterMarkFn size_t | SendInLoopFn string | ShutdownInLoopFn

datatype conn_call = ConnectionCall StateE | MessageCall Timestamp | CloseCall
  | WriteCompleteCall | HighWaterMarkCall size_t

text \<open>
  The connection in its loop: the poller of the loop, the functors queued by this connection, the
  callbacks called so far, the bytes the kernel has accepted, whether \<open>shutdownWrite\<close> was called, and
  the errors \<open>handleError\<close> logged.
\<close>

record 'k conn_env =
  cn :: TcpConnection
  poller :: "'k EPollPoller"
  pending :: "conn_functor list"
  calls :: "conn_call list"
  wire :: string
  shut :: bool
  so_errors :: "int list"

definition stateToString :: "StateE \<Rightarrow> string" where
  "stateToString s =
     (case s of kDisconnected \<Rightarrow> ''kDisconnected'' | kConnecting \<Rightarrow> ''kConnecting''
      | kConnected \<Rightarrow> ''kConnected'' | kDisconnecting \<Rightarrow> ''kDisconnecting'')"

text \<open>The constructor, with the channel of the connection at address \<open>c\<close>.\<close>

definition TcpConnection_channel :: "int \<Rightarrow> Channel" where
  "TcpConnection_channel fd =
     (Channel_new fd)\<lparr>has_readCallback := True, has_writeCallback := True,
        has_closeCallback := True, has_errorCallback := True\<rparr>"

definition TcpConnection_new ::
  "string \<Rightarrow> int \<Rightarrow> channel_id \<Rightarrow> sockaddr_in \<Rightarrow> sockaddr_in \<Rightarrow> TcpConnection" where
  "TcpConnection_new nm fd c local_addr peer_addr =
     \<lparr>tc_name = nm, state = kConnecting, reading = True, tc_socket = setKeepAlive True (Socket_new fd),
      tc_channel = c, has_writeComplete = False,
      has_highWaterMark = False, highWaterMark = 64 * 1024 * 1024,
      inputBuffer = Buffer_new kInitialSize, outputBuffer = Buffer_new kInitialSize, context_any = None,
      localAddr = local_addr, peerAddr = peer_addr\<rparr>"

text \<open>
  The constructor passes its loop through this test. The setters: whether a callback is set, the
  high-water mark, and the context, a \<open>std::any\<close> that is empty or holds a value the library never looks at
  (a number here).
\<close>

definition CheckLoopNotNull_conn :: "nat option \<Rightarrow> nat result" where
  "CheckLoopNotNull_conn loop = (case loop of None \<Rightarrow> Inl (Fatal ''TcpConnection Loop is null!'') | Some l \<Rightarrow> Inr l)"

definition connected :: "TcpConnection \<Rightarrow> bool" where
  "connected c \<longleftrightarrow> state c = kConnected"

definition setWriteCompleteCallback :: "bool \<Rightarrow> TcpConnection \<Rightarrow> TcpConnection" where
  "setWriteCompleteCallback cb c = c\<lparr>has_writeComplete := cb\<rparr>"

definition setHighWaterMarkCallback :: "bool \<Rightarrow> size_t \<Rightarrow> TcpConnection \<Rightarrow> TcpConnection" where
  "setHighWaterMarkCallback cb mark c = c\<lparr>has_highWaterMark := cb, highWaterMark := mark\<rparr>"

definition setContext :: "nat option \<Rightarrow> TcpConnection \<Rightarrow> TcpConnection" where
  "setContext ctxt c = c\<lparr>context_any := ctxt\<rparr>"

definition conn_setTcpNoDelay :: "bool \<Rightarrow> TcpConnection \<Rightarrow> TcpConnection" where
  "conn_setTcpNoDelay on c = c\<lparr>tc_socket := setTcpNoDelay on (tc_socket c)\<rparr>"

definition getContext :: "TcpConnection \<Rightarrow> nat option" where
  "getContext c = context_any c"

abbreviation channel_of :: "'k conn_env \<Rightarrow> Channel" where
  "channel_of w \<equiv> chan (poller w) (tc_channel (cn w))"

abbreviation set_cn :: "(TcpConnection \<Rightarrow> TcpConnection) \<Rightarrow> 'k conn_env \<Rightarrow> 'k conn_env" where
  "set_cn f w \<equiv> w\<lparr>cn := f (cn w)\<rparr>"

definition setState :: "StateE \<Rightarrow> 'k conn_env \<Rightarrow> 'k conn_env" where
  "setState s w = set_cn (\<lambda>c. c\<lparr>state := s\<rparr>) w"

definition conn_queue :: "conn_functor \<Rightarrow> 'k conn_env \<Rightarrow> 'k conn_env" where
  "conn_queue f w = w\<lparr>pending := pending w @ [f]\<rparr>"

definition conn_calls :: "conn_call list \<Rightarrow> 'k conn_env \<Rightarrow> 'k conn_env" where
  "conn_calls cs w = w\<lparr>calls := calls w @ cs\<rparr>"

text \<open>A setter of the connection's channel.\<close>

definition conn_interest :: "'k epoll_ctl \<Rightarrow> interest_op \<Rightarrow> 'k conn_env \<Rightarrow> 'k conn_env result" where
  "conn_interest ctl oper w =
     rbind (set_interest ctl oper (tc_channel (cn w)) (poller w)) (\<lambda>p. Inr (w\<lparr>poller := p\<rparr>))"

section \<open>Sending\<close>

definition EWOULDBLOCK :: int where "EWOULDBLOCK = 11"
definition EPIPE :: int where "EPIPE = 32"
definition ECONNRESET :: int where "ECONNRESET = 104"

text \<open>
  The direct write at the head of \<open>sendInLoop\<close>: the bytes written, and \<open>faultError\<close>. A \<open>write\<close> that
  returns zero does not set \<open>errno\<close>; \<open>errno0\<close> is its value before the call.
\<close>

definition send_direct ::
  "(char list \<Rightarrow> int + nat) \<Rightarrow> int \<Rightarrow> string \<Rightarrow> 'k conn_env \<Rightarrow> nat \<times> bool \<times> 'k conn_env" where
  "send_direct write errno0 data w =
     (let fault = (\<lambda>e. e \<noteq> EWOULDBLOCK \<and> (e = EPIPE \<or> e = ECONNRESET))
      in case write data of
           Inl e \<Rightarrow> (0, fault e, w)
         | Inr n \<Rightarrow>
             if n > 0
             then let w1 = w\<lparr>wire := wire w @ take n data\<rparr>
                  in (n, False, if sz_sub (length data) n = 0 \<and> has_writeComplete (cn w)
                                then conn_queue WriteCompleteFn w1 else w1)
             else (0, fault errno0, w))"

text \<open>The rest of it: what was not written goes to the output buffer, and the channel waits for \<open>EPOLLOUT\<close>.\<close>

definition send_rest :: "'k epoll_ctl \<Rightarrow> string \<Rightarrow> 'k conn_env \<Rightarrow> 'k conn_env result" where
  "send_rest ctl rest w =
     (let oldLen = readableBytes (outputBuffer (cn w));
          total = sz_add oldLen (length rest);
          w1 = (if total \<ge> highWaterMark (cn w) \<and> oldLen < highWaterMark (cn w) \<and> has_highWaterMark (cn w)
                then conn_queue (HighWaterMarkFn total) w else w)
      in rbind (Buffer_append (outputBuffer (cn w)) rest) (\<lambda>b.
           let w2 = set_cn (\<lambda>c. c\<lparr>outputBuffer := b\<rparr>) w1
           in if \<not> isWriting (channel_of w2) then conn_interest ctl EnableWriting w2 else Inr w2))"

definition direct_write :: "'k conn_env \<Rightarrow> bool" where
  "direct_write w \<longleftrightarrow> \<not> isWriting (channel_of w) \<and> readableBytes (outputBuffer (cn w)) = 0"

definition sendInLoop ::
  "'k epoll_ctl \<Rightarrow> (char list \<Rightarrow> int + nat) \<Rightarrow> int \<Rightarrow> string \<Rightarrow> 'k conn_env \<Rightarrow> 'k conn_env result" where
  "sendInLoop ctl write errno0 data w =
     (if state (cn w) = kDisconnected then Inr w
      else let (nwrote, faultError, w1) =
                 (if direct_write w then send_direct write errno0 data w else (0, False, w));
               remaining = sz_sub (length data) nwrote
           in if \<not> faultError \<and> remaining > 0 then send_rest ctl (drop nwrote data) w1 else Inr w1)"

definition conn_send ::
  "'k epoll_ctl \<Rightarrow> bool \<Rightarrow> (char list \<Rightarrow> int + nat) \<Rightarrow> int \<Rightarrow> string \<Rightarrow> 'k conn_env \<Rightarrow> 'k conn_env result" where
  "conn_send ctl inLoopThread write errno0 data w =
     (if state (cn w) = kConnected
      then (if inLoopThread then sendInLoop ctl write errno0 data w
            else Inr (conn_queue (SendInLoopFn data) w))
      else Inr w)"

text \<open>\<open>send(Buffer*)\<close> empties the caller's buffer.\<close>

definition conn_send_buffer ::
  "'k epoll_ctl \<Rightarrow> bool \<Rightarrow> (char list \<Rightarrow> int + nat) \<Rightarrow> int \<Rightarrow> Buffer \<Rightarrow> 'k conn_env \<Rightarrow> (Buffer \<times> 'k conn_env) result" where
  "conn_send_buffer ctl inLoopThread write errno0 buf w =
     (if state (cn w) = kConnected
      then rbind (retrieveAllAsString buf) (\<lambda>(msg, buf').
             if inLoopThread
             then rbind (sendInLoop ctl write errno0 msg w) (\<lambda>w'. Inr (buf', w'))
             else Inr (buf', conn_queue (SendInLoopFn msg) w))
      else Inr (buf, w))"

section \<open>Closing\<close>

definition shutdownInLoop :: "'k conn_env \<Rightarrow> 'k conn_env" where
  "shutdownInLoop w = (if \<not> isWriting (channel_of w) then w\<lparr>shut := True\<rparr> else w)"

definition conn_shutdown :: "bool \<Rightarrow> 'k conn_env \<Rightarrow> 'k conn_env" where
  "conn_shutdown inLoopThread w =
     (if state (cn w) = kConnected
      then let w1 = setState kDisconnecting w
           in if inLoopThread then shutdownInLoop w1 else conn_queue ShutdownInLoopFn w1
      else w)"

definition connectionEstablished :: "'k epoll_ctl \<Rightarrow> 'k conn_env \<Rightarrow> 'k conn_env result" where
  "connectionEstablished ctl w =
     (let w1 = setState kConnected w;
          w2 = w1\<lparr>poller := set_chan (tc_channel (cn w1)) Channel_tie (poller w1)\<rparr>
      in rbind (conn_interest ctl EnableReading w2) (\<lambda>w3.
           Inr (conn_calls [ConnectionCall (state (cn w3))] w3)))"

definition connectionDestoryed :: "'k epoll_ctl \<Rightarrow> 'k conn_env \<Rightarrow> 'k conn_env result" where
  "connectionDestoryed ctl w =
     rbind (if state (cn w) = kConnected
            then rbind (conn_interest ctl DisableAll (setState kDisconnected w)) (\<lambda>w1.
                   Inr (conn_calls [ConnectionCall (state (cn w1))] w1))
            else Inr w) (\<lambda>w2.
       rbind (removeChannel ctl (tc_channel (cn w2)) (poller w2)) (\<lambda>p. Inr (w2\<lparr>poller := p\<rparr>)))"

definition handleClose :: "'k epoll_ctl \<Rightarrow> 'k conn_env \<Rightarrow> 'k conn_env result" where
  "handleClose ctl w =
     rbind (conn_interest ctl DisableAll (setState kDisconnected w)) (\<lambda>w1.
       Inr (conn_calls [ConnectionCall (state (cn w1)), CloseCall] w1))"

section \<open>Events\<close>

text \<open>\<open>getsockopt\<close> answers with an \<open>errno\<close> or with the pending error of the socket.\<close>

definition handleError :: "int + int \<Rightarrow> 'k conn_env \<Rightarrow> 'k conn_env" where
  "handleError sockopt w =
     (let err = (case sockopt of Inl e \<Rightarrow> e | Inr optval \<Rightarrow> optval)
      in w\<lparr>so_errors := so_errors w @ [err]\<rparr>)"

definition conn_handleRead ::
  "'k epoll_ctl \<Rightarrow> (size_t list \<Rightarrow> int + char list) \<Rightarrow> int + int \<Rightarrow> Timestamp \<Rightarrow> 'k conn_env \<Rightarrow> 'k conn_env result" where
  "conn_handleRead ctl readv sockopt receiveTime w =
     rbind (readFd readv (inputBuffer (cn w))) (\<lambda>(n, saveError, b).
       let w1 = set_cn (\<lambda>c. c\<lparr>inputBuffer := b\<rparr>) w
       in if n > 0 then Inr (conn_calls [MessageCall receiveTime] w1)
          else if n = 0 then handleClose ctl w1
          else Inr (handleError sockopt w1))"

definition conn_handleWrite ::
  "'k epoll_ctl \<Rightarrow> (char list \<Rightarrow> int + nat) \<Rightarrow> 'k conn_env \<Rightarrow> 'k conn_env result" where
  "conn_handleWrite ctl write w =
     (if isWriting (channel_of w)
      then rbind (writeFd write (outputBuffer (cn w))) (\<lambda>(n, saveError).
             if n > 0
             then let w1 = w\<lparr>wire := wire w @ take (nat n) (Buffer_content (outputBuffer (cn w)))\<rparr>;
                      w2 = set_cn (\<lambda>c. c\<lparr>outputBuffer := retrieve (outputBuffer c) (nat n)\<rparr>) w1
                  in if readableBytes (outputBuffer (cn w2)) = 0
                     then rbind (conn_interest ctl DisableWriting w2) (\<lambda>w3.
                            let w4 = (if has_writeComplete (cn w3) then conn_queue WriteCompleteFn w3 else w3)
                            in Inr (if state (cn w4) = kDisconnecting then shutdownInLoop w4 else w4))
                     else Inr w2
             else Inr w)
      else Inr w)"

text \<open>One event of the poller: the callbacks \<open>Channel::handleEvent\<close> makes, in its order.\<close>

record conn_io =
  io_readv :: "size_t list \<Rightarrow> int + char list"
  io_write :: "char list \<Rightarrow> int + nat"
  io_errno :: int
  io_sockopt :: "int + int"

fun conn_callback :: "'k epoll_ctl \<Rightarrow> conn_io \<Rightarrow> callback \<Rightarrow> 'k conn_env \<Rightarrow> 'k conn_env result" where
  "conn_callback ctl io CloseCb w = handleClose ctl w"
| "conn_callback ctl io ErrorCb w = Inr (handleError (io_sockopt io) w)"
| "conn_callback ctl io (ReadCb t) w = conn_handleRead ctl (io_readv io) (io_sockopt io) t w"
| "conn_callback ctl io WriteCb w = conn_handleWrite ctl (io_write io) w"

fun conn_callbacks :: "'k epoll_ctl \<Rightarrow> conn_io \<Rightarrow> callback list \<Rightarrow> 'k conn_env \<Rightarrow> 'k conn_env result" where
  "conn_callbacks ctl io [] w = Inr w"
| "conn_callbacks ctl io (cb # cbs) w = rbind (conn_callback ctl io cb w) (conn_callbacks ctl io cbs)"

definition conn_event :: "'k epoll_ctl \<Rightarrow> conn_io \<Rightarrow> bool \<Rightarrow> Timestamp \<Rightarrow> 'k conn_env \<Rightarrow> 'k conn_env result" where
  "conn_event ctl io alive t w = conn_callbacks ctl io (handleEvent (channel_of w) alive t) w"

text \<open>A functor the connection has queued, when the loop runs it.\<close>

fun conn_functor_run :: "'k epoll_ctl \<Rightarrow> conn_io \<Rightarrow> conn_functor \<Rightarrow> 'k conn_env \<Rightarrow> 'k conn_env result" where
  "conn_functor_run ctl io WriteCompleteFn w = Inr (conn_calls [WriteCompleteCall] w)"
| "conn_functor_run ctl io (HighWaterMarkFn n) w = Inr (conn_calls [HighWaterMarkCall n] w)"
| "conn_functor_run ctl io (SendInLoopFn data) w = sendInLoop ctl (io_write io) (io_errno io) data w"
| "conn_functor_run ctl io ShutdownInLoopFn w = Inr (shutdownInLoop w)"

text \<open>
  The default connection callback logs the two addresses and the state: the text it gives to \<open>LOG_TRACE\<close>, or
  none when that level is not enabled.
\<close>

definition defaultConnectionCallback :: "log_globals \<Rightarrow> TcpConnection \<Rightarrow> string option result" where
  "defaultConnectionCallback g c =
     (if log_enabled (g_logLevel g) TRACE
      then rbind (toIpPort (localAddr c)) (\<lambda>l. rbind (toIpPort (peerAddr c)) (\<lambda>p.
             Inr (Some (l @ '' -> '' @ p @ '' is '' @ (if connected c then ''UP'' else ''DOWN'')))))
      else Inr None)"

text \<open>
  The default message callback reads the buffer as an operand of \<open>LOG_TRACE\<close>: it is evaluated only when
  that level is enabled.
\<close>

definition defaultMessageCallback :: "log_globals \<Rightarrow> Buffer \<Rightarrow> Buffer result" where
  "defaultMessageCallback g b =
     (if log_enabled (g_logLevel g) TRACE then rbind (retrieveAllAsString b) (\<lambda>(s, b'). Inr b') else Inr b)"

section \<open>Sequences of operations\<close>

text \<open>
  What happens to an established connection until its channel is removed: calls of the user from the
  loop thread or from another one, handlers run by the loop, functors run by the loop in queue order,
  the user taking bytes out of the input buffer or setting the high-water mark.
\<close>

datatype conn_op =
    UserSend bool string
  | UserShutdown bool
  | UserRetrieve nat
  | UserHighWaterMark bool size_t
  | RunFunctor
  | OnRead Timestamp
  | OnWrite
  | OnClose
  | OnError

fun conn_exec :: "'k epoll_ctl \<Rightarrow> conn_op \<times> conn_io \<Rightarrow> 'k conn_env \<Rightarrow> 'k conn_env result" where
  "conn_exec ctl (UserSend inLoop data, io) w = conn_send ctl inLoop (io_write io) (io_errno io) data w"
| "conn_exec ctl (UserShutdown inLoop, io) w = Inr (conn_shutdown inLoop w)"
| "conn_exec ctl (UserRetrieve n, io) w = Inr (set_cn (\<lambda>c. c\<lparr>inputBuffer := retrieve (inputBuffer c) n\<rparr>) w)"
| "conn_exec ctl (UserHighWaterMark cb mark, io) w = Inr (set_cn (setHighWaterMarkCallback cb mark) w)"
| "conn_exec ctl (RunFunctor, io) w =
     (case pending w of [] \<Rightarrow> Inr w
      | f # fs \<Rightarrow> conn_functor_run ctl io f (w\<lparr>pending := fs\<rparr>))"
| "conn_exec ctl (OnRead t, io) w = conn_callback ctl io (ReadCb t) w"
| "conn_exec ctl (OnWrite, io) w = conn_callback ctl io WriteCb w"
| "conn_exec ctl (OnClose, io) w = conn_callback ctl io CloseCb w"
| "conn_exec ctl (OnError, io) w = conn_callback ctl io ErrorCb w"

fun conn_run :: "'k epoll_ctl \<Rightarrow> (conn_op \<times> conn_io) list \<Rightarrow> 'k conn_env \<Rightarrow> 'k conn_env result" where
  "conn_run ctl [] w = Inr w"
| "conn_run ctl (s # ss) w = rbind (conn_exec ctl s w) (conn_run ctl ss)"

text \<open>
  The bytes a connection has taken over, as one stream: those the kernel has, then those that wait.
\<close>

definition stream_of :: "'k conn_env \<Rightarrow> string" where
  "stream_of w = wire w @ Buffer_content (outputBuffer (cn w))"

text \<open>
  What \<open>sendInLoop\<close> takes over: everything, unless the connection is down or the direct write finds the
  connection reset.
\<close>

definition send_fault :: "int + nat \<Rightarrow> int \<Rightarrow> bool" where
  "send_fault ans errno0 =
     (case ans of Inl e \<Rightarrow> e = EPIPE \<or> e = ECONNRESET
      | Inr n \<Rightarrow> n = 0 \<and> (errno0 = EPIPE \<or> errno0 = ECONNRESET))"

definition taken :: "conn_io \<Rightarrow> string \<Rightarrow> 'k conn_env \<Rightarrow> string" where
  "taken io data w =
     (if state (cn w) = kDisconnected \<or> direct_write w \<and> send_fault (io_write io data) (io_errno io)
      then [] else data)"

fun accepted :: "conn_op \<times> conn_io \<Rightarrow> 'k conn_env \<Rightarrow> string" where
  "accepted (UserSend inLoop data, io) w =
     (if inLoop \<and> state (cn w) = kConnected then taken io data w else [])"
| "accepted (RunFunctor, io) w =
     (case pending w of SendInLoopFn data # fs \<Rightarrow> taken io data (w\<lparr>pending := fs\<rparr>) | _ \<Rightarrow> [])"
| "accepted _ w = []"

fun accepted_all :: "'k epoll_ctl \<Rightarrow> (conn_op \<times> conn_io) list \<Rightarrow> 'k conn_env \<Rightarrow> string" where
  "accepted_all ctl [] w = []"
| "accepted_all ctl (s # ss) w =
     accepted s w @ (case conn_exec ctl s w of Inl _ \<Rightarrow> [] | Inr w' \<Rightarrow> accepted_all ctl ss w')"

text \<open>
  The invariant of an established connection. While it is up, it waits for \<open>EPOLLOUT\<close> exactly when the
  output buffer holds something.
\<close>

definition conn_inv :: "'k epoll_ctl \<Rightarrow> ('k \<Rightarrow> int \<rightharpoonup> events \<times> channel_id) \<Rightarrow> 'k conn_env \<Rightarrow> bool" where
  "conn_inv ctl interest w \<longleftrightarrow>
     poller_ready ctl interest (poller w) \<and> ch_index (channel_of w) \<noteq> kNew \<and>
     Buffer_inv (inputBuffer (cn w)) \<and> Buffer_inv (outputBuffer (cn w)) \<and>
     state (cn w) \<noteq> kConnecting \<and>
     (if state (cn w) = kDisconnected then \<not> isWriting (channel_of w)
      else isWriting (channel_of w) \<longleftrightarrow> Buffer_content (outputBuffer (cn w)) \<noteq> []) \<and>
     (shut w \<longrightarrow> state (cn w) \<noteq> kConnected) \<and>
     (ShutdownInLoopFn \<in> set (pending w) \<longrightarrow> state (cn w) \<noteq> kConnected)"

text \<open>What the environment owes an operation: bounded answers of the system calls, and memory.\<close>

definition send_pre :: "conn_io \<Rightarrow> string \<Rightarrow> 'k conn_env \<Rightarrow> bool" where
  "send_pre io data w \<longleftrightarrow> write_spec (io_write io) \<and> length data < 2 ^ 62 \<and>
     length (Buffer_content (outputBuffer (cn w))) < 2 ^ 61 \<and>
     Buffer_room (length (Buffer_content (outputBuffer (cn w)))) (length data)"

fun conn_pre :: "conn_op \<times> conn_io \<Rightarrow> 'k conn_env \<Rightarrow> bool" where
  "conn_pre (UserSend inLoop data, io) w = send_pre io data w"
| "conn_pre (RunFunctor, io) w =
     (case pending w of SendInLoopFn data # fs \<Rightarrow> send_pre io data w | _ \<Rightarrow> True)"
| "conn_pre (OnRead t, io) w =
     (readv_spec (io_readv io) \<and>
      length (buffer (inputBuffer (cn w))) + 2 * extrabuf_size + kCheapPrepend \<le> max_size)"
| "conn_pre (OnWrite, io) w = write_spec (io_write io)"
| "conn_pre _ w = True"

fun conn_pres :: "'k epoll_ctl \<Rightarrow> (conn_op \<times> conn_io) list \<Rightarrow> 'k conn_env \<Rightarrow> bool" where
  "conn_pres ctl [] w = True"
| "conn_pres ctl (s # ss) w =
     (conn_pre s w \<and> (case conn_exec ctl s w of Inl _ \<Rightarrow> True | Inr w' \<Rightarrow> conn_pres ctl ss w'))"

subsection \<open>The operations keep the invariant\<close>

declare interest_mask.simps(1-4) [simp del]

lemmas conn_simps = setState_def conn_queue_def conn_calls_def

lemma conn_interest_ok:
  assumes "poller_ready ctl interest (poller w)" "ch_index (channel_of w) \<noteq> kNew"
  shows "\<exists>p. conn_interest ctl oper w = Inr (w\<lparr>poller := p\<rparr>) \<and> poller_ready ctl interest p \<and>
    ch_index (chan p (tc_channel (cn w))) \<noteq> kNew \<and>
    ch_events (chan p (tc_channel (cn w))) = interest_mask oper (ch_events (channel_of w)) \<and>
    (isWriting (chan p (tc_channel (cn w))) \<longleftrightarrow> interest_mask oper (ch_events (channel_of w)) AND kWriteEvent \<noteq> 0)"
  using epoll.set_ok [OF assms(1) epoll.known_may [OF assms(2)], of oper]
  by (fastforce simp: conn_interest_def isWriting_def)

lemma handleClose_ok:
  assumes "poller_ready ctl interest (poller w)" "ch_index (channel_of w) \<noteq> kNew"
  shows "\<exists>p. handleClose ctl w =
      Inr (w\<lparr>cn := (cn w)\<lparr>state := kDisconnected\<rparr>, poller := p,
             calls := calls w @ [ConnectionCall kDisconnected, CloseCall]\<rparr>) \<and>
    poller_ready ctl interest p \<and> ch_index (chan p (tc_channel (cn w))) \<noteq> kNew \<and>
    ch_events (chan p (tc_channel (cn w))) = kNoneEvent"
  using conn_interest_ok [of ctl interest "setState kDisconnected w" DisableAll] assms
  by (fastforce simp: handleClose_def conn_simps)

lemma send_rest_ok:
  assumes "poller_ready ctl interest (poller w)" "ch_index (channel_of w) \<noteq> kNew"
    and "Buffer_inv (outputBuffer (cn w))"
    and "Buffer_room (length (Buffer_content (outputBuffer (cn w)))) (length rest)"
  shows "\<exists>p b q. send_rest ctl rest w =
      Inr (w\<lparr>cn := (cn w)\<lparr>outputBuffer := b\<rparr>, pending := pending w @ q, poller := p\<rparr>) \<and>
    poller_ready ctl interest p \<and> ch_index (chan p (tc_channel (cn w))) \<noteq> kNew \<and>
    isWriting (chan p (tc_channel (cn w))) \<and> Buffer_inv b \<and>
    Buffer_content b = Buffer_content (outputBuffer (cn w)) @ rest \<and> ShutdownInLoopFn \<notin> set q"
proof -
  obtain b where b: "Buffer_append (outputBuffer (cn w)) rest = Inr b" "Buffer_inv b"
      "Buffer_content b = Buffer_content (outputBuffer (cn w)) @ rest"
    using buf.push_ok [OF assms(3,4)] by blast
  let ?tot = "sz_add (readableBytes (outputBuffer (cn w))) (length rest)"
  define q where "q = (if ?tot \<ge> highWaterMark (cn w) \<and> readableBytes (outputBuffer (cn w)) < highWaterMark (cn w) \<and>
    has_highWaterMark (cn w) then [HighWaterMarkFn ?tot] else [])"
  let ?w2 = "w\<lparr>cn := (cn w)\<lparr>outputBuffer := b\<rparr>, pending := pending w @ q\<rparr>"
  have run: "send_rest ctl rest w =
      (if \<not> isWriting (channel_of w) then conn_interest ctl EnableWriting ?w2 else Inr ?w2)"
    using b(1) by (cases w) (simp add: send_rest_def q_def conn_queue_def Let_def)
  obtain p where "conn_interest ctl EnableWriting ?w2 = Inr (?w2\<lparr>poller := p\<rparr>)" "poller_ready ctl interest p"
      "ch_index (chan p (tc_channel (cn w))) \<noteq> kNew" "isWriting (chan p (tc_channel (cn w)))"
    using conn_interest_ok [of ctl interest ?w2 EnableWriting] assms by auto
  moreover have "ShutdownInLoopFn \<notin> set q" by (simp add: q_def)
  ultimately show ?thesis
  proof (cases "isWriting (channel_of w)")
    case True
    then have "send_rest ctl rest w = Inr (?w2\<lparr>poller := poller w\<rparr>)" using run by simp
    then show ?thesis using True assms b \<open>ShutdownInLoopFn \<notin> set q\<close> by fastforce
  qed (use run b in fastforce)
qed

text \<open>What a direct write does, for every answer of \<open>write\<close>.\<close>

lemma send_direct_ok:
  assumes "write_spec write" "length data < 2 ^ 62"
  shows "\<exists>n q. send_direct write errno0 data w =
      (n, send_fault (write data) errno0, w\<lparr>wire := wire w @ take n data, pending := pending w @ q\<rparr>) \<and>
    n \<le> length data \<and> (send_fault (write data) errno0 \<longrightarrow> n = 0) \<and> ShutdownInLoopFn \<notin> set q \<and>
    sz_sub (length data) n = length data - n \<and> n = (case write data of Inl _ \<Rightarrow> 0 | Inr m \<Rightarrow> m)"
proof -
  have sub: "sz_sub (length data) n = length data - n" if "n \<le> length data" for n
    using that assms(2) by (intro sz_sub_small) auto
  have same: "w\<lparr>wire := wire w @ take 0 data, pending := pending w @ []\<rparr> = w" by simp
  show ?thesis
  proof (cases "write data")
    case (Inl e)
    then show ?thesis
      by (intro exI [of _ 0] exI [of _ "[]"])
        (auto simp: send_direct_def send_fault_def EWOULDBLOCK_def EPIPE_def ECONNRESET_def sub)
  next
    case (Inr n)
    then have n: "n \<le> length data" using assms(1) by (rule write_specD [rotated])
    show ?thesis
      by (rule exI [of _ n], rule exI [of _ "if 0 < n \<and> sz_sub (length data) n = 0 \<and> has_writeComplete (cn w)
          then [WriteCompleteFn] else []"], cases w)
        (use Inr n in \<open>auto simp: send_direct_def send_fault_def EWOULDBLOCK_def EPIPE_def ECONNRESET_def sub
          conn_queue_def\<close>)
  qed
qed

lemma conn_invI:
  assumes "poller_ready ctl interest (poller w)" "ch_index (channel_of w) \<noteq> kNew"
    "Buffer_inv (inputBuffer (cn w))" "Buffer_inv (outputBuffer (cn w))" "state (cn w) \<noteq> kConnecting"
    "state (cn w) = kDisconnected \<Longrightarrow> \<not> isWriting (channel_of w)"
    "state (cn w) \<noteq> kDisconnected \<Longrightarrow> isWriting (channel_of w) = (Buffer_content (outputBuffer (cn w)) \<noteq> [])"
    "shut w \<Longrightarrow> state (cn w) \<noteq> kConnected"
    "ShutdownInLoopFn \<in> set (pending w) \<Longrightarrow> state (cn w) \<noteq> kConnected"
  shows "conn_inv ctl interest w"
  using assms by (simp add: conn_inv_def)

lemma conn_invD:
  assumes "conn_inv ctl interest w"
  shows "poller_ready ctl interest (poller w)" "ch_index (channel_of w) \<noteq> kNew"
    "Buffer_inv (inputBuffer (cn w))" "Buffer_inv (outputBuffer (cn w))" "state (cn w) \<noteq> kConnecting"
    "state (cn w) = kDisconnected \<Longrightarrow> \<not> isWriting (channel_of w)"
    "state (cn w) \<noteq> kDisconnected \<Longrightarrow> isWriting (channel_of w) = (Buffer_content (outputBuffer (cn w)) \<noteq> [])"
    "shut w \<Longrightarrow> state (cn w) \<noteq> kConnected"
    "ShutdownInLoopFn \<in> set (pending w) \<Longrightarrow> state (cn w) \<noteq> kConnected"
  using assms by (simp_all add: conn_inv_def split: if_splits)

lemma direct_write_iff:
  assumes "conn_inv ctl interest w" "state (cn w) \<noteq> kDisconnected"
  shows "direct_write w \<longleftrightarrow> Buffer_content (outputBuffer (cn w)) = []"
  using conn_invD(4,7) [OF assms(1)] assms(2) Buffer_sizes(3) by (auto simp: direct_write_def)

lemma sendInLoop_ok:
  assumes inv: "conn_inv ctl interest w" and pre: "send_pre io data w"
  shows "\<exists>w'. sendInLoop ctl (io_write io) (io_errno io) data w = Inr w' \<and> conn_inv ctl interest w' \<and>
    stream_of w' = stream_of w @ taken io data w \<and> shut w' = shut w \<and>
    wire w' = wire w @ (if state (cn w) \<noteq> kDisconnected \<and> direct_write w
      then take (case io_write io data of Inl _ \<Rightarrow> 0 | Inr m \<Rightarrow> m) data else []) \<and>
    inputBuffer (cn w') = inputBuffer (cn w) \<and> state (cn w') = state (cn w)"
proof (cases "state (cn w) = kDisconnected")
  case True
  then show ?thesis using inv by (simp add: sendInLoop_def taken_def)
next
  case up: False
  note D = conn_invD [OF inv]
  have len: "length data < 2 ^ 62" and spec: "write_spec (io_write io)"
    and room: "Buffer_room (length (Buffer_content (outputBuffer (cn w)))) (length data)"
    using pre by (auto simp: send_pre_def)
  define res where "res = (if direct_write w then send_direct (io_write io) (io_errno io) data w else (0, False, w))"
  define fault where "fault \<longleftrightarrow> direct_write w \<and> send_fault (io_write io data) (io_errno io)"
  obtain n q where res: "res = (n, fault, w\<lparr>wire := wire w @ take n data, pending := pending w @ q\<rparr>)"
      "n \<le> length data" "fault \<Longrightarrow> n = 0" "ShutdownInLoopFn \<notin> set q" "sz_sub (length data) n = length data - n"
      "n > 0 \<Longrightarrow> direct_write w" "direct_write w \<Longrightarrow> n = (case io_write io data of Inl _ \<Rightarrow> 0 | Inr m \<Rightarrow> m)"
  proof (cases "direct_write w")
    case True
    then show ?thesis
      using send_direct_ok [OF spec len, of "io_errno io" w] that by (auto simp: res_def fault_def)
  next
    case False
    have "sz_sub (length data) 0 = length data" using len by (simp add: sz_sub_small)
    then show ?thesis using False that [of 0 "[]"] by (simp add: res_def fault_def)
  qed
  let ?w1 = "w\<lparr>wire := wire w @ take n data, pending := pending w @ q\<rparr>"
  have run: "sendInLoop ctl (io_write io) (io_errno io) data w =
      (if \<not> fault \<and> n < length data then send_rest ctl (drop n data) ?w1 else Inr ?w1)"
    using up res(1,5) by (simp add: sendInLoop_def res_def [symmetric])
  have taken: "taken io data w = (if fault then [] else data)"
    using up by (simp add: taken_def fault_def)
  show ?thesis
  proof (cases "\<not> fault \<and> n < length data")
    case False
    have "conn_inv ctl interest ?w1"
      using D res(4) by (intro conn_invI) auto
    moreover have "stream_of ?w1 = stream_of w @ taken io data w"
      using False res(2,3,6) direct_write_iff [OF inv up] taken
      by (cases "data = []") (auto simp: stream_of_def)
    ultimately show ?thesis using run False up res(6,7) by auto
  next
    case True
    have "Buffer_room (length (Buffer_content (outputBuffer (cn ?w1)))) (length (drop n data))"
      using room by (simp add: Buffer_room_def)
    then obtain p b q' where r: "send_rest ctl (drop n data) ?w1 =
          Inr (?w1\<lparr>cn := (cn w)\<lparr>outputBuffer := b\<rparr>, pending := pending w @ q @ q', poller := p\<rparr>)"
        "poller_ready ctl interest p" "ch_index (chan p (tc_channel (cn w))) \<noteq> kNew"
        "isWriting (chan p (tc_channel (cn w)))" "Buffer_inv b"
        "Buffer_content b = Buffer_content (outputBuffer (cn w)) @ drop n data" "ShutdownInLoopFn \<notin> set q'"
      using send_rest_ok [of ctl interest ?w1 "drop n data"] D by auto
    let ?w2 = "?w1\<lparr>cn := (cn w)\<lparr>outputBuffer := b\<rparr>, pending := pending w @ q @ q', poller := p\<rparr>"
    have "conn_inv ctl interest ?w2"
      using D up True res(4) r(2-7) by (intro conn_invI) auto
    moreover have "stream_of ?w2 = stream_of w @ taken io data w"
      using True res(6) direct_write_iff [OF inv up] r(6) by (cases "n = 0") (auto simp: stream_of_def taken)
    ultimately show ?thesis using run True r(1) up res(6,7) by auto
  qed
qed

lemma handleClose_inv:
  assumes inv: "conn_inv ctl interest w"
  shows "\<exists>w'. handleClose ctl w = Inr w' \<and> conn_inv ctl interest w' \<and> stream_of w' = stream_of w \<and>
    shut w' = shut w \<and> inputBuffer (cn w') = inputBuffer (cn w) \<and> state (cn w') = kDisconnected"
proof -
  note D = conn_invD [OF inv]
  obtain p where p: "handleClose ctl w =
      Inr (w\<lparr>cn := (cn w)\<lparr>state := kDisconnected\<rparr>, poller := p,
             calls := calls w @ [ConnectionCall kDisconnected, CloseCall]\<rparr>)"
      "poller_ready ctl interest p" "ch_index (chan p (tc_channel (cn w))) \<noteq> kNew"
      "ch_events (chan p (tc_channel (cn w))) = kNoneEvent"
    using handleClose_ok [OF D(1,2)] by blast
  let ?w = "w\<lparr>cn := (cn w)\<lparr>state := kDisconnected\<rparr>, poller := p,
             calls := calls w @ [ConnectionCall kDisconnected, CloseCall]\<rparr>"
  have "conn_inv ctl interest ?w"
    using D p(2-4) by (intro conn_invI) (auto simp: isWriting_def kNoneEvent_def)
  with p(1) show ?thesis by (auto simp: stream_of_def)
qed

lemma conn_handleRead_ok:
  assumes inv: "conn_inv ctl interest w" and spec: "readv_spec readv"
    and room: "length (buffer (inputBuffer (cn w))) + 2 * extrabuf_size + kCheapPrepend \<le> max_size"
  shows "\<exists>w'. conn_handleRead ctl readv sockopt t w = Inr w' \<and> conn_inv ctl interest w' \<and>
    stream_of w' = stream_of w \<and> shut w' = shut w \<and>
    Buffer_content (inputBuffer (cn w')) = Buffer_content (inputBuffer (cn w)) @
      (case readv (readFd_vec (inputBuffer (cn w))) of Inl _ \<Rightarrow> [] | Inr bytes \<Rightarrow> bytes) \<and>
    (state (cn w') = (if readv (readFd_vec (inputBuffer (cn w))) = Inr [] then kDisconnected else state (cn w)))"
proof -
  note D = conn_invD [OF inv]
  obtain n e b where r: "readFd readv (inputBuffer (cn w)) = Inr (n, e, b)" "Buffer_inv b"
    and c: "case readv (readFd_vec (inputBuffer (cn w))) of
        Inl errno \<Rightarrow> n = - 1 \<and> e = errno \<and> b = inputBuffer (cn w)
      | Inr bytes \<Rightarrow> n = int (length bytes) \<and> Buffer_content b = Buffer_content (inputBuffer (cn w)) @ bytes"
    using readFd_ok [OF D(3) spec room] by blast
  let ?w1 = "w\<lparr>cn := (cn w)\<lparr>inputBuffer := b\<rparr>\<rparr>"
  have inv1: "conn_inv ctl interest ?w1" using D r(2) by (intro conn_invI) auto
  have run: "conn_handleRead ctl readv sockopt t w =
      (if n > 0 then Inr (conn_calls [MessageCall t] ?w1)
       else if n = 0 then handleClose ctl ?w1 else Inr (handleError sockopt ?w1))"
    using r(1) by (simp add: conn_handleRead_def Let_def)
  consider "n > 0" | "n = 0" | "n < 0" by linarith
  then show ?thesis
  proof cases
    case 1
    have "conn_inv ctl interest (conn_calls [MessageCall t] ?w1)"
      using D r(2) by (intro conn_invI) (auto simp: conn_calls_def)
    then show ?thesis using 1 run c by (auto simp: conn_calls_def stream_of_def split: sum.splits)
  next
    case 2
    then show ?thesis
      using run c handleClose_inv [OF inv1] by (auto simp: stream_of_def split: sum.splits)
  next
    case 3
    have "conn_inv ctl interest (handleError sockopt ?w1)"
      using D r(2) by (intro conn_invI) (auto simp: handleError_def)
    then show ?thesis using 3 run c by (auto simp: handleError_def stream_of_def split: sum.splits)
  qed
qed

lemma conn_shutdownInLoop_inv:
  assumes "conn_inv ctl interest w" "state (cn w) \<noteq> kConnected"
  shows "conn_inv ctl interest (shutdownInLoop w)" "stream_of (shutdownInLoop w) = stream_of w"
  using assms by (auto simp: conn_inv_def shutdownInLoop_def stream_of_def)

text \<open>
  \<open>handleWrite\<close>: nothing happens without room in the kernel; otherwise the head of the output buffer
  moves to the wire, and the last byte ends the waiting and starts a delayed shutdown.
\<close>

lemma conn_handleWrite_ok:
  assumes inv: "conn_inv ctl interest w" and spec: "write_spec write"
  shows "\<exists>w'. conn_handleWrite ctl write w = Inr w' \<and> conn_inv ctl interest w' \<and>
    stream_of w' = stream_of w \<and> cn w' = (cn w)\<lparr>outputBuffer := outputBuffer (cn w')\<rparr> \<and>
    (isWriting (channel_of w) \<longrightarrow>
      Buffer_content (outputBuffer (cn w')) =
        drop (case write (Buffer_content (outputBuffer (cn w))) of Inl _ \<Rightarrow> 0 | Inr n \<Rightarrow> n)
          (Buffer_content (outputBuffer (cn w))) \<and>
      (Buffer_content (outputBuffer (cn w')) = [] \<and> state (cn w) = kDisconnecting \<longrightarrow> shut w')) \<and>
    (shut w' \<longrightarrow> shut w \<or> Buffer_content (outputBuffer (cn w')) = [])"
proof (cases "isWriting (channel_of w)")
  case False
  then show ?thesis using inv by (auto simp: conn_handleWrite_def)
next
  case True
  note D = conn_invD [OF inv]
  let ?out = "outputBuffer (cn w)"
  have up: "state (cn w) \<noteq> kDisconnected" and ne: "Buffer_content ?out \<noteq> []"
    using D(6,7) True by auto
  note wfd = writeFd_ok [OF D(4), of "write"]
  show ?thesis
  proof (cases "\<exists>n>0. write (Buffer_content ?out) = Inr n")
    case False
    then have "conn_handleWrite ctl write w = Inr w"
      using True wfd by (cases "write (Buffer_content ?out)") (auto simp: conn_handleWrite_def)
    then show ?thesis using inv True ne False by (cases "write (Buffer_content ?out)") auto
  next
    case sent: True
    then obtain n where n: "write (Buffer_content ?out) = Inr n" "n > 0" by blast
    let ?w2 = "w\<lparr>cn := (cn w)\<lparr>outputBuffer := retrieve ?out n\<rparr>, wire := wire w @ take n (Buffer_content ?out)\<rparr>"
    have b: "Buffer_inv (retrieve ?out n)" "Buffer_content (retrieve ?out n) = drop n (Buffer_content ?out)"
      using retrieve_ok [OF D(4)] by auto
    have empty: "readableBytes (retrieve ?out n) = 0 \<longleftrightarrow> drop n (Buffer_content ?out) = []"
      using Buffer_sizes(3) [OF b(1)] b(2) by simp
    have run: "conn_handleWrite ctl write w =
        (if drop n (Buffer_content ?out) = []
         then rbind (conn_interest ctl DisableWriting ?w2) (\<lambda>w3.
                let w4 = (if has_writeComplete (cn w3) then conn_queue WriteCompleteFn w3 else w3)
                in Inr (if state (cn w4) = kDisconnecting then shutdownInLoop w4 else w4))
         else Inr ?w2)"
      using True wfd n empty by (cases w) (simp add: conn_handleWrite_def Let_def)
    have stream: "stream_of ?w2 = stream_of w" using b(2) by (simp add: stream_of_def)
    show ?thesis
    proof (cases "drop n (Buffer_content ?out) = []")
      case False
      have "conn_inv ctl interest ?w2" using D b True False up by (intro conn_invI) auto
      then show ?thesis using run False stream b(2) True n by auto
    next
      case last: True
      obtain p where p: "conn_interest ctl DisableWriting ?w2 = Inr (?w2\<lparr>poller := p\<rparr>)"
          "poller_ready ctl interest p" "ch_index (chan p (tc_channel (cn w))) \<noteq> kNew"
          "\<not> isWriting (chan p (tc_channel (cn w)))"
        using conn_interest_ok [of ctl interest ?w2 DisableWriting] D(1,2) by auto
      let ?w5 = "?w2\<lparr>poller := p,
          pending := pending w @ (if has_writeComplete (cn w) then [WriteCompleteFn] else []),
          shut := shut w \<or> state (cn w) = kDisconnecting\<rparr>"
      have "conn_handleWrite ctl write w = Inr ?w5"
        using run last p(1,4) by (cases w) (auto simp: conn_queue_def shutdownInLoop_def Let_def)
      moreover have "conn_inv ctl interest ?w5"
        using D b p(2-4) last up by (intro conn_invI) auto
      moreover have "stream_of ?w5 = stream_of w" using stream by (simp add: stream_of_def)
      ultimately show ?thesis using last b(2) True n by auto
    qed
  qed
qed

lemma handleError_inv:
  assumes "conn_inv ctl interest w"
  shows "conn_inv ctl interest (handleError sockopt w)"
  using conn_invD [OF assms] by (intro conn_invI) (auto simp: handleError_def)

lemma eof_read:
  assumes inv: "conn_inv ctl interest w" and spec: "readv_spec readv"
    and room: "length (buffer (inputBuffer (cn w))) + 2 * extrabuf_size + kCheapPrepend \<le> max_size"
    and eof: "readv (readFd_vec (inputBuffer (cn w))) = Inr []"
  shows "\<exists>w'. conn_handleRead ctl readv sockopt t w = Inr w' \<and> conn_inv ctl interest w' \<and>
    state (cn w') = kDisconnected \<and> wire w' = wire w \<and>
    calls w' = calls w @ [ConnectionCall kDisconnected, CloseCall]"
proof -
  note D = conn_invD [OF inv]
  obtain b where b: "readFd readv (inputBuffer (cn w)) = Inr (0, 0, b)"
    using readFd_fit [where readv = readv and bytes = "[]", OF D(3)] eof by auto
  then have "conn_handleRead ctl readv sockopt t w = handleClose ctl (w\<lparr>cn := (cn w)\<lparr>inputBuffer := b\<rparr>\<rparr>)"
    by (simp add: conn_handleRead_def)
  then show ?thesis
    using handleClose_ok [of ctl interest "w\<lparr>cn := (cn w)\<lparr>inputBuffer := b\<rparr>\<rparr>"] D(1,2)
      conn_handleRead_ok [OF inv spec room, of sockopt t] eof by auto
qed

lemma conn_callbacks_append:
  "conn_callbacks ctl io (xs @ ys) w = rbind (conn_callbacks ctl io xs w) (conn_callbacks ctl io ys)"
proof (induction xs arbitrary: w)
  case Nil
  then show ?case by simp
next
  case (Cons cb cbs)
  then show ?case by (cases "conn_callback ctl io cb w") auto
qed

lemma mask_or: "e AND a \<noteq> 0 \<Longrightarrow> e AND (a OR b) \<noteq> (0 :: events)"
  by (auto simp: bit_eq_iff bit_simps)

text \<open>One operation: it succeeds, keeps the invariant, and extends the stream by what was accepted.\<close>

lemma conn_functor_step:
  assumes inv: "conn_inv ctl interest w" and pre: "conn_pre (RunFunctor, io) w"
  shows "\<exists>w'. conn_exec ctl (RunFunctor, io) w = Inr w' \<and> conn_inv ctl interest w' \<and>
    stream_of w' = stream_of w @ accepted (RunFunctor, io) w"
proof (cases "pending w")
  case Nil
  then show ?thesis using inv by simp
next
  case (Cons f fs)
  note D = conn_invD [OF inv]
  have inv1: "conn_inv ctl interest (w\<lparr>pending := fs\<rparr>)"
    using D Cons by (intro conn_invI) auto
  have same: "stream_of (w\<lparr>pending := fs\<rparr>) = stream_of w" by (simp add: stream_of_def)
  show ?thesis
  proof (cases f)
    case (SendInLoopFn data)
    then have "send_pre io data (w\<lparr>pending := fs\<rparr>)" using pre Cons by (simp add: send_pre_def)
    then show ?thesis using sendInLoop_ok [OF inv1] SendInLoopFn Cons same by auto
  next
    case ShutdownInLoopFn
    then have "state (cn w) \<noteq> kConnected" using D(9) Cons by simp
    then show ?thesis
      using conn_shutdownInLoop_inv [OF inv1] ShutdownInLoopFn Cons same by auto
  qed (use inv1 same Cons in \<open>auto simp: conn_calls_def conn_inv_def stream_of_def\<close>)
qed

lemma conn_step:
  assumes inv: "conn_inv ctl interest w" and pre: "conn_pre s w"
  shows "\<exists>w'. conn_exec ctl s w = Inr w' \<and> conn_inv ctl interest w' \<and>
    stream_of w' = stream_of w @ accepted s w"
proof -
  note D = conn_invD [OF inv]
  obtain oper io where s: "s = (oper, io)" by (cases s)
  show ?thesis
  proof (cases oper)
    case (UserSend inLoop data)
    have "conn_inv ctl interest (conn_queue (SendInLoopFn data) w)"
      using D by (intro conn_invI) (auto simp: conn_queue_def)
    moreover have "stream_of (conn_queue (SendInLoopFn data) w) = stream_of w"
      by (simp add: stream_of_def conn_queue_def)
    ultimately show ?thesis
      using sendInLoop_ok [OF inv, of io data] inv pre s UserSend
      by (cases inLoop; cases "state (cn w) = kConnected") (auto simp: conn_send_def)
  next
    case (UserShutdown inLoop)
    have inv1: "conn_inv ctl interest (setState kDisconnecting w)" if "state (cn w) = kConnected"
      using D that by (intro conn_invI) (auto simp: setState_def)
    have "conn_inv ctl interest (conn_queue ShutdownInLoopFn (setState kDisconnecting w))"
      if "state (cn w) = kConnected"
      using D that by (intro conn_invI) (auto simp: conn_simps)
    then show ?thesis
      using conn_shutdownInLoop_inv [OF inv1] inv s UserShutdown
      by (auto simp: conn_shutdown_def stream_of_def conn_simps Let_def)
  next
    case (UserRetrieve n)
    have "conn_inv ctl interest (set_cn (\<lambda>c. c\<lparr>inputBuffer := retrieve (inputBuffer c) n\<rparr>) w)"
      using D retrieve_ok(1) [OF D(3)] by (intro conn_invI) auto
    then show ?thesis using s UserRetrieve by (simp add: stream_of_def)
  next
    case (UserHighWaterMark cb mark)
    have "conn_inv ctl interest (set_cn (setHighWaterMarkCallback cb mark) w)"
      using D by (intro conn_invI) (auto simp: setHighWaterMarkCallback_def)
    then show ?thesis using s UserHighWaterMark by (simp add: stream_of_def setHighWaterMarkCallback_def)
  next
    case RunFunctor
    then show ?thesis using conn_functor_step [OF inv] pre s by blast
  next
    case (OnRead t)
    then show ?thesis
      using conn_handleRead_ok [OF inv, of "io_readv io" "io_sockopt io" t] pre s by auto
  next
    case OnWrite
    then show ?thesis using conn_handleWrite_ok [OF inv, of "io_write io"] pre s by auto
  next
    case OnClose
    then show ?thesis using handleClose_inv [OF inv] s by auto
  next
    case OnError
    have "conn_inv ctl interest (handleError (io_sockopt io) w)"
      using D by (intro conn_invI) (auto simp: handleError_def)
    then show ?thesis using s OnError by (simp add: stream_of_def handleError_def)
  qed
qed

text \<open>The connection is a machine that never fails; what is observed is its stream.\<close>

interpretation conn: op_machine "conn_exec ctl" conn_pre "conn_inv ctl interest" "{}" stream_of accepted
  for ctl :: "'k epoll_ctl" and interest
proof unfold_locales
  fix w :: "'k conn_env" and s
  assume "conn_inv ctl interest w" "conn_pre s w"
  from conn_step [OF this] show "ends {} (\<lambda>w'. conn_inv ctl interest w' \<and> stream_of w' = stream_of w @ accepted s w) (conn_exec ctl s w)"
    by auto
qed

lemma conn_machine:
  "conn_run ctl ss w = conn.run ctl ss w" "conn_pres ctl ss w = conn.pres ctl ss w" "accepted_all ctl ss w = conn.outs ctl ss w"
proof (induction ss arbitrary: w)
  case (Cons s ss)
  case 1 show ?case using Cons by (cases "conn_exec ctl s w") simp_all
  case 2 show ?case using Cons by (cases "conn_exec ctl s w") simp_all
  case 3 show ?case using Cons by (cases "conn_exec ctl s w") simp_all
qed simp_all

lemma conn_run_ok:
  assumes "conn_inv ctl interest w" "conn_pres ctl ss w"
  shows "\<exists>w'. conn_run ctl ss w = Inr w' \<and> conn_inv ctl interest w' \<and> stream_of w' = stream_of w @ accepted_all ctl ss w"
  using conn.run_ok [OF assms(1), of ss] assms(2) unfolding conn_machine by (cases "conn.run ctl ss w") auto

text \<open>Only three operations close the write side, each with nothing left to write.\<close>

lemma shutdownInLoop_shut:
  "shut (shutdownInLoop w) \<Longrightarrow> \<not> shut w \<Longrightarrow> \<not> isWriting (channel_of (shutdownInLoop w))"
  by (auto simp: shutdownInLoop_def split: if_splits)

lemma shut_step:
  assumes inv: "conn_inv ctl interest w" and pre: "conn_pre s w" and run: "conn_exec ctl s w = Inr w'"
    and new: "\<not> shut w" "shut w'"
  shows "accepted s w = [] \<and> (\<not> isWriting (channel_of w') \<or> Buffer_content (outputBuffer (cn w')) = [])"
proof -
  obtain oper io where s: "s = (oper, io)" by (cases s)
  show ?thesis
  proof (cases oper)
    case (UserSend inLoop data)
    then have "shut w' = shut w"
      using run pre s sendInLoop_ok [OF inv, of io data]
      by (auto simp: conn_send_def conn_queue_def split: if_splits)
    then show ?thesis using new by simp
  next
    case (UserShutdown inLoop)
    then show ?thesis
      using run s new shutdownInLoop_shut [of "setState kDisconnecting w"]
      by (cases inLoop; cases "state (cn w) = kConnected") (auto simp: conn_shutdown_def conn_simps)
  next
    case RunFunctor
    show ?thesis
    proof (cases "pending w")
      case Nil
      then show ?thesis using run s RunFunctor new by simp
    next
      case (Cons f fs)
      have inv1: "conn_inv ctl interest (w\<lparr>pending := fs\<rparr>)"
        using conn_invD [OF inv] Cons by (intro conn_invI) auto
      show ?thesis
      proof (cases f)
        case (SendInLoopFn data)
        then have "send_pre io data (w\<lparr>pending := fs\<rparr>)"
          using pre Cons s RunFunctor by (simp add: send_pre_def)
        then have "shut w' = shut w"
          using sendInLoop_ok [OF inv1, of io data] run s RunFunctor Cons SendInLoopFn by auto
        then show ?thesis using new by simp
      qed (use run s RunFunctor Cons new shutdownInLoop_shut [of "w\<lparr>pending := fs\<rparr>"] in
          \<open>auto simp: conn_calls_def\<close>)
    qed
  next
    case (OnRead t)
    then show ?thesis
      using conn_handleRead_ok [OF inv, of "io_readv io" "io_sockopt io" t] run pre s new by auto
  next
    case OnWrite
    then show ?thesis using conn_handleWrite_ok [OF inv, of "io_write io"] run pre s new by auto
  next
    case OnClose
    then show ?thesis using handleClose_inv [OF inv] run s new by auto
  qed (use run s new in \<open>auto simp: handleError_def setHighWaterMarkCallback_def\<close>)
qed

text \<open>
  Draining: every \<open>handleWrite\<close> on a kernel that takes at least one byte shortens the output buffer.
\<close>

definition makes_progress :: "conn_io \<Rightarrow> bool" where
  "makes_progress io \<longleftrightarrow> write_spec (io_write io) \<and> (\<forall>xs. xs \<noteq> [] \<longrightarrow> (\<exists>n>0. io_write io xs = Inr n))"

lemma handleWrite_progress:
  assumes "conn_inv ctl interest w" "state (cn w) = kDisconnecting" "makes_progress io"
    and "Buffer_content (outputBuffer (cn w)) \<noteq> []"
  shows "\<exists>w'. conn_exec ctl (OnWrite, io) w = Inr w' \<and> conn_inv ctl interest w' \<and>
    stream_of w' = stream_of w \<and> state (cn w') = kDisconnecting \<and>
    length (Buffer_content (outputBuffer (cn w'))) < length (Buffer_content (outputBuffer (cn w))) \<and>
    (Buffer_content (outputBuffer (cn w')) = [] \<longrightarrow> shut w')"
proof -
  have "isWriting (channel_of w)" using conn_invD(7) [OF assms(1)] assms(2,4) by simp
  moreover obtain n where "io_write io (Buffer_content (outputBuffer (cn w))) = Inr n" "n > 0"
    using assms(3,4) by (auto simp: makes_progress_def)
  moreover have "write_spec (io_write io)" using assms(3) by (simp add: makes_progress_def)
  moreover obtain w' where "conn_handleWrite ctl (io_write io) w = Inr w' \<and> conn_inv ctl interest w' \<and>
    stream_of w' = stream_of w \<and> cn w' = (cn w)\<lparr>outputBuffer := outputBuffer (cn w')\<rparr> \<and>
    (isWriting (channel_of w) \<longrightarrow>
      Buffer_content (outputBuffer (cn w')) =
        drop (case io_write io (Buffer_content (outputBuffer (cn w))) of Inl _ \<Rightarrow> 0 | Inr n \<Rightarrow> n)
          (Buffer_content (outputBuffer (cn w))) \<and>
      (Buffer_content (outputBuffer (cn w')) = [] \<and> state (cn w) = kDisconnecting \<longrightarrow> shut w'))"
    using conn_handleWrite_ok [OF assms(1) \<open>write_spec (io_write io)\<close>] by blast
  moreover have "state (cn w') = state (cn w)" if "cn w' = (cn w)\<lparr>outputBuffer := outputBuffer (cn w')\<rparr>"
    for w' :: "'a conn_env"
    using arg_cong [OF that, of state] by simp
  ultimately show ?thesis using assms(2,4) by auto
qed

lemma drain:
  "conn_inv ctl interest w \<Longrightarrow> state (cn w) = kDisconnecting \<Longrightarrow> list_all makes_progress ios \<Longrightarrow>
    length (Buffer_content (outputBuffer (cn w))) \<le> length ios \<Longrightarrow>
    Buffer_content (outputBuffer (cn w)) = [] \<longrightarrow> shut w \<Longrightarrow>
    \<exists>w'. conn_run ctl (map (\<lambda>io. (OnWrite, io)) ios) w = Inr w' \<and> stream_of w' = stream_of w \<and>
      Buffer_content (outputBuffer (cn w')) = [] \<and> shut w'"
proof (induction ios arbitrary: w)
  case Nil
  then show ?case by simp
next
  case (Cons io ios)
  show ?case
  proof (cases "Buffer_content (outputBuffer (cn w)) = []")
    case True
    then have "\<not> isWriting (channel_of w)" using conn_invD(7) [OF Cons.prems(1)] Cons.prems(2) by simp
    then have "conn_exec ctl (OnWrite, io) w = Inr w" by (simp add: conn_handleWrite_def)
    then show ?thesis using Cons.IH [OF Cons.prems(1,2)] Cons.prems(3,5) True by auto
  next
    case False
    obtain w1 where w1: "conn_exec ctl (OnWrite, io) w = Inr w1" "conn_inv ctl interest w1"
        "stream_of w1 = stream_of w" "state (cn w1) = kDisconnecting"
        "length (Buffer_content (outputBuffer (cn w1))) < length (Buffer_content (outputBuffer (cn w)))"
        "Buffer_content (outputBuffer (cn w1)) = [] \<longrightarrow> shut w1"
      using handleWrite_progress [OF Cons.prems(1,2) _ False, of io] Cons.prems(3) by auto
    then show ?thesis using Cons.IH [OF w1(2,4)] Cons.prems(3,4) by auto
  qed
qed

subsection \<open>Establishing and destroying\<close>

definition conn_fresh :: "'k epoll_ctl \<Rightarrow> ('k \<Rightarrow> int \<rightharpoonup> events \<times> channel_id) \<Rightarrow> 'k conn_env \<Rightarrow> bool" where
  "conn_fresh ctl interest w \<longleftrightarrow>
     poller_ready ctl interest (poller w) \<and> channels (poller w) (ch_fd (channel_of w)) = None \<and>
     ch_events (channel_of w) = kNoneEvent \<and> Buffer_inv (inputBuffer (cn w)) \<and>
     Buffer_inv (outputBuffer (cn w)) \<and> Buffer_content (outputBuffer (cn w)) = [] \<and>
     wire w = [] \<and> pending w = [] \<and> \<not> shut w"

text \<open>Tying a channel does not concern the poller.\<close>

lemma tie_ready:
  assumes "poller_ready ctl interest p"
  shows "poller_ready ctl interest (set_chan c Channel_tie p)"
  using assms
  by (auto simp: poller_ready_def poller_inv_def set_chan_def Channel_tie_def)

lemma revents_ready:
  assumes "poller_ready ctl interest p"
  shows "poller_ready ctl interest (set_chan c (\<lambda>h. h\<lparr>ch_revents := ev\<rparr>) p)"
  using assms by (auto simp: poller_ready_def poller_inv_def set_chan_def)

lemma connectionEstablished_ok:
  assumes fresh: "conn_fresh ctl interest w"
  shows "\<exists>w'. connectionEstablished ctl w = Inr w' \<and> conn_inv ctl interest w' \<and> stream_of w' = [] \<and>
    state (cn w') = kConnected \<and> pending w' = [] \<and> ch_events (channel_of w') = kReadEvent \<and>
    ch_tied (channel_of w') \<and> calls w' = calls w @ [ConnectionCall kConnected]"
proof -
  let ?c = "tc_channel (cn w)"
  let ?p = "set_chan ?c Channel_tie (poller w)"
  let ?w2 = "w\<lparr>cn := (cn w)\<lparr>state := kConnected\<rparr>, poller := ?p\<rparr>"
  have "poller_ready ctl interest ?p" using fresh by (intro tie_ready) (simp add: conn_fresh_def)
  moreover have "may_update ?p ?c"
    using fresh by (auto simp: may_update_def conn_fresh_def set_chan_def Channel_tie_def)
  ultimately obtain p i where p: "set_interest ctl EnableReading ?c ?p = Inr p" "poller_ready ctl interest p"
      "i \<noteq> kNew" "chan p = (chan ?p)(?c := (chan ?p ?c)\<lparr>ch_events :=
        interest_mask EnableReading (ch_events (chan ?p ?c)), ch_index := i\<rparr>)"
    using epoll.set_ok by blast
  have ev: "ch_events (chan p ?c) = kReadEvent" "ch_tied (chan p ?c)" "ch_index (chan p ?c) \<noteq> kNew"
    using fresh p(3,4)
    by (auto simp: conn_fresh_def set_chan_def Channel_tie_def interest_mask.simps kNoneEvent_def)
  let ?w4 = "?w2\<lparr>poller := p, calls := calls w @ [ConnectionCall kConnected]\<rparr>"
  have "connectionEstablished ctl w = Inr ?w4"
    using p(1) by (simp add: connectionEstablished_def conn_interest_def conn_simps Let_def)
  moreover have "conn_inv ctl interest ?w4"
    using fresh p(2) ev
    by (intro conn_invI) (auto simp: conn_fresh_def isWriting_def event_bits)
  ultimately show ?thesis using fresh ev by (auto simp: conn_fresh_def stream_of_def)
qed

lemma connectionDestoryed_closed:
  assumes inv: "conn_inv ctl interest w" and down: "state (cn w) \<noteq> kConnected"
  shows "\<exists>w'. connectionDestoryed ctl w = Inr w' \<and> calls w' = calls w \<and> cn w' = cn w \<and>
    interest (kernel (poller w')) (ch_fd (channel_of w)) = None \<and>
    channels (poller w') (ch_fd (channel_of w)) = None \<and> ch_index (channel_of w') = kNew"
proof -
  note D = conn_invD [OF inv]
  obtain p where "removeChannel ctl (tc_channel (cn w)) (poller w) = Inr p"
      "interest (kernel p) (ch_fd (channel_of w)) = None" "channels p (ch_fd (channel_of w)) = None"
      "ch_index (chan p (tc_channel (cn w))) = kNew"
    using removeChannel_ok [OF _ _ D(2), of ctl interest] D(1) by (auto simp: poller_ready_def)
  then show ?thesis using down by (simp add: connectionDestoryed_def)
qed

subsection \<open>A sample connection\<close>

text \<open>Descriptor 7 on a kernel that takes three bytes of every write, with small buffers.\<close>

definition sample_env :: "(int \<rightharpoonup> events \<times> channel_id) conn_env" where
  "sample_env =
     \<lparr>cn = (TcpConnection_new ''conn'' 7 7 sample_addr sample_addr)\<lparr>inputBuffer := Buffer_new 4, outputBuffer := Buffer_new 4\<rparr>,
      poller = EPollPoller_new Map.empty (\<lambda>c. TcpConnection_channel (int c)),
      pending = [], calls = [], wire = [], shut = False, so_errors = []\<rparr>"

definition sample_io :: conn_io where
  "sample_io = \<lparr>io_readv = \<lambda>_. Inr [], io_write = \<lambda>xs. Inr (min 3 (length xs)), io_errno = 0, io_sockopt = Inr 0\<rparr>"

lemma sample_fresh: "conn_fresh map_ctl (\<lambda>k. k) sample_env"
  using map_ctl_spec map_ctl_total Buffer_new_ok [of 4]
  by (auto simp: conn_fresh_def sample_env_def poller_ready_def poller_inv_def EPollPoller_new_def
      TcpConnection_new_def TcpConnection_channel_def Channel_new_def index_defs kNoneEvent_def max_size_def)

lemma sample_io_spec: "write_spec (io_write sample_io)" "readv_spec (io_readv sample_io)"
  by (auto simp: sample_io_def write_spec_def readv_spec_def)

lemma sample_established:
  obtains w where "connectionEstablished map_ctl sample_env = Inr w" "conn_inv map_ctl (\<lambda>k. k) w"
    "stream_of w = []" "state (cn w) = kConnected" "pending w = []"
  using connectionEstablished_ok [OF sample_fresh] by blast

lemma sample_channel:
  assumes "connectionEstablished map_ctl sample_env = Inr w"
  shows "has_readCallback (channel_of w)" "inputBuffer (cn w) = Buffer_new 4"
  using assms
  by (auto simp: connectionEstablished_def conn_interest_def conn_simps sample_env_def TcpConnection_new_def
      set_interest_def updateChannel_def epoll_update_def set_chan_def EPollPoller_new_def
      TcpConnection_channel_def Channel_new_def Channel_tie_def index_defs map_ctl_def rbind_eq_Inr)

lemma sample_send_pre:
  assumes "stream_of w = []" "length data < 100"
  shows "send_pre sample_io data w"
  using assms sample_io_spec
  by (auto simp: send_pre_def stream_of_def Buffer_room_def kCheapPrepend_def max_size_def)

lemma sample_taken:
  assumes "data \<noteq> []" "state (cn w) = kConnected"
  shows "taken sample_io data w = data"
  using assms by (auto simp: taken_def send_fault_def sample_io_def)

section \<open>Properties\<close>

text \<open>C1: the connection is a faithful byte stream. From a new connection, after \<open>connectionEstablished\<close>
  any sequence of sends (from the loop thread or another), reads, writes, errors, closes, shutdowns and
  functors succeeds, whatever partial writes the kernel makes: the bytes the kernel has accepted followed
  by the bytes in the output buffer are exactly the accepted messages in order, and while the connection
  is up the channel waits for \<open>EPOLLOUT\<close> exactly when the output buffer is not empty.\<close>

theorem TcpConnection_stream:
  assumes "conn_fresh ctl interest w0" "connectionEstablished ctl w0 = Inr w" "conn_pres ctl ss w"
  shows "\<exists>w'. conn_run ctl ss w = Inr w' \<and>
    wire w' @ Buffer_content (outputBuffer (cn w')) = accepted_all ctl ss w \<and>
    (state (cn w') \<noteq> kDisconnected \<longrightarrow>
      isWriting (channel_of w') = (Buffer_content (outputBuffer (cn w')) \<noteq> []))"
proof -
  have "conn_inv ctl interest w" "stream_of w = []"
    using connectionEstablished_ok [OF assms(1)] assms(2) by auto
  then obtain w' where "conn_run ctl ss w = Inr w'" "conn_inv ctl interest w'"
      "stream_of w' = accepted_all ctl ss w"
    using conn_run_ok [OF _ assms(3)] by fastforce
  then show ?thesis using conn_invD(7) by (fastforce simp: stream_of_def)
qed

theorem TcpConnection_stream_witness:
  "\<exists>w w'. connectionEstablished map_ctl sample_env = Inr w \<and>
    conn_run map_ctl [(UserSend True ''hello'', sample_io), (OnWrite, sample_io)] w = Inr w' \<and>
    wire w' @ Buffer_content (outputBuffer (cn w')) = ''hello''"
proof -
  obtain w where w: "connectionEstablished map_ctl sample_env = Inr w" "stream_of w = []"
      "state (cn w) = kConnected"
    by (rule sample_established)
  let ?ss = "[(UserSend True ''hello'', sample_io), (OnWrite, sample_io)]"
  have "conn_pres map_ctl ?ss w"
    using sample_send_pre [OF w(2), of "''hello''"] sample_io_spec by (simp split: sum.splits)
  moreover have "accepted_all map_ctl ?ss w = ''hello''"
    using w(3) sample_taken [of "''hello''" w] by (simp split: sum.splits)
  ultimately show ?thesis
    using TcpConnection_stream [OF sample_fresh w(1), of ?ss] w(1) by auto
qed

text \<open>C18: a shutdown never truncates the stream. The write side is closed only when the output buffer
  is empty, that is when the kernel has every byte accepted so far, or when the connection is already
  down.\<close>

theorem shutdown_after_flush:
  assumes "conn_inv ctl interest w" "conn_pre s w" "conn_exec ctl s w = Inr w'" "\<not> shut w" "shut w'"
  shows "state (cn w') \<noteq> kConnected \<and>
    (state (cn w') \<noteq> kDisconnected \<longrightarrow> wire w' = wire w @ Buffer_content (outputBuffer (cn w)) \<and>
      Buffer_content (outputBuffer (cn w')) = [] \<and> accepted s w = [])"
proof -
  have inv': "conn_inv ctl interest w'" and st: "stream_of w' = stream_of w @ accepted s w"
    using conn_step [OF assms(1,2)] assms(3) by auto
  note D' = conn_invD [OF inv']
  have "(state (cn w') \<noteq> kDisconnected \<longrightarrow> Buffer_content (outputBuffer (cn w')) = []) \<and> accepted s w = []"
    using shut_step [OF assms] D'(7) by auto
  then show ?thesis using D'(8) [OF assms(5)] st by (auto simp: stream_of_def)
qed

theorem shutdown_after_flush_witness:
  "\<exists>w w'. connectionEstablished map_ctl sample_env = Inr w \<and>
    conn_exec map_ctl (UserShutdown True, sample_io) w = Inr w' \<and> shut w' \<and>
    Buffer_content (outputBuffer (cn w')) = [] \<and> state (cn w') = kDisconnecting"
proof -
  obtain w where w: "connectionEstablished map_ctl sample_env = Inr w" "conn_inv map_ctl (\<lambda>k. k) w"
      "stream_of w = []" "state (cn w) = kConnected"
    by (rule sample_established)
  let ?w' = "conn_shutdown True w"
  have "\<not> isWriting (channel_of w)" "\<not> shut w"
    using conn_invD(7,8) [OF w(2)] w(3,4) by (auto simp: stream_of_def)
  then have "shut ?w'" "state (cn ?w') = kDisconnecting"
    using w(4) by (auto simp: conn_shutdown_def shutdownInLoop_def setState_def)
  with shutdown_after_flush [OF w(2), of "(UserShutdown True, sample_io)" ?w'] w(1) \<open>\<not> shut w\<close>
  show ?thesis by auto
qed

text \<open>C17: a shutdown with bytes still waiting takes effect. Once the kernel takes at least one byte per
  call, at most as many runs of \<open>handleWrite\<close> as bytes wait put every accepted byte on the wire, empty the
  output buffer and close the write side.\<close>

theorem shutdown_drains:
  assumes "conn_inv ctl interest w" "state (cn w) = kConnected"
    and "Buffer_content (outputBuffer (cn w)) \<noteq> []" "list_all makes_progress ios"
    and "length (Buffer_content (outputBuffer (cn w))) \<le> length ios"
  shows "\<exists>w'. conn_run ctl (map (\<lambda>io. (OnWrite, io)) ios) (conn_shutdown True w) = Inr w' \<and>
    wire w' = wire w @ Buffer_content (outputBuffer (cn w)) \<and>
    Buffer_content (outputBuffer (cn w')) = [] \<and> shut w'"
proof -
  let ?w1 = "conn_shutdown True w"
  have writing: "isWriting (channel_of w)" using conn_invD(7) [OF assms(1)] assms(2,3) by simp
  then have w1: "state (cn ?w1) = kDisconnecting" "outputBuffer (cn ?w1) = outputBuffer (cn w)"
      "stream_of ?w1 = stream_of w"
    using assms(2) by (auto simp: conn_shutdown_def setState_def shutdownInLoop_def stream_of_def)
  have "conn_inv ctl interest ?w1"
    using conn_step [OF assms(1), of "(UserShutdown True, undefined)"] by simp
  from drain [OF this w1(1) assms(4)] show ?thesis
    using assms(3,5) w1 by (auto simp: stream_of_def)
qed

theorem shutdown_drains_witness:
  "\<exists>w w1 w'. connectionEstablished map_ctl sample_env = Inr w \<and>
    conn_exec map_ctl (UserSend True ''hello'', sample_io) w = Inr w1 \<and>
    conn_run map_ctl (map (\<lambda>io. (OnWrite, io)) (replicate 5 sample_io)) (conn_shutdown True w1) = Inr w' \<and>
    wire w' = ''hello'' \<and> shut w'"
proof -
  obtain w where w: "connectionEstablished map_ctl sample_env = Inr w" "conn_inv map_ctl (\<lambda>k. k) w"
      "stream_of w = []" "state (cn w) = kConnected"
    by (rule sample_established)
  obtain w1 where w1: "sendInLoop map_ctl (io_write sample_io) (io_errno sample_io) ''hello'' w = Inr w1"
      "conn_inv map_ctl (\<lambda>k. k) w1" "stream_of w1 = ''hello''" "state (cn w1) = kConnected" "wire w1 = ''hel''"
    using direct_write_iff [OF w(2)] sendInLoop_ok [OF w(2) sample_send_pre [OF w(3), of "''hello''"]] w(3,4)
      sample_taken [of "''hello''" w] by (auto simp: stream_of_def sample_io_def)
  have "Buffer_content (outputBuffer (cn w1)) \<noteq> []"
    using w1(3,5) by (simp add: stream_of_def)
  moreover have "list_all makes_progress (replicate 5 sample_io)"
    using sample_io_spec by (auto simp: makes_progress_def list_all_iff sample_io_def)
  moreover have "length (Buffer_content (outputBuffer (cn w1))) \<le> length (replicate 5 sample_io)"
    using arg_cong [OF w1(3), of length] by (simp add: stream_of_def)
  ultimately show ?thesis
    using shutdown_drains [OF w1(2,4), of "replicate 5 sample_io"] w(1,4) w1(1,3)
    by (auto simp: conn_send_def stream_of_def)
qed

text \<open>A closed connection leaves nothing behind. \<open>handleClose\<close> followed by \<open>connectionDestoryed\<close> always
  succeeds; the user is told once that the connection is down and the server once to remove it; the
  kernel no longer watches the descriptor and the poller no longer knows the channel.\<close>

lemma close_and_destroy:
  assumes "conn_inv ctl interest w"
  shows "\<exists>w1 w2. handleClose ctl w = Inr w1 \<and> connectionDestoryed ctl w1 = Inr w2 \<and>
    state (cn w2) = kDisconnected \<and> calls w2 = calls w @ [ConnectionCall kDisconnected, CloseCall] \<and>
    interest (kernel (poller w2)) (ch_fd (channel_of w1)) = None \<and>
    channels (poller w2) (ch_fd (channel_of w1)) = None \<and> ch_index (channel_of w2) = kNew"
proof -
  note D = conn_invD [OF assms]
  obtain w1 where w1: "handleClose ctl w = Inr w1" "conn_inv ctl interest w1" "state (cn w1) = kDisconnected"
    using handleClose_inv [OF assms] by blast
  have "calls w1 = calls w @ [ConnectionCall kDisconnected, CloseCall]"
    using handleClose_ok [OF D(1,2)] w1(1) by auto
  moreover obtain w2 where "connectionDestoryed ctl w1 = Inr w2" "calls w2 = calls w1" "cn w2 = cn w1"
      "interest (kernel (poller w2)) (ch_fd (channel_of w1)) = None"
      "channels (poller w2) (ch_fd (channel_of w1)) = None" "ch_index (channel_of w2) = kNew"
    using connectionDestoryed_closed [OF w1(2)] w1(3) by fastforce
  ultimately show ?thesis using w1(1,3) by (intro exI [of _ w1] exI [of _ w2]) simp
qed

text \<open>The high-water mark. A send that finds bytes waiting is buffered completely, and the high-water
  callback is queued, with the new length, exactly when this send lifts the output buffer to or over the
  mark.\<close>

lemma high_water_mark:
  assumes "conn_inv ctl interest w" "send_pre io data w" "data \<noteq> []"
    and "state (cn w) \<noteq> kDisconnected" "Buffer_content (outputBuffer (cn w)) \<noteq> []"
  shows "\<exists>w'. sendInLoop ctl (io_write io) (io_errno io) data w = Inr w' \<and> wire w' = wire w \<and>
    Buffer_content (outputBuffer (cn w')) = Buffer_content (outputBuffer (cn w)) @ data \<and>
    pending w' = pending w @
      (let old = length (Buffer_content (outputBuffer (cn w)))
       in if has_highWaterMark (cn w) \<and> old < highWaterMark (cn w) \<and> highWaterMark (cn w) \<le> old + length data
          then [HighWaterMarkFn (old + length data)] else [])"
proof -
  note D = conn_invD [OF assms(1)]
  have nd: "\<not> direct_write w" using direct_write_iff [OF assms(1,4)] assms(5) by simp
  have bounds: "length data < 2 ^ 62" "length (Buffer_content (outputBuffer (cn w))) < 2 ^ 61"
    using assms(2) by (auto simp: send_pre_def)
  have old: "readableBytes (outputBuffer (cn w)) = length (Buffer_content (outputBuffer (cn w)))"
    using Buffer_sizes(3) [OF D(4)] .
  have total: "sz_add (readableBytes (outputBuffer (cn w))) (length data) =
      length (Buffer_content (outputBuffer (cn w))) + length data"
    unfolding old using bounds by (intro sz_add_small) simp
  have remaining: "sz_sub (length data) 0 = length data" using bounds(1) by (simp add: sz_sub_small)
  have w: "isWriting (channel_of w)" using D(7) assms(4,5) by simp
  have run: "sendInLoop ctl (io_write io) (io_errno io) data w = send_rest ctl data w"
    using assms(3,4) nd remaining by (simp add: sendInLoop_def)
  obtain b where b: "Buffer_append (outputBuffer (cn w)) data = Inr b"
      "Buffer_content b = Buffer_content (outputBuffer (cn w)) @ data"
    using buf.push_ok [OF D(4), of data] assms(2) by (auto simp: send_pre_def)
  show ?thesis
    using run b w by (auto simp: send_rest_def total [unfolded old] old Let_def conn_queue_def)
qed

text \<open>C36: a message accepted before \<open>shutdown\<close> can be written after the write side is closed, and is lost then. Another
  thread sends while the connection is up, so the message is queued for the loop; the loop's thread shuts the
  connection down before it runs the functor, and since nothing is in the output buffer the write side is
  closed at once, with the message still queued. The functor then does give the whole message to \<open>write\<close>,
  because \<open>sendInLoop\<close> gives up only in state \<open>kDisconnected\<close>: whatever number of bytes a \<open>write\<close> would take there goes
  behind the end of the stream. When \<open>write\<close> answers \<open>EPIPE\<close>, as it does on a closed write side, the message is kept
  nowhere: it is not on the wire, not in the output buffer and not queued. (What the signal \<open>SIGPIPE\<close> does to the
  process is outside of the model.)\<close>

theorem queued_send_lost:
  assumes "conn_inv ctl interest w" "state (cn w) = kConnected" "Buffer_content (outputBuffer (cn w)) = []" "pending w = []"
    and "data \<noteq> []" "length data < 2 ^ 61"
  shows "\<exists>w1 w2. conn_exec ctl (UserSend False data, io) w = Inr w1 \<and> pending w1 = [SendInLoopFn data] \<and>
    conn_exec ctl (UserShutdown True, io) w1 = Inr w2 \<and> shut w2 \<and> pending w2 = [SendInLoopFn data] \<and> wire w2 = wire w \<and>
    (\<forall>io'. io_write io' data = Inr (length data) \<longrightarrow>
      (\<exists>w3. conn_exec ctl (RunFunctor, io') w2 = Inr w3 \<and> shut w3 \<and> wire w3 = wire w @ data)) \<and>
    (\<forall>io'. io_write io' data = Inl EPIPE \<longrightarrow>
      (\<exists>w3. conn_exec ctl (RunFunctor, io') w2 = Inr w3 \<and> wire w3 = wire w \<and>
        Buffer_content (outputBuffer (cn w3)) = [] \<and> pending w3 = []))"
proof -
  note D = conn_invD [OF assms(1)]
  have nw: "\<not> isWriting (channel_of w)" using D(7) assms(2,3) by simp
  let ?w1 = "w\<lparr>pending := [SendInLoopFn data]\<rparr>"
  let ?w2 = "?w1\<lparr>cn := (cn w)\<lparr>state := kDisconnecting\<rparr>, shut := True\<rparr>"
  let ?w3 = "?w2\<lparr>pending := []\<rparr>"
  have "conn_exec ctl (UserSend False data, io) w = Inr ?w1"
    using assms(2,4) by (simp add: conn_send_def conn_queue_def)
  moreover have "conn_exec ctl (UserShutdown True, io) ?w1 = Inr ?w2"
    using assms(2) nw by (cases w) (simp add: conn_shutdown_def shutdownInLoop_def setState_def)
  moreover have direct: "direct_write ?w3"
    using nw assms(3) Buffer_sizes(3) [OF D(4)] by (simp add: direct_write_def)
  have "conn_exec ctl (RunFunctor, io') ?w2 = Inr ?w3" if "io_write io' data = Inl EPIPE" for io'
    using that direct by (simp add: sendInLoop_def send_direct_def EPIPE_def EWOULDBLOCK_def)
  moreover have "\<exists>w3. conn_exec ctl (RunFunctor, io') ?w2 = Inr w3 \<and> shut w3 \<and> wire w3 = wire w @ data"
    if "io_write io' data = Inr (length data)" for io'
    using that direct assms(5,6)
    by (simp add: sendInLoop_def send_direct_def Let_def sz_sub_small conn_queue_def)
  ultimately show ?thesis using assms(3) by (intro exI [of _ ?w1] exI [of _ ?w2]) simp
qed

definition epipe_io :: conn_io where
  "epipe_io = sample_io\<lparr>io_write := \<lambda>_. Inl EPIPE\<rparr>"

theorem queued_send_lost_witness:
  "\<exists>w w1 w2 w3. connectionEstablished map_ctl sample_env = Inr w \<and>
    conn_exec map_ctl (UserSend False ''bye'', epipe_io) w = Inr w1 \<and> pending w1 = [SendInLoopFn ''bye''] \<and>
    conn_exec map_ctl (UserShutdown True, epipe_io) w1 = Inr w2 \<and> shut w2 \<and>
    conn_exec map_ctl (RunFunctor, epipe_io) w2 = Inr w3 \<and> stream_of w3 = [] \<and> pending w3 = []"
proof -
  obtain w where w: "connectionEstablished map_ctl sample_env = Inr w" "conn_inv map_ctl (\<lambda>k. k) w"
      "stream_of w = []" "state (cn w) = kConnected" "pending w = []"
    by (rule sample_established)
  have out: "Buffer_content (outputBuffer (cn w)) = []" "wire w = []" using w(3) by (auto simp: stream_of_def)
  have "io_write epipe_io ''bye'' = Inl EPIPE" by (simp add: epipe_io_def)
  with queued_send_lost [OF w(2,4) out(1) w(5), of "''bye''" epipe_io] w(1) out(2) show ?thesis
    by (fastforce simp: stream_of_def)
qed

text \<open>C25: the end of the peer's stream closes the connection exactly once, whatever else the kernel reports
  with it: for every event mask with \<open>EPOLLIN\<close>, also with hang-up, error or writability, a read of zero
  bytes leads to one pair of calls (down, close) and nothing is written afterwards. If the owner of the
  tied channel is gone, nothing is called at all.\<close>

theorem eof_closes_once:
  assumes "conn_inv ctl interest w" "readv_spec (io_readv io)"
    and "length (buffer (inputBuffer (cn w))) + 2 * extrabuf_size + kCheapPrepend \<le> max_size"
    and "io_readv io (readFd_vec (inputBuffer (cn w))) = Inr []"
    and "ch_tied (channel_of w)" "has_readCallback (channel_of w)"
    and "ch_revents (channel_of w) AND EPOLLIN \<noteq> 0"
  shows "\<exists>w'. conn_event ctl io alive t w = Inr w' \<and> wire w' = wire w \<and>
    (if alive then state (cn w') = kDisconnected \<and> calls w' = calls w @ [ConnectionCall kDisconnected, CloseCall]
     else w' = w)"
proof (cases alive)
  case False
  then show ?thesis using assms(5) by (simp add: conn_event_def handleEvent_def)
next
  case True
  define pre where "pre = (if ch_revents (channel_of w) AND EPOLLERR \<noteq> 0 \<and> has_errorCallback (channel_of w)
    then [ErrorCb] else [])"
  define post where "post = (if ch_revents (channel_of w) AND EPOLLOUT \<noteq> 0 \<and> has_writeCallback (channel_of w)
    then [WriteCb] else [])"
  have "ch_revents (channel_of w) AND (EPOLLIN OR EPOLLPRI) \<noteq> 0"
    using assms(7) by (rule mask_or)
  then have cbs: "handleEvent (channel_of w) alive t = pre @ ReadCb t # post"
    using True assms(6,7) by (simp add: handleEvent_def handleEventWithGuard_def pre_def post_def)
  obtain w1 where w1: "conn_callbacks ctl io pre w = Inr w1" "conn_inv ctl interest w1" "wire w1 = wire w"
      "calls w1 = calls w" "inputBuffer (cn w1) = inputBuffer (cn w)"
    using assms(1) handleError_inv [OF assms(1), of "io_sockopt io"] that
    by (cases "pre = []") (auto simp: pre_def handleError_def split: if_splits)
  obtain w2 where w2: "conn_callback ctl io (ReadCb t) w1 = Inr w2" "conn_inv ctl interest w2"
      "state (cn w2) = kDisconnected" "wire w2 = wire w1"
      "calls w2 = calls w1 @ [ConnectionCall kDisconnected, CloseCall]"
    using eof_read [OF w1(2) assms(2)] assms(3,4) w1(5) by fastforce
  have "conn_callbacks ctl io post w2 = Inr w2"
    using conn_invD(6) [OF w2(2,3)] by (simp add: post_def conn_handleWrite_def)
  then have "conn_event ctl io alive t w = Inr w2"
    using cbs w1(1) w2(1) by (simp add: conn_event_def conn_callbacks_append)
  with w1 w2 True show ?thesis by simp
qed

theorem eof_closes_once_witness:
  "\<exists>w w'. conn_event map_ctl sample_io True (Timestamp 5) w = Inr w' \<and> calls w' =
    [ConnectionCall kConnected, ConnectionCall kDisconnected, CloseCall] \<and> ch_revents (channel_of w) = 21"
proof -
  obtain w0 where w0: "connectionEstablished map_ctl sample_env = Inr w0" "conn_inv map_ctl (\<lambda>k. k) w0"
      "calls w0 = [ConnectionCall kConnected]" "ch_tied (channel_of w0)"
    using connectionEstablished_ok [OF sample_fresh] by (auto simp: sample_env_def)
  define w where "w = w0\<lparr>poller := set_chan (tc_channel (cn w0)) (\<lambda>h. h\<lparr>ch_revents := 21\<rparr>) (poller w0)\<rparr>"
  have "poller_ready map_ctl (\<lambda>k. k) (poller w)"
    using conn_invD(1) [OF w0(2)] by (simp add: w_def revents_ready)
  then have "conn_inv map_ctl (\<lambda>k. k) w"
    using conn_invD [OF w0(2)] by (intro conn_invI) (auto simp: w_def set_chan_def isWriting_def)
  moreover have "calls w = [ConnectionCall kConnected]" "ch_tied (channel_of w)"
      "has_readCallback (channel_of w)" "ch_revents (channel_of w) = 21" "inputBuffer (cn w) = Buffer_new 4"
    using w0(3,4) sample_channel [OF w0(1)] by (auto simp: w_def set_chan_def)
  ultimately have w: "conn_inv map_ctl (\<lambda>k. k) w" "calls w = [ConnectionCall kConnected]"
      "ch_tied (channel_of w)" "has_readCallback (channel_of w)" "ch_revents (channel_of w) = 21"
      "inputBuffer (cn w) = Buffer_new 4" by auto
  have "ch_revents (channel_of w) AND EPOLLIN \<noteq> 0" by (simp add: w(5) EPOLLIN_def)
  moreover have "length (buffer (inputBuffer (cn w))) + 2 * extrabuf_size + kCheapPrepend \<le> max_size"
    by (simp add: w(6) Buffer_new_def extrabuf_size_def kCheapPrepend_def max_size_def sz_add_def)
  ultimately show ?thesis
    using eof_closes_once [OF w(1) sample_io_spec(2) _ _ w(3,4), of True "Timestamp 5"] w(2,5)
    by (auto simp: sample_io_def)
qed

end
