(* ===== verification/Net_Server.thy ===== *)
theory Net_Server
  imports Net_Acceptor
begin

text \<open>
  \<open>src/net/EventLoopThread\<close>, \<open>EventLoopThreadPool\<close> and \<open>TcpServer\<close>. Loops are numbers, connections are
  numbered in the order of their creation.
\<close>

section \<open>EventLoopThread\<close>

text \<open>
  The thread that runs a loop and the thread that waits for it. \<open>loop_ptr\<close> is \<open>loop_\<close>; the new thread
  creates its loop, publishes it under the mutex, runs it and withdraws it; \<open>startLoop\<close> waits until it
  is published.
\<close>

datatype thread_pc = Creating | Looping | Ended

record EventLoopThread =
  loop_ptr :: "nat option"
  exiting :: bool
  thread_at :: thread_pc
  started_loop :: "nat option"

definition EventLoopThread_new :: EventLoopThread where
  "EventLoopThread_new = \<lparr>loop_ptr = None, exiting = False, thread_at = Creating, started_loop = None\<rparr>"

inductive thread_step :: "nat \<Rightarrow> EventLoopThread \<Rightarrow> EventLoopThread \<Rightarrow> bool" for the_loop where
  publish: "thread_at t = Creating \<Longrightarrow> thread_step the_loop t (t\<lparr>loop_ptr := Some the_loop, thread_at := Looping\<rparr>)"
| withdraw: "thread_at t = Looping \<Longrightarrow> thread_step the_loop t (t\<lparr>loop_ptr := None, thread_at := Ended\<rparr>)"
| startLoop: "started_loop t = None \<Longrightarrow> loop_ptr t = Some l \<Longrightarrow> thread_step the_loop t (t\<lparr>started_loop := Some l\<rparr>)"

text \<open>The destructor: the loop that is asked to quit and joined, if one is published.\<close>

definition EventLoopThread_delete :: "EventLoopThread \<Rightarrow> EventLoopThread \<times> nat option" where
  "EventLoopThread_delete t = (t\<lparr>exiting := True\<rparr>, loop_ptr t)"

section \<open>EventLoopThreadPool\<close>

record EventLoopThreadPool =
  baseLoop :: nat
  elp_name :: string
  elp_started :: bool
  numThreads :: int
  next_idx :: nat
  elp_threads :: "string list"
  loops :: "nat list"

definition EventLoopThreadPool_new :: "nat \<Rightarrow> string \<Rightarrow> EventLoopThreadPool" where
  "EventLoopThreadPool_new base nm =
     \<lparr>baseLoop = base, elp_name = nm, elp_started = False, numThreads = 0, next_idx = 0, elp_threads = [], loops = []\<rparr>"

definition setThreadNum :: "int \<Rightarrow> EventLoopThreadPool \<Rightarrow> EventLoopThreadPool" where
  "setThreadNum n p = p\<lparr>numThreads := n\<rparr>"

text \<open>\<open>start\<close>: \<open>new_loop i\<close> is the loop that the \<open>i\<close>-th thread's \<open>startLoop\<close> returns. The second
  component says on which loops the init callback runs, when there is one.\<close>

definition elp_start :: "(nat \<Rightarrow> nat) \<Rightarrow> EventLoopThreadPool \<Rightarrow> EventLoopThreadPool \<times> nat list" where
  "elp_start new_loop p =
     (let idx = [0..<nat (numThreads p)]
      in (p\<lparr>elp_started := True,
            elp_threads := elp_threads p @
              map (\<lambda>i. snprintf_trunc (length (elp_name p) + 32) (elp_name p @ int_dec (int i))) idx,
            loops := loops p @ map new_loop idx\<rparr>,
          if numThreads p = 0 then [baseLoop p] else map new_loop idx))"

definition getNextLoop :: "EventLoopThreadPool \<Rightarrow> (nat \<times> EventLoopThreadPool) result" where
  "getNextLoop p =
     (if loops p \<noteq> []
      then rbind (read_range (loops p) (next_idx p) 1) (\<lambda>l.
             let n = next_idx p + 1
             in Inr (hd l, p\<lparr>next_idx := (if n \<ge> length (loops p) then 0 else n)\<rparr>))
      else Inr (baseLoop p, p))"

definition getAllLoops :: "EventLoopThreadPool \<Rightarrow> nat list" where
  "getAllLoops p = (if loops p = [] then [baseLoop p] else loops p)"

section \<open>TcpServer\<close>

text \<open>
  What the server knows of a connection: its name, its loop, its descriptor and its two addresses. The
  functors a server gives to the loops of its connections, and those it gives to its own loop.
\<close>

record conn_obj =
  co_name :: string
  co_loop :: nat
  co_fd :: int
  co_local :: sockaddr_in
  co_peer :: sockaddr_in

datatype io_functor = ConnectionEstablished nat | ConnectionDestroyed nat

datatype base_functor = AcceptorListen | RemoveConnectionInLoop nat

text \<open>
  \<open>connections\<close> maps names to connections; \<open>conn_objs\<close> holds every connection ever created. \<open>base_poller\<close> is
  the poller of the base loop, \<open>base_calls\<close> are the functors that loop has still to run, \<open>io_calls\<close> those
  handed to the loops of the connections so far. \<open>closed_fds\<close> are the descriptors the acceptor closed.
\<close>

record 'k TcpServer =
  srv_loop :: nat
  srv_ipPort :: string
  srv_name :: string
  srv_acceptor :: Acceptor
  srv_pool :: EventLoopThreadPool
  srv_started :: int
  nextConnId :: int
  connections :: "string \<rightharpoonup> nat"
  conn_objs :: "conn_obj list"
  base_poller :: "'k EPollPoller"
  base_calls :: "base_functor list"
  io_calls :: "(nat \<times> io_functor) list"
  closed_fds :: "int list"

datatype ServerOption = kNotReusePort | kReusePort

definition CheckLoopNotNull :: "nat option \<Rightarrow> nat result" where
  "CheckLoopNotNull loop =
     (case loop of None \<Rightarrow> Inl (Fatal ''TcpServer::TcpServer() requires a non-nullptr EventLoop'') | Some l \<Rightarrow> Inr l)"

text \<open>The constructor; \<open>socket_fd\<close>, \<open>null_fd\<close> and \<open>bind_answer\<close> are what the acceptor's system calls answer.\<close>

definition TcpServer_new ::
  "int \<Rightarrow> int \<Rightarrow> int \<Rightarrow> channel_id \<Rightarrow> 'k EPollPoller \<Rightarrow> nat option \<Rightarrow> sockaddr_in \<Rightarrow> string \<Rightarrow> ServerOption
    \<Rightarrow> 'k TcpServer result" where
  "TcpServer_new socket_fd null_fd bind_answer ch p loop listenAddr nm opt =
     rbind (CheckLoopNotNull loop) (\<lambda>base.
     rbind (toIpPort listenAddr) (\<lambda>ipPort.
     rbind (Acceptor_new socket_fd null_fd bind_answer ch listenAddr (opt = kReusePort) p) (\<lambda>(a, p1).
       Inr \<lparr>srv_loop = base, srv_ipPort = ipPort, srv_name = nm, srv_acceptor = a,
            srv_pool = EventLoopThreadPool_new base nm, srv_started = 0, nextConnId = 1,
            connections = Map.empty, conn_objs = [], base_poller = p1, base_calls = [], io_calls = [],
            closed_fds = []\<rparr>)))"

definition server_setThreadNum :: "int \<Rightarrow> 'k TcpServer \<Rightarrow> 'k TcpServer" where
  "server_setThreadNum n s = s\<lparr>srv_pool := setThreadNum n (srv_pool s)\<rparr>"

text \<open>\<open>start\<close> works once: the pool starts its loops, the base loop is told to listen.\<close>

definition TcpServer_start :: "(nat \<Rightarrow> nat) \<Rightarrow> 'k TcpServer \<Rightarrow> 'k TcpServer" where
  "TcpServer_start new_loop s =
     (let s1 = s\<lparr>srv_started := wrap32 (srv_started s + 1)\<rparr>
      in if srv_started s = 0
         then s1\<lparr>srv_pool := fst (elp_start new_loop (srv_pool s)), base_calls := base_calls s @ [AcceptorListen]\<rparr>
         else s1)"

text \<open>A signed increment beyond \<open>INT_MAX\<close> is undefined.\<close>

definition int32 :: "int \<Rightarrow> int result" where
  "int32 i = (if - (2 ^ 31) \<le> i \<and> i < 2 ^ 31 then Inr i else Inl Overflow)"

definition conn_suffix :: "string \<Rightarrow> int \<Rightarrow> string" where
  "conn_suffix ipPort i = snprintf_trunc 64 (''-'' @ ipPort @ ''#'' @ int_dec i)"

text \<open>
  \<open>newConnection\<close>: choose a loop, name the connection, keep it, hand it to its loop. \<open>local_addr\<close> is what
  \<open>getsockname\<close> stores.
\<close>

definition newConnection :: "sockaddr_in \<Rightarrow> int \<Rightarrow> sockaddr_in \<Rightarrow> 'k TcpServer \<Rightarrow> 'k TcpServer result" where
  "newConnection local_addr connfd peer s =
     rbind (getNextLoop (srv_pool s)) (\<lambda>(ioloop, pool').
     rbind (int32 (nextConnId s + 1)) (\<lambda>nxt.
       let connName = srv_name s @ conn_suffix (srv_ipPort s) (nextConnId s);
           c = length (conn_objs s)
       in Inr (s\<lparr>srv_pool := pool', nextConnId := nxt,
                connections := (connections s)(connName \<mapsto> c),
                conn_objs := conn_objs s @
                  [\<lparr>co_name = connName, co_loop = ioloop, co_fd = connfd, co_local = local_addr, co_peer = peer\<rparr>],
                io_calls := io_calls s @ [(ioloop, ConnectionEstablished c)]\<rparr>)))"

text \<open>The base loop finds the listening socket readable: the acceptor's callback is \<open>newConnection\<close>.\<close>

definition server_accept ::
  "int + (int \<times> sockaddr_in) \<Rightarrow> int \<Rightarrow> int \<Rightarrow> sockaddr_in \<Rightarrow> sockaddr_in \<Rightarrow> 'k TcpServer \<Rightarrow> 'k TcpServer result" where
  "server_accept answer accept_again null_fd dflt local_addr s =
     (let (new, closed, a) = acceptor_handleRead True answer accept_again null_fd dflt (srv_acceptor s);
          s1 = s\<lparr>srv_acceptor := a, closed_fds := closed_fds s @ closed\<rparr>
      in case new of None \<Rightarrow> Inr s1 | Some (connfd, peer) \<Rightarrow> newConnection local_addr connfd peer s1)"

text \<open>\<open>removeConnection\<close>, called from the loop of the connection, hands the removal to the base loop.\<close>

definition removeConnection :: "nat \<Rightarrow> 'k TcpServer \<Rightarrow> 'k TcpServer" where
  "removeConnection c s = s\<lparr>base_calls := base_calls s @ [RemoveConnectionInLoop c]\<rparr>"

definition removeConnectionInLoop :: "nat \<Rightarrow> 'k TcpServer \<Rightarrow> 'k TcpServer result" where
  "removeConnectionInLoop c s =
     rbind (read_range (conn_objs s) c 1) (\<lambda>co.
       Inr (s\<lparr>connections := (connections s)(co_name (hd co) := None),
              io_calls := io_calls s @ [(co_loop (hd co), ConnectionDestroyed c)]\<rparr>))"

text \<open>The base loop runs a functor of the server.\<close>

fun run_base :: "'k epoll_ctl \<Rightarrow> int \<Rightarrow> base_functor \<Rightarrow> 'k TcpServer \<Rightarrow> 'k TcpServer result" where
  "run_base ctl listen_answer AcceptorListen s =
     rbind (Acceptor_listen ctl listen_answer (srv_acceptor s) (base_poller s)) (\<lambda>(a, p).
       Inr (s\<lparr>srv_acceptor := a, base_poller := p\<rparr>))"
| "run_base ctl listen_answer (RemoveConnectionInLoop c) s = removeConnectionInLoop c s"

text \<open>
  The destructor destroys what is still connected, each connection in its loop, in the order of their
  numbers (the order of the hash table is not specified); then the acceptor.
\<close>

definition TcpServer_delete :: "'k epoll_ctl \<Rightarrow> 'k TcpServer \<Rightarrow> 'k TcpServer result" where
  "TcpServer_delete ctl s =
     (let s1 = s\<lparr>io_calls := io_calls s @
           map (\<lambda>c. (co_loop (conn_objs s ! c), ConnectionDestroyed c))
             (filter (\<lambda>c. connections s (co_name (conn_objs s ! c)) = Some c) [0..<length (conn_objs s)])\<rparr>
      in rbind (Acceptor_delete ctl (srv_acceptor s1) (base_poller s1)) (\<lambda>(closed, p).
           Inr (s1\<lparr>base_poller := p, closed_fds := closed_fds s1 @ closed\<rparr>)))"

section \<open>Choosing a loop\<close>

text \<open>
  The contract between the server and whoever chooses loops: there is a ring of loops and a position in
  it; a choice never fails, returns the loop at the position and moves the position by one.
\<close>

locale round_robin =
  fixes usable :: "'p \<Rightarrow> bool"
    and ring :: "'p \<Rightarrow> 'l list"
    and pos :: "'p \<Rightarrow> nat"
    and pick :: "'p \<Rightarrow> ('l \<times> 'p) result"
  assumes pos_ok: "usable p \<Longrightarrow> pos p < length (ring p)"
    and pick_ok: "usable p \<Longrightarrow> \<exists>p'. pick p = Inr (ring p ! pos p, p') \<and> usable p' \<and> ring p' = ring p \<and>
      pos p' = Suc (pos p) mod length (ring p)"
begin

fun picks :: "nat \<Rightarrow> 'p \<Rightarrow> ('l list \<times> 'p) result" where
  "picks 0 p = Inr ([], p)"
| "picks (Suc k) p = rbind (pick p) (\<lambda>(l, p1). rbind (picks k p1) (\<lambda>(ls, p2). Inr (l # ls, p2)))"

lemma picks_ok:
  "usable p \<Longrightarrow> \<exists>p'. picks k p = Inr (map (\<lambda>i. ring p ! ((pos p + i) mod length (ring p))) [0..<k], p') \<and>
    usable p' \<and> ring p' = ring p \<and> pos p' = (pos p + k) mod length (ring p)"
proof (induction k arbitrary: p)
  case 0
  then show ?case using pos_ok by simp
next
  case (Suc k)
  let ?n = "length (ring p)"
  obtain p1 where p1: "pick p = Inr (ring p ! pos p, p1)" "usable p1" "ring p1 = ring p" "pos p1 = Suc (pos p) mod ?n"
    using pick_ok [OF Suc.prems] by blast
  from Suc.IH [OF p1(2)] obtain p2 where "usable p2" "ring p2 = ring p" "pos p2 = (pos p + Suc k) mod ?n"
      "picks k p1 = Inr (map (\<lambda>i. ring p ! ((pos p + Suc i) mod ?n)) [0..<k], p2)"
    using p1(3,4) by (auto simp: mod_simps)
  then show ?case
    using p1(1) pos_ok [OF Suc.prems] by (simp add: upt_conv_Cons map_Suc_upt [symmetric] del: upt_Suc)
qed

end

definition elp_inv :: "EventLoopThreadPool \<Rightarrow> bool" where
  "elp_inv p \<longleftrightarrow> loops p = [] \<and> next_idx p = 0 \<or> next_idx p < length (loops p)"

lemma getNextLoop_ok:
  assumes "elp_inv p"
  shows "getNextLoop p =
    (if loops p = [] then Inr (baseLoop p, p)
     else Inr (loops p ! next_idx p, p\<lparr>next_idx := (next_idx p + 1) mod length (loops p)\<rparr>))"
proof (cases "loops p = []")
  case False
  then have "next_idx p < length (loops p)" using assms by (auto simp: elp_inv_def)
  moreover from this have "take 1 (drop (next_idx p) (loops p)) = [loops p ! next_idx p]"
    by (simp add: take_Suc_conv_app_nth hd_drop_conv_nth take_Suc)
  ultimately show ?thesis
    using False by (auto simp: getNextLoop_def read_range_def Let_def mod_Suc)
qed (simp add: getNextLoop_def)

interpretation elp: round_robin elp_inv getAllLoops next_idx getNextLoop
proof unfold_locales
  fix p assume inv: "elp_inv p"
  then show "next_idx p < length (getAllLoops p)" by (auto simp: elp_inv_def getAllLoops_def)
  show "\<exists>p'. getNextLoop p = Inr (getAllLoops p ! next_idx p, p') \<and> elp_inv p' \<and> getAllLoops p' = getAllLoops p \<and>
    next_idx p' = Suc (next_idx p) mod length (getAllLoops p)"
    using inv by (cases "loops p = []") (auto simp: getNextLoop_ok getAllLoops_def elp_inv_def)
qed

text \<open>Several calls of \<open>getNextLoop\<close> in a row.\<close>

fun next_loops :: "nat \<Rightarrow> EventLoopThreadPool \<Rightarrow> (nat list \<times> EventLoopThreadPool) result" where
  "next_loops 0 p = Inr ([], p)"
| "next_loops (Suc k) p =
     rbind (getNextLoop p) (\<lambda>(l, p1). rbind (next_loops k p1) (\<lambda>(ls, p2). Inr (l # ls, p2)))"

lemma next_loops_picks: "next_loops k p = elp.picks k p"
  by (induction k arbitrary: p) simp_all

lemma started_pool:
  assumes "loops p = []" "next_idx p = 0"
  shows "elp_inv (fst (elp_start new_loop p))" "next_idx (fst (elp_start new_loop p)) = 0"
    "getAllLoops (fst (elp_start new_loop p)) =
      (if numThreads p \<le> 0 then [baseLoop p] else map new_loop [0..<nat (numThreads p)])"
  using assms by (auto simp: elp_start_def elp_inv_def getAllLoops_def Let_def)

section \<open>Waiting for a loop\<close>

inductive thread_reach :: "nat \<Rightarrow> EventLoopThread \<Rightarrow> bool" for the_loop where
  thread_init: "thread_reach the_loop EventLoopThread_new"
| thread_next: "thread_reach the_loop t \<Longrightarrow> thread_step the_loop t t' \<Longrightarrow> thread_reach the_loop t'"

text \<open>\<open>startLoop\<close> never returns before the new thread has built its loop, and returns that loop.\<close>

lemma startLoop_returns_loop:
  assumes "thread_reach the_loop t"
  shows "(loop_ptr t \<noteq> None \<longrightarrow> loop_ptr t = Some the_loop) \<and>
    (started_loop t \<noteq> None \<longrightarrow> started_loop t = Some the_loop \<and> thread_at t \<noteq> Creating) \<and>
    (thread_at t = Looping \<longleftrightarrow> loop_ptr t \<noteq> None)"
  using assms
proof (induction rule: thread_reach.induct)
  case (thread_next t t')
  from thread_next(2,3) show ?case by (induction rule: thread_step.induct) auto
qed (simp add: EventLoopThread_new_def)

section \<open>Connections\<close>

text \<open>
  What happens to a server: its listening socket is readable and \<open>accept4\<close> answers; a connection reports
  that it is closed; the base loop runs the next functor.
\<close>

datatype server_op =
    AcceptEvent "int + (int \<times> sockaddr_in)" int int sockaddr_in sockaddr_in
  | Closed nat
  | RunBase int

fun server_exec :: "'k epoll_ctl \<Rightarrow> server_op \<Rightarrow> 'k TcpServer \<Rightarrow> 'k TcpServer result" where
  "server_exec ctl (AcceptEvent answer accept_again null_fd dflt local_addr) s =
     server_accept answer accept_again null_fd dflt local_addr s"
| "server_exec ctl (Closed c) s = Inr (if c < length (conn_objs s) then removeConnection c s else s)"
| "server_exec ctl (RunBase listen_answer) s =
     (case base_calls s of [] \<Rightarrow> Inr s | f # fs \<Rightarrow> run_base ctl listen_answer f (s\<lparr>base_calls := fs\<rparr>))"

fun server_run :: "'k epoll_ctl \<Rightarrow> server_op list \<Rightarrow> 'k TcpServer \<Rightarrow> 'k TcpServer result" where
  "server_run ctl [] s = Inr s"
| "server_run ctl (oper # opers) s = rbind (server_exec ctl oper s) (server_run ctl opers)"

text \<open>The descriptors and peers that \<open>accept4\<close> returned.\<close>

fun accepted_by :: "server_op \<Rightarrow> (int \<times> sockaddr_in) list" where
  "accepted_by (AcceptEvent (Inr (fd, peer)) _ _ _ _) = (if fd \<ge> 0 then [(fd, peer)] else [])"
| "accepted_by _ = []"

text \<open>The name and the loop of the connection with number \<open>c\<close>, and which connections have been removed.\<close>

definition name_of :: "'k TcpServer \<Rightarrow> nat \<Rightarrow> string" where
  "name_of s c = srv_name s @ conn_suffix (srv_ipPort s) (int c + 1)"

definition loop_of :: "'k TcpServer \<Rightarrow> nat \<Rightarrow> nat" where
  "loop_of s c = getAllLoops (srv_pool s) ! (c mod length (getAllLoops (srv_pool s)))"

definition removed :: "'k TcpServer \<Rightarrow> nat set" where
  "removed s = {c. \<exists>l. (l, ConnectionDestroyed c) \<in> set (io_calls s)}"

fun established :: "nat \<times> io_functor \<Rightarrow> bool" where
  "established (l, ConnectionEstablished c) = True"
| "established (l, ConnectionDestroyed c) = False"

definition server_inv :: "'k TcpServer \<Rightarrow> bool" where
  "server_inv s \<longleftrightarrow>
     length (srv_ipPort s) \<le> 21 \<and> elp_inv (srv_pool s) \<and> nextConnId s = int (length (conn_objs s)) + 1 \<and>
     nextConnId s < 2 ^ 31 \<and>
     next_idx (srv_pool s) = length (conn_objs s) mod length (getAllLoops (srv_pool s)) \<and>
     (\<forall>c < length (conn_objs s). co_name (conn_objs s ! c) = name_of s c \<and> co_loop (conn_objs s ! c) = loop_of s c) \<and>
     (\<forall>nm c. connections s nm = Some c \<longleftrightarrow> c < length (conn_objs s) \<and> nm = name_of s c \<and> c \<notin> removed s) \<and>
     removed s \<subseteq> {..<length (conn_objs s)} \<and>
     (\<forall>c. RemoveConnectionInLoop c \<in> set (base_calls s) \<longrightarrow> c < length (conn_objs s)) \<and>
     filter established (io_calls s) =
       map (\<lambda>c. (loop_of s c, ConnectionEstablished c)) [0..<length (conn_objs s)] \<and>
     (\<forall>l c. (l, ConnectionDestroyed c) \<in> set (io_calls s) \<longrightarrow> l = loop_of s c)"

lemma server_invD:
  assumes "server_inv s"
  shows "length (srv_ipPort s) \<le> 21" "elp_inv (srv_pool s)" "nextConnId s = int (length (conn_objs s)) + 1"
    "nextConnId s < 2 ^ 31" "next_idx (srv_pool s) = length (conn_objs s) mod length (getAllLoops (srv_pool s))"
    "c < length (conn_objs s) \<Longrightarrow> co_name (conn_objs s ! c) = name_of s c \<and> co_loop (conn_objs s ! c) = loop_of s c"
    "connections s nm = Some c \<longleftrightarrow> c < length (conn_objs s) \<and> nm = name_of s c \<and> c \<notin> removed s"
    "removed s \<subseteq> {..<length (conn_objs s)}"
    "RemoveConnectionInLoop c \<in> set (base_calls s) \<Longrightarrow> c < length (conn_objs s)"
    "filter established (io_calls s) = map (\<lambda>c. (loop_of s c, ConnectionEstablished c)) [0..<length (conn_objs s)]"
    "(l, ConnectionDestroyed c) \<in> set (io_calls s) \<Longrightarrow> l = loop_of s c"
  using assms by (auto simp: server_inv_def)

text \<open>What the invariant does not read can be changed.\<close>

lemma server_inv_cong:
  assumes "server_inv s" "srv_ipPort s' = srv_ipPort s" "srv_name s' = srv_name s" "srv_pool s' = srv_pool s"
    "nextConnId s' = nextConnId s" "connections s' = connections s" "conn_objs s' = conn_objs s"
    "io_calls s' = io_calls s"
    "\<And>c. RemoveConnectionInLoop c \<in> set (base_calls s') \<Longrightarrow> c < length (conn_objs s)"
  shows "server_inv s'"
proof -
  have "name_of s' = name_of s" "loop_of s' = loop_of s" "removed s' = removed s"
    using assms(2-8) by (simp_all add: name_of_def loop_of_def removed_def fun_eq_iff)
  then show ?thesis using assms unfolding server_inv_def by simp
qed

text \<open>No name is truncated, and no two numbers give the same name.\<close>

lemma conn_suffix_full:
  assumes "length ipPort \<le> 21" "- (2 ^ 31) \<le> i" "i < 2 ^ 31"
  shows "conn_suffix ipPort i = ''-'' @ ipPort @ ''#'' @ int_dec i"
proof -
  have "length (int_dec i) \<le> 11"
  proof -
    have "nat \<bar>i\<bar> < 10 ^ 10" using assms(2,3) by simp
    from length_nat_dec [OF this] show ?thesis by (auto simp: int_dec_def abs_if split: if_splits)
  qed
  then show ?thesis using assms(1) by (simp add: conn_suffix_def snprintf_trunc_def)
qed

lemma name_of_inject:
  assumes "length (srv_ipPort s) \<le> 21" "int c + 1 < 2 ^ 31" "int d + 1 < 2 ^ 31"
  shows "name_of s c = name_of s d \<longleftrightarrow> c = d"
  using assms by (auto simp: name_of_def conn_suffix_full int_dec_def)

text \<open>The server after the connection with the next number: \<open>co\<close> is its entry.\<close>

lemma new_entry_inv:
  assumes inv: "server_inv s" and lt: "nextConnId s + 1 < 2 ^ 31"
    and pool: "elp_inv p" "getAllLoops p = getAllLoops (srv_pool s)"
      "next_idx p = Suc (length (conn_objs s)) mod length (getAllLoops (srv_pool s))"
    and co: "co_name co = name_of s (length (conn_objs s))" "co_loop co = loop_of s (length (conn_objs s))"
  shows "server_inv (s\<lparr>srv_pool := p, nextConnId := nextConnId s + 1,
      connections := (connections s)(name_of s (length (conn_objs s)) \<mapsto> length (conn_objs s)),
      conn_objs := conn_objs s @ [co],
      io_calls := io_calls s @ [(loop_of s (length (conn_objs s)), ConnectionEstablished (length (conn_objs s)))]\<rparr>)"
    (is "server_inv ?s")
proof -
  let ?n = "length (conn_objs s)"
  have rem: "removed ?s = removed s" by (auto simp: removed_def)
  have name: "name_of ?s = name_of s" by (simp add: name_of_def fun_eq_iff)
  have loop: "loop_of ?s = loop_of s" using pool(2) by (simp add: loop_of_def fun_eq_iff)
  have new: "name_of s c = name_of s ?n \<longleftrightarrow> c = ?n" if "c \<le> ?n" for c
    using that lt server_invD(1,3) [OF inv] by (intro name_of_inject) auto
  have old: "?n \<notin> removed s" using server_invD(8) [OF inv] by auto
  have conns: "connections ?s nm = Some c \<longleftrightarrow> c < Suc ?n \<and> nm = name_of s c \<and> c \<notin> removed s" for nm c
  proof (cases "nm = name_of s ?n")
    case True
    then show ?thesis using new [of c] old by auto
  next
    case False
    then have "connections ?s nm = connections s nm" "nm = name_of s c \<Longrightarrow> c \<noteq> ?n" by auto
    then show ?thesis using server_invD(7) [OF inv, of nm c] by auto
  qed
  have objs: "co_name (conn_objs ?s ! c) = name_of s c \<and> co_loop (conn_objs ?s ! c) = loop_of s c" if "c < Suc ?n" for c
    using that server_invD(6) [OF inv, of c] co by (auto simp: nth_append less_Suc_eq)
  show ?thesis
    unfolding server_inv_def rem name loop
    using server_invD(1,3) [OF inv] server_invD(8-11) [OF inv] lt pool conns objs
    by (auto simp: less_Suc_eq)
qed

lemma newConnection_ok:
  assumes inv: "server_inv s"
  shows "ends {Overflow} (\<lambda>s'. server_inv s' \<and> (\<exists>co. conn_objs s' = conn_objs s @ [co] \<and> co_fd co = fd \<and> co_peer co = peer))
    (newConnection local_addr fd peer s)"
proof -
  let ?n = "length (conn_objs s)"
  obtain p where p: "getNextLoop (srv_pool s) = Inr (loop_of s ?n, p)" "elp_inv p"
      "getAllLoops p = getAllLoops (srv_pool s)" "next_idx p = Suc ?n mod length (getAllLoops (srv_pool s))"
    using elp.pick_ok [OF server_invD(2) [OF inv]] server_invD(5) [OF inv] by (auto simp: loop_of_def mod_Suc_eq)
  have name: "srv_name s @ conn_suffix (srv_ipPort s) (nextConnId s) = name_of s ?n"
    using server_invD(3) [OF inv] by (simp add: name_of_def add.commute)
  let ?co = "\<lparr>co_name = name_of s ?n, co_loop = loop_of s ?n, co_fd = fd, co_local = local_addr, co_peer = peer\<rparr>"
  show ?thesis
  proof (cases "nextConnId s + 1 < 2 ^ 31")
    case True
    then have "int32 (nextConnId s + 1) = Inr (nextConnId s + 1)"
      using server_invD(3) [OF inv] by (simp add: int32_def)
    with new_entry_inv [OF inv True p(2-4), of ?co] show ?thesis
      unfolding newConnection_def p(1) by (simp add: name Let_def)
  next
    case False
    then show ?thesis unfolding newConnection_def p(1) by (simp add: int32_def)
  qed
qed

lemma removeConnectionInLoop_ok:
  assumes inv: "server_inv s" and c: "c < length (conn_objs s)"
  shows "\<exists>s'. removeConnectionInLoop c s = Inr s' \<and> server_inv s' \<and> conn_objs s' = conn_objs s"
proof -
  have hd: "take 1 (drop c (conn_objs s)) = [conn_objs s ! c]"
    using c by (simp add: take_Suc hd_drop_conv_nth)
  let ?s = "s\<lparr>connections := (connections s)(name_of s c := None),
      io_calls := io_calls s @ [(loop_of s c, ConnectionDestroyed c)]\<rparr>"
  have run: "removeConnectionInLoop c s = Inr ?s"
    using c hd server_invD(6) [OF inv c] by (simp add: removeConnectionInLoop_def read_range_def)
  have rem: "removed ?s = insert c (removed s)" by (auto simp: removed_def)
  have name: "name_of ?s = name_of s" and loop: "loop_of ?s = loop_of s"
    by (simp_all add: name_of_def loop_of_def fun_eq_iff)
  have new: "name_of s d = name_of s c \<longleftrightarrow> d = c" if "d < length (conn_objs s)" for d
    using that c server_invD(1,3,4) [OF inv] by (intro name_of_inject) auto
  have conns: "connections ?s nm = Some d \<longleftrightarrow>
      d < length (conn_objs s) \<and> nm = name_of s d \<and> d \<notin> insert c (removed s)" for nm d
  proof (cases "nm = name_of s c")
    case True
    then show ?thesis using new [of d] by auto
  next
    case False
    then have "connections ?s nm = connections s nm" "nm = name_of s d \<Longrightarrow> d \<noteq> c" by auto
    then show ?thesis using server_invD(7) [OF inv, of nm d] by auto
  qed
  have "server_inv ?s"
    unfolding server_inv_def rem name loop
    using server_invD(1-6) [OF inv] server_invD(8-11) [OF inv] c conns by auto
  then show ?thesis using run by simp
qed

lemma Acceptor_listen_ends: "ends (range Fatal) (\<lambda>_. True) (Acceptor_listen ctl answer a p)"
  by (auto simp: Acceptor_listen_def Socket_listen_def set_interest_def updateChannel_def epoll_update_def ends_def
      rbind_def Let_def split: sum.splits option.splits)

lemma run_base_ok:
  assumes inv: "server_inv s" and f: "\<And>c. f = RemoveConnectionInLoop c \<Longrightarrow> c < length (conn_objs s)"
  shows "ends (range Fatal) (\<lambda>s'. server_inv s' \<and> conn_objs s' = conn_objs s) (run_base ctl answer f s)"
proof (cases f)
  case AcceptorListen
  have "server_inv (s\<lparr>srv_acceptor := a, base_poller := p\<rparr>)" for a p
    using server_invD(9) [OF inv] by (intro server_inv_cong [OF inv]) simp_all
  then show ?thesis
    unfolding AcceptorListen run_base.simps by (intro ends_rbind [OF Acceptor_listen_ends]) auto
next
  case (RemoveConnectionInLoop c)
  then show ?thesis using removeConnectionInLoop_ok [OF inv f [OF RemoveConnectionInLoop]] by auto
qed

text \<open>What the acceptor hands to the server is what \<open>accept4\<close> returned.\<close>

lemma handleRead_accepted:
  assumes "acceptor_handleRead True answer again null_fd dflt a = (new, closed, a')"
  shows "accepted_by (AcceptEvent answer again null_fd dflt local_addr) = (case new of None \<Rightarrow> [] | Some x \<Rightarrow> [x])"
proof (cases answer)
  case (Inr x)
  then show ?thesis using assms
    by (cases x) (auto simp: acceptor_handleRead_def Socket_accept_def Let_def split: if_splits)
qed (use assms in \<open>auto simp: acceptor_handleRead_def Socket_accept_def Let_def split: if_splits\<close>)

abbreviation conn_ends :: "'k TcpServer \<Rightarrow> (int \<times> sockaddr_in) list" where
  "conn_ends s \<equiv> map (\<lambda>co. (co_fd co, co_peer co)) (conn_objs s)"

lemma server_accept_ok:
  assumes inv: "server_inv s"
  shows "ends {Overflow} (\<lambda>s'. server_inv s' \<and>
      conn_ends s' = conn_ends s @ accepted_by (AcceptEvent answer again null_fd dflt local_addr))
    (server_accept answer again null_fd dflt local_addr s)"
proof -
  obtain new closed a where h: "acceptor_handleRead True answer again null_fd dflt (srv_acceptor s) = (new, closed, a)"
    by (cases "acceptor_handleRead True answer again null_fd dflt (srv_acceptor s)") auto
  let ?s = "s\<lparr>srv_acceptor := a, closed_fds := closed_fds s @ closed\<rparr>"
  have inv1: "server_inv ?s" using server_invD(9) [OF inv] by (intro server_inv_cong [OF inv]) simp_all
  show ?thesis
  proof (cases new)
    case None
    then show ?thesis using h inv1 handleRead_accepted [OF h] by (simp add: server_accept_def)
  next
    case (Some x)
    obtain fd peer where x: "x = (fd, peer)" by (cases x)
    have "server_accept answer again null_fd dflt local_addr s = newConnection local_addr fd peer ?s"
      using h Some x by (simp add: server_accept_def)
    then show ?thesis
      unfolding handleRead_accepted [OF h]
      using newConnection_ok [OF inv1, of fd peer local_addr] Some x by (auto elim!: ends_mono)
  qed
qed

lemma ends_more: "ends A P r \<Longrightarrow> A \<subseteq> B \<Longrightarrow> ends B P r"
  by (cases r) auto

lemma server_exec_ok:
  assumes inv: "server_inv s"
  shows "ends (insert Overflow (range Fatal)) (\<lambda>s'. server_inv s' \<and> conn_ends s' = conn_ends s @ accepted_by oper)
    (server_exec ctl oper s)"
proof (cases oper)
  case (AcceptEvent answer again null_fd dflt local_addr)
  then show ?thesis using ends_more [OF server_accept_ok [OF inv]] by auto
next
  case (Closed c)
  have "server_inv (removeConnection c s)" if "c < length (conn_objs s)"
    using server_invD(9) [OF inv] that unfolding removeConnection_def by (intro server_inv_cong [OF inv]) auto
  then show ?thesis using Closed inv by (simp add: removeConnection_def)
next
  case (RunBase answer)
  show ?thesis
  proof (cases "base_calls s")
    case Nil
    then show ?thesis using RunBase inv by simp
  next
    case (Cons f fs)
    have inv1: "server_inv (s\<lparr>base_calls := fs\<rparr>)"
      using server_invD(9) [OF inv] Cons by (intro server_inv_cong [OF inv]) auto
    have "f = RemoveConnectionInLoop c \<Longrightarrow> c < length (conn_objs (s\<lparr>base_calls := fs\<rparr>))" for c
      using server_invD(9) [OF inv] Cons by simp
    from run_base_ok [OF inv1 this] have "ends (insert Overflow (range Fatal))
        (\<lambda>s'. server_inv s' \<and> conn_objs s' = conn_objs (s\<lparr>base_calls := fs\<rparr>)) (run_base ctl answer f (s\<lparr>base_calls := fs\<rparr>))"
      by (rule ends_more) auto
    then show ?thesis unfolding RunBase by (auto simp: Cons elim!: ends_mono)
  qed
qed

text \<open>The server is a machine whose observable history is the accepted connections.\<close>

interpretation server: op_machine "server_exec ctl" "\<lambda>oper s. True" server_inv "insert Overflow (range Fatal)" conn_ends
    "\<lambda>oper s. accepted_by oper" for ctl :: "'k epoll_ctl"
  by unfold_locales (rule server_exec_ok)

lemma server_machine: "server_run ctl opers s = server.run ctl opers s" "server.pres ctl opers s"
proof (induction opers arbitrary: s)
  case (Cons oper opers)
  case 1 show ?case using Cons by (cases "server_exec ctl oper s") simp_all
  case 2 show ?case using Cons by (cases "server_exec ctl oper s") simp_all
qed simp_all

lemma server_outs: "server_run ctl opers s = Inr s' \<Longrightarrow> server.outs ctl opers s = concat (map accepted_by opers)"
proof (induction opers arbitrary: s)
  case (Cons oper opers)
  then show ?case by (cases "server_exec ctl oper s") simp_all
qed simp

lemma server_run_ok:
  fixes s :: "'k TcpServer"
  assumes "server_inv s"
  shows "ends (insert Overflow (range Fatal))
    (\<lambda>s'. server_inv s' \<and> conn_ends s' = conn_ends s @ concat (map accepted_by opers)) (server_run ctl opers s)"
proof -
  have "ends (insert Overflow (range Fatal)) (\<lambda>s'. server_inv s' \<and> conn_ends s' = conn_ends s @ server.outs ctl opers s)
      (server.run ctl opers s)"
    by (rule server.run_ok [OF assms server_machine(2)])
  then show ?thesis
    using server_outs [of ctl opers s] unfolding server_machine(1) by (cases "server.run ctl opers s") auto
qed

lemma started_inv:
  assumes "TcpServer_new socket_fd null_fd answer ch p loop addr nm opt = Inr s0"
  shows "server_inv (TcpServer_start new_loop (server_setThreadNum n s0))"
    "conn_objs (TcpServer_start new_loop (server_setThreadNum n s0)) = []"
proof -
  have s0: "length (srv_ipPort s0) \<le> 21" "loops (srv_pool s0) = []" "next_idx (srv_pool s0) = 0" "srv_started s0 = 0"
      "nextConnId s0 = 1" "connections s0 = Map.empty" "conn_objs s0 = []" "base_calls s0 = []" "io_calls s0 = []"
    using assms toIpPort_ok [of addr]
    by (auto simp: TcpServer_new_def rbind_eq_Inr EventLoopThreadPool_new_def split: prod.splits)
  let ?p = "setThreadNum n (srv_pool s0)"
  have "loops ?p = []" "next_idx ?p = 0" using s0 by (simp_all add: setThreadNum_def)
  from started_pool [OF this, of new_loop] s0
  show "server_inv (TcpServer_start new_loop (server_setThreadNum n s0))"
    "conn_objs (TcpServer_start new_loop (server_setThreadNum n s0)) = []"
    by (simp_all add: server_inv_def TcpServer_start_def server_setThreadNum_def removed_def Let_def)
qed

section \<open>Properties\<close>

text \<open>C6: the server's book of connections is exact. From a started server, whatever \<open>accept4\<close> answers, and however
  closed connections, repeated reports of it and the functors of the base loop interleave: the connections
  created are the accepted descriptors, in order; \<open>connections_\<close> holds exactly those not yet removed, each
  under its own name; connection \<open>c\<close> lives in loop \<open>c\<close> modulo their number, is established there exactly
  once and destroyed nowhere else. The only failures are fatal errors of the system and the overflow of the
  connection counter.\<close>

theorem TcpServer_connections:
  assumes "TcpServer_new socket_fd null_fd answer ch p loop addr nm opt = Inr s0"
  shows "case server_run ctl opers (TcpServer_start new_loop (server_setThreadNum n s0)) of
      Inl e \<Rightarrow> e = Overflow \<or> (\<exists>msg. e = Fatal msg)
    | Inr s \<Rightarrow>
        map (\<lambda>co. (co_fd co, co_peer co)) (conn_objs s) = concat (map accepted_by opers) \<and>
        (\<forall>name c. connections s name = Some c \<longleftrightarrow>
          c < length (conn_objs s) \<and> name = co_name (conn_objs s ! c) \<and> c \<notin> removed s) \<and>
        distinct (map co_name (conn_objs s)) \<and>
        filter established (io_calls s) = map (\<lambda>c. (loop_of s c, ConnectionEstablished c)) [0..<length (conn_objs s)] \<and>
        (\<forall>l c. (l, ConnectionDestroyed c) \<in> set (io_calls s) \<longrightarrow> l = loop_of s c \<and> c < length (conn_objs s))"
proof (cases "server_run ctl opers (TcpServer_start new_loop (server_setThreadNum n s0))")
  case (Inl e)
  then show ?thesis using server_run_ok [OF started_inv(1) [OF assms, of new_loop n], of opers ctl] by auto
next
  case (Inr s)
  have inv: "server_inv s" and ends: "conn_ends s = concat (map accepted_by opers)"
    using Inr server_run_ok [OF started_inv(1) [OF assms, of new_loop n], of opers ctl] started_inv(2) [OF assms] by auto
  have names: "co_name (conn_objs s ! c) = name_of s c" if "c < length (conn_objs s)" for c
    using server_invD(6) [OF inv that] by simp
  have "name_of s c = name_of s d \<longleftrightarrow> c = d" if "c < length (conn_objs s)" "d < length (conn_objs s)" for c d
    using server_invD(1,3,4) [OF inv] that by (intro name_of_inject) auto
  then have "distinct (map co_name (conn_objs s))" by (simp add: distinct_conv_nth names)
  moreover have "connections s name = Some c \<longleftrightarrow>
      c < length (conn_objs s) \<and> name = co_name (conn_objs s ! c) \<and> c \<notin> removed s" for name c
    using server_invD(7) [OF inv] names [of c] by auto
  moreover have "c < length (conn_objs s)" if "(l, ConnectionDestroyed c) \<in> set (io_calls s)" for l c
    using server_invD(8) [OF inv] that by (auto simp: removed_def)
  ultimately show ?thesis using Inr ends server_invD(10,11) [OF inv] by auto
qed

definition sample_base :: "(int \<rightharpoonup> events \<times> channel_id) EPollPoller" where
  "sample_base = EPollPoller_new Map.empty (\<lambda>c. Channel_new (int c + 100))"

definition sample_ops :: "server_op list" where
  "sample_ops = [RunBase 0, AcceptEvent (Inr (9, sample_addr)) 0 0 sample_addr sample_addr,
     AcceptEvent (Inl EMFILE) 10 4 sample_addr sample_addr,
     AcceptEvent (Inr (10, sample_addr)) 0 0 sample_addr sample_addr, Closed 0, RunBase 0]"

lemma sample_server_run:
  "\<exists>s0 s. TcpServer_new 3 4 0 0 sample_base (Some 0) sample_addr ''echo'' kNotReusePort = Inr s0 \<and>
    server_run map_ctl sample_ops (TcpServer_start (\<lambda>i. i + 1) (server_setThreadNum 0 s0)) = Inr s \<and>
    removed s = {0} \<and> closed_fds s = [4, 10]"
  by (simp add: TcpServer_new_def CheckLoopNotNull_def toIpPort_ok Acceptor_new_def bindAddress_def sample_ops_def
      server_setThreadNum_def setThreadNum_def TcpServer_start_def EventLoopThreadPool_new_def elp_start_def
      Acceptor_listen_def Socket_listen_def set_interest_def updateChannel_def epoll_update_def set_chan_def
      sample_base_def EPollPoller_new_def Channel_new_def map_ctl_def index_defs server_accept_def
      acceptor_handleRead_def Socket_accept_def newConnection_def getNextLoop_def int32_def EMFILE_def
      removeConnection_def removeConnectionInLoop_def read_range_def removed_def Let_def)

theorem TcpServer_connections_witness:
  "\<exists>s0 s. TcpServer_new 3 4 0 0 sample_base (Some 0) sample_addr ''echo'' kNotReusePort = Inr s0 \<and>
    server_run map_ctl sample_ops (TcpServer_start (\<lambda>i. i + 1) (server_setThreadNum 0 s0)) = Inr s \<and>
    map (\<lambda>co. (co_fd co, co_peer co)) (conn_objs s) = [(9, sample_addr), (10, sample_addr)] \<and>
    connections s (co_name (conn_objs s ! 1)) = Some 1 \<and> connections s (co_name (conn_objs s ! 0)) \<noteq> Some 0"
proof -
  from sample_server_run obtain s0 s where
      s0: "TcpServer_new 3 4 0 0 sample_base (Some 0) sample_addr ''echo'' kNotReusePort = Inr s0"
    and s: "server_run map_ctl sample_ops (TcpServer_start (\<lambda>i. i + 1) (server_setThreadNum 0 s0)) = Inr s" "removed s = {0}"
    by blast
  have conns: "map (\<lambda>co. (co_fd co, co_peer co)) (conn_objs s) = [(9, sample_addr), (10, sample_addr)]"
    and book: "connections s name = Some c \<longleftrightarrow> c < length (conn_objs s) \<and> name = co_name (conn_objs s ! c) \<and> c \<notin> removed s"
    for name c
    using TcpServer_connections [OF s0, where ctl = map_ctl and opers = sample_ops and new_loop = "\<lambda>i. i + 1" and n = 0] s(1) by (auto simp: sample_ops_def)
  have "length (conn_objs s) = 2" using arg_cong [OF conns, of length] by simp
  then show ?thesis using s0 s conns by (auto simp: book)
qed

text \<open>C30: round robin. On a pool with threads, the \<open>k\<close>-th call of \<open>getNextLoop\<close> returns loop \<open>k\<close> modulo their number,
  without ever leaving the vector; without threads every call returns the base loop.\<close>

theorem getNextLoop_round_robin:
  assumes "fst (elp_start new_loop (setThreadNum n (EventLoopThreadPool_new base nm))) = p"
  shows "\<exists>p'. next_loops k p = Inr
    (if n \<le> 0 then replicate k base else map (\<lambda>i. new_loop (i mod nat n)) [0..<k], p')"
proof -
  let ?p0 = "setThreadNum n (EventLoopThreadPool_new base nm)"
  have p0: "loops ?p0 = []" "next_idx ?p0 = 0" "numThreads ?p0 = n" "baseLoop ?p0 = base"
    by (simp_all add: setThreadNum_def EventLoopThreadPool_new_def)
  have p: "elp_inv p" "next_idx p = 0" "getAllLoops p = (if n \<le> 0 then [base] else map new_loop [0..<nat n])"
    using started_pool [OF p0(1,2), of new_loop] p0(3,4) assms by simp_all
  from elp.picks_ok [OF p(1), of k] show ?thesis
    unfolding next_loops_picks by (auto simp: p(2,3) map_replicate_const)
qed

theorem getNextLoop_round_robin_witness:
  "\<exists>p'. next_loops 5 (fst (elp_start (\<lambda>i. i + 10) (setThreadNum 3 (EventLoopThreadPool_new 0 ''pool'')))) =
    Inr ([10, 11, 12, 10, 11], p')"
  using getNextLoop_round_robin [OF refl, of 5 "\<lambda>i. i + 10" 3 0 "''pool''"]
  by (simp add: upt_rec)

end
