(* ===== verification/Net_System.thy ===== *)
theory Net_System
  imports Net_TcpConnection Net_Server
begin

text \<open>
  A server together with its loops and its connections: \<open>src/net/TcpServer\<close>, \<open>TcpConnection\<close>, \<open>EventLoop\<close>
  and \<open>Channel\<close> at work together. The connections share the pollers of their loops, the loops run queues of
  functors, and a connection exists as long as some \<open>shared_ptr\<close> refers to it. Using a connection that
  does not exist any more is the failure \<open>UseAfterFree\<close>. The theory shows which uses are safe.
\<close>

section \<open>State\<close>

text \<open>
  The functors in the queue of a loop. Each belongs to a connection. The functors bound with
  \<open>shared_from_this()\<close> or a \<open>TcpConnectionPtr\<close> keep it alive; \<open>send\<close> and \<open>shutdown\<close> bind \<open>this\<close>.
\<close>

datatype sys_functor = EstablishedFn nat | DestroyedFn nat | ConnFn nat conn_functor

fun functor_conn :: "sys_functor \<Rightarrow> nat" where
  "functor_conn (EstablishedFn c) = c"
| "functor_conn (DestroyedFn c) = c"
| "functor_conn (ConnFn c f) = c"

fun holds_ref :: "sys_functor \<Rightarrow> bool" where
  "holds_ref (ConnFn c (SendInLoopFn data)) = False"
| "holds_ref (ConnFn c ShutdownInLoopFn) = False"
| "holds_ref f = True"

text \<open>
  \<open>conns\<close> are the connections in the order of their creation, as in \<open>conn_objs\<close> of the server. \<open>io_pollers\<close>
  are the pollers of the loops of the pool and \<open>loopq\<close> the queues of all loops. \<open>held\<close> lists the pointers
  user code keeps, \<open>senders\<close> the calls of \<open>send\<close> on other threads that have found the connection up and have not
  queued their functor yet. \<open>infra_fds\<close> are the descriptors of the process that belong to no connection.
\<close>

record 'k system =
  srv :: "'k TcpServer"
  srv_writeComplete :: bool
  io_pollers :: "nat \<Rightarrow> 'k EPollPoller"
  conns :: "'k conn_env list"
  loopq :: "nat \<Rightarrow> sys_functor list"
  held :: "nat list"
  senders :: "nat list"
  infra_fds :: "int list"

abbreviation conn_count :: "'k system \<Rightarrow> nat" where
  "conn_count s \<equiv> length (conn_objs (srv s))"

text \<open>The address of the channel of connection \<open>c\<close>; all other channels have even addresses.\<close>

definition conn_chan :: "nat \<Rightarrow> channel_id" where
  "conn_chan c = 2 * c + 1"

definition conn_loop :: "'k system \<Rightarrow> nat \<Rightarrow> nat" where
  "conn_loop s c = co_loop (conn_objs (srv s) ! c)"

definition poller_at :: "'k system \<Rightarrow> nat \<Rightarrow> 'k EPollPoller" where
  "poller_at s l = (if l = srv_loop (srv s) then base_poller (srv s) else io_pollers s l)"

definition set_poller_at :: "nat \<Rightarrow> 'k EPollPoller \<Rightarrow> 'k system \<Rightarrow> 'k system" where
  "set_poller_at l p s =
     (if l = srv_loop (srv s) then s\<lparr>srv := (srv s)\<lparr>base_poller := p\<rparr>\<rparr> else s\<lparr>io_pollers := (io_pollers s)(l := p)\<rparr>)"

text \<open>\<open>queueInLoop\<close> of a loop.\<close>

definition queue_fns :: "nat \<Rightarrow> sys_functor list \<Rightarrow> 'k system \<Rightarrow> 'k system" where
  "queue_fns l fs s = s\<lparr>loopq := (loopq s)(l := loopq s l @ fs)\<rparr>"

text \<open>
  The references to a connection: the map of the server, a removal on its way to the base loop, a functor
  that holds a pointer, user code. A pointer bound in a functor counts until the functor is run; the
  source keeps it until the end of the round.
\<close>

definition alive :: "'k system \<Rightarrow> nat \<Rightarrow> bool" where
  "alive s c \<longleftrightarrow> c < conn_count s \<and>
     (connections (srv s) (co_name (conn_objs (srv s) ! c)) = Some c \<or>
      RemoveConnectionInLoop c \<in> set (base_calls (srv s)) \<or>
      list_ex (\<lambda>f. functor_conn f = c \<and> holds_ref f) (loopq s (conn_loop s c)) \<or>
      c \<in> set (held s))"

text \<open>The destructor of a connection closes its socket: these descriptors are open.\<close>

definition open_fds :: "'k system \<Rightarrow> int list" where
  "open_fds s = infra_fds s @ map (\<lambda>c. co_fd (conn_objs (srv s) ! c)) (filter (alive s) [0..<conn_count s])"

section \<open>Steps\<close>

text \<open>A connection works on the poller of its loop; what it has queued goes to the queue of the loop.\<close>

definition enter :: "'k system \<Rightarrow> nat \<Rightarrow> 'k conn_env" where
  "enter s c = (conns s ! c)\<lparr>poller := poller_at s (conn_loop s c)\<rparr>"

definition leave :: "nat \<Rightarrow> 'k conn_env \<Rightarrow> 'k system \<Rightarrow> 'k system" where
  "leave c w s =
     queue_fns (conn_loop s c) (map (ConnFn c) (pending w))
       (set_poller_at (conn_loop s c) (poller w) (s\<lparr>conns := (conns s)[c := w\<lparr>pending := []\<rparr>]\<rparr>))"

text \<open>
  \<open>removeConnection\<close> is the close callback. \<open>runInLoop\<close> calls \<open>removeConnectionInLoop\<close> at once when the
  connection lives in the base loop.
\<close>

definition sys_removeConnectionInLoop :: "nat \<Rightarrow> 'k system \<Rightarrow> 'k system result" where
  "sys_removeConnectionInLoop c s =
     rbind (removeConnectionInLoop c (srv s)) (\<lambda>s'.
       Inr (queue_fns (conn_loop s c) [DestroyedFn c] (s\<lparr>srv := s'\<rparr>)))"

definition sys_removeConnection :: "nat \<Rightarrow> 'k system \<Rightarrow> 'k system result" where
  "sys_removeConnection c s =
     (if conn_loop s c = srv_loop (srv s) then sys_removeConnectionInLoop c s
      else Inr (s\<lparr>srv := removeConnection c (srv s)\<rparr>))"

fun sys_removals :: "nat \<Rightarrow> nat \<Rightarrow> 'k system \<Rightarrow> 'k system result" where
  "sys_removals 0 c s = Inr s"
| "sys_removals (Suc k) c s = rbind (sys_removeConnection c s) (sys_removals k c)"

text \<open>A piece of code of connection \<open>c\<close>: every call of the close callback in it removes the connection.\<close>

definition conn_do :: "nat \<Rightarrow> 'k conn_env result \<Rightarrow> 'k system \<Rightarrow> 'k system result" where
  "conn_do c r s =
     rbind r (\<lambda>w. sys_removals
       (length (filter (\<lambda>x. x = CloseCall) (drop (length (calls (conns s ! c))) (calls w)))) c (leave c w s))"

fun sys_functor_run :: "'k epoll_ctl \<Rightarrow> conn_io \<Rightarrow> sys_functor \<Rightarrow> 'k system \<Rightarrow> 'k system result" where
  "sys_functor_run ctl io (EstablishedFn c) s = conn_do c (connectionEstablished ctl (enter s c)) s"
| "sys_functor_run ctl io (DestroyedFn c) s = conn_do c (connectionDestoryed ctl (enter s c)) s"
| "sys_functor_run ctl io (ConnFn c f) s = conn_do c (conn_functor_run ctl io f (enter s c)) s"

text \<open>
  The listening socket is readable. A new connection is constructed with its channel, gets the callbacks
  of the server, and is established in its loop: at once when that is the base loop.
\<close>

definition new_conn_env :: "bool \<Rightarrow> conn_obj \<Rightarrow> channel_id \<Rightarrow> 'k EPollPoller \<Rightarrow> 'k conn_env" where
  "new_conn_env wc co ch p =
     \<lparr>cn = setWriteCompleteCallback wc (TcpConnection_new (co_name co) (co_fd co) ch (co_local co) (co_peer co)), poller = p, pending = [], calls = [], wire = [],
      shut = False, so_errors = []\<rparr>"

definition sys_accept ::
  "'k epoll_ctl \<Rightarrow> int + (int \<times> sockaddr_in) \<Rightarrow> int \<Rightarrow> int \<Rightarrow> sockaddr_in \<Rightarrow> sockaddr_in \<Rightarrow> 'k system \<Rightarrow> 'k system result" where
  "sys_accept ctl answer accept_again null_fd dflt local_addr s =
     rbind (server_accept answer accept_again null_fd dflt local_addr (srv s)) (\<lambda>srv'.
       if length (conn_objs srv') = conn_count s then Inr (s\<lparr>srv := srv'\<rparr>)
       else let c = conn_count s;
                co = conn_objs srv' ! c;
                s1 = s\<lparr>srv := srv'\<rparr>;
                p = set_chan (conn_chan c) (\<lambda>_. TcpConnection_channel (co_fd co)) (poller_at s1 (co_loop co));
                s2 = set_poller_at (co_loop co) p
                  (s1\<lparr>conns := conns s @ [new_conn_env (srv_writeComplete s) co (conn_chan c) p]\<rparr>)
            in if co_loop co = srv_loop srv'
               then conn_do c (connectionEstablished ctl (enter s2 c)) s2
               else Inr (queue_fns (co_loop co) [EstablishedFn c] s2))"

text \<open>The base loop runs a functor of the server.\<close>

fun sys_base :: "'k epoll_ctl \<Rightarrow> int \<Rightarrow> base_functor \<Rightarrow> 'k system \<Rightarrow> 'k system result" where
  "sys_base ctl listen_answer AcceptorListen s =
     rbind (run_base ctl listen_answer AcceptorListen (srv s)) (\<lambda>s'. Inr (s\<lparr>srv := s'\<rparr>))"
| "sys_base ctl listen_answer (RemoveConnectionInLoop c) s = sys_removeConnectionInLoop c s"

text \<open>
  What can happen: the listening socket is readable, the base loop runs a functor, a loop runs the next
  functor of its queue, the poller reports events of a channel to its loop, user code uses a connection,
  copies a pointer to it or gives one up. \<open>SysTest\<close> and \<open>SysPush\<close> are the two halves of \<open>send\<close> on a thread that
  is not the thread of the loop: the test of the state, and the queueing of the functor.
\<close>

datatype sys_op =
    SysAccept "int + (int \<times> sockaddr_in)" int int sockaddr_in sockaddr_in
  | SysBase int
  | SysLoop nat conn_io
  | SysEvent nat events conn_io Timestamp
  | SysUser nat conn_op conn_io
  | SysHold nat
  | SysRelease nat
  | SysTest nat
  | SysPush nat string

text \<open>The poller stores the reported events in the channel.\<close>

definition report_event :: "events \<Rightarrow> 'k conn_env \<Rightarrow> 'k conn_env" where
  "report_event ev w = w\<lparr>poller := fst (fillActiveChannels [(ev, tc_channel (cn w))] (poller w))\<rparr>"

definition touch :: "nat \<Rightarrow> 'k system \<Rightarrow> 'k system result \<Rightarrow> 'k system result" where
  "touch c s r = (if alive s c then r else Inl UseAfterFree)"

fun sys_exec :: "'k epoll_ctl \<Rightarrow> sys_op \<Rightarrow> 'k system \<Rightarrow> 'k system result" where
  "sys_exec ctl (SysAccept answer accept_again null_fd dflt local_addr) s =
     sys_accept ctl answer accept_again null_fd dflt local_addr s"
| "sys_exec ctl (SysBase listen_answer) s =
     (case base_calls (srv s) of [] \<Rightarrow> Inr s
      | f # fs \<Rightarrow> sys_base ctl listen_answer f (s\<lparr>srv := (srv s)\<lparr>base_calls := fs\<rparr>\<rparr>))"
| "sys_exec ctl (SysLoop l io) s =
     (case loopq s l of [] \<Rightarrow> Inr s
      | f # fs \<Rightarrow> touch (functor_conn f) s (sys_functor_run ctl io f (s\<lparr>loopq := (loopq s)(l := fs)\<rparr>)))"
| "sys_exec ctl (SysEvent c ev io t) s =
     touch c s (conn_do c (conn_event ctl io (alive s c) t (report_event ev (enter s c))) s)"
| "sys_exec ctl (SysUser c oper io) s = touch c s (conn_do c (conn_exec ctl (oper, io) (enter s c)) s)"
| "sys_exec ctl (SysHold c) s = touch c s (Inr (s\<lparr>held := c # held s\<rparr>))"
| "sys_exec ctl (SysRelease c) s = Inr (s\<lparr>held := remove1 c (held s)\<rparr>)"
| "sys_exec ctl (SysTest c) s =
     touch c s (Inr (if state (cn (conns s ! c)) = kConnected then s\<lparr>senders := c # senders s\<rparr> else s))"
| "sys_exec ctl (SysPush c data) s =
     touch c s (Inr (queue_fns (conn_loop s c) [ConnFn c (SendInLoopFn data)] (s\<lparr>senders := remove1 c (senders s)\<rparr>)))"

fun sys_run :: "'k epoll_ctl \<Rightarrow> sys_op list \<Rightarrow> 'k system \<Rightarrow> 'k system result" where
  "sys_run ctl [] s = Inr s"
| "sys_run ctl (oper # opers) s = rbind (sys_exec ctl oper s) (sys_run ctl opers)"

text \<open>The system behind a started server: \<open>ps\<close> are the pollers of the loops of its pool.\<close>

definition system_new :: "'k TcpServer \<Rightarrow> bool \<Rightarrow> (nat \<Rightarrow> 'k EPollPoller) \<Rightarrow> int list \<Rightarrow> 'k system" where
  "system_new s wc ps fds =
     \<lparr>srv = s, srv_writeComplete = wc, io_pollers = ps, conns = [], loopq = (\<lambda>_. []), held = [], senders = [],
      infra_fds = fds\<rparr>"

section \<open>What the environment owes\<close>

text \<open>The operations of user code, and the handlers an event leads to.\<close>

fun user_op :: "conn_op \<Rightarrow> bool" where
  "user_op (UserSend inLoop data) = True"
| "user_op (UserShutdown inLoop) = True"
| "user_op (UserRetrieve n) = True"
| "user_op (UserHighWaterMark cb mark) = True"
| "user_op oper = False"

fun callback_op :: "callback \<Rightarrow> conn_op" where
  "callback_op CloseCb = OnClose"
| "callback_op ErrorCb = OnError"
| "callback_op (ReadCb t) = OnRead t"
| "callback_op WriteCb = OnWrite"

text \<open>
  \<open>accept4\<close> returns a descriptor that is not open. The kernel reports events only of channels the poller
  knows. User code uses pointers it has. The system calls stay within their buffers and there is memory
  for the bytes of the connections.
\<close>

fun sys_pre :: "'k epoll_ctl \<Rightarrow> sys_op \<Rightarrow> 'k system \<Rightarrow> bool" where
  "sys_pre ctl (SysAccept answer accept_again null_fd dflt local_addr) s =
     (case answer of Inl _ \<Rightarrow> True | Inr (fd, peer) \<Rightarrow> fd \<notin> set (open_fds s))"
| "sys_pre ctl (SysBase listen_answer) s = True"
| "sys_pre ctl (SysLoop l io) s =
     (case loopq s l of ConnFn c (SendInLoopFn data) # fs \<Rightarrow> send_pre io data (enter s c) | _ \<Rightarrow> True)"
| "sys_pre ctl (SysEvent c ev io t) s =
     (c < conn_count s \<and> ch_index (chan (poller_at s (conn_loop s c)) (conn_chan c)) \<noteq> kNew \<and>
      (let w = report_event ev (enter s c)
       in conn_pres ctl (map (\<lambda>cb. (callback_op cb, io)) (handleEvent (channel_of w) True t)) w))"
| "sys_pre ctl (SysUser c oper io) s = (user_op oper \<and> alive s c \<and> conn_pre (oper, io) (enter s c))"
| "sys_pre ctl (SysHold c) s = alive s c"
| "sys_pre ctl (SysRelease c) s = (c \<in> set (held s) \<and> c \<notin> set (senders s))"
| "sys_pre ctl (SysTest c) s = (c \<in> set (held s))"
| "sys_pre ctl (SysPush c data) s = (c \<in> set (held s) \<and> c \<in> set (senders s))"

fun sys_pres :: "'k epoll_ctl \<Rightarrow> sys_op list \<Rightarrow> 'k system \<Rightarrow> bool" where
  "sys_pres ctl [] s = True"
| "sys_pres ctl (oper # opers) s =
     (sys_pre ctl oper s \<and> (case sys_exec ctl oper s of Inl _ \<Rightarrow> True | Inr s' \<Rightarrow> sys_pres ctl opers s'))"

text \<open>\<open>send\<close> on another thread is not interrupted between its test and its \<open>queueInLoop\<close>.\<close>

fun uninterrupted :: "sys_op \<Rightarrow> bool" where
  "uninterrupted (SysTest c) = False"
| "uninterrupted (SysPush c data) = False"
| "uninterrupted oper = True"

section \<open>What a connection leaves alone\<close>

text \<open>
  The code of a connection that runs in its loop: it changes no channel but its own and of that only the mask,
  the index and the reported events; what it queues holds a pointer; it reports its end exactly when it
  goes down.
\<close>

definition conn_frame :: "'k conn_env \<Rightarrow> 'k conn_env \<Rightarrow> bool" where
  "conn_frame w w' \<longleftrightarrow>
     tc_channel (cn w') = tc_channel (cn w) \<and>
     (\<forall>d. d \<noteq> tc_channel (cn w) \<longrightarrow> chan (poller w') d = chan (poller w) d) \<and>
     ch_fd (channel_of w') = ch_fd (channel_of w) \<and> ch_tied (channel_of w') = ch_tied (channel_of w) \<and>
     (\<exists>q. pending w' = pending w @ q \<and> (\<forall>c. list_all (\<lambda>f. holds_ref (ConnFn c f)) q)) \<and>
     (\<exists>cs. calls w' = calls w @ cs \<and>
       (state (cn w') = kDisconnected \<longleftrightarrow> state (cn w) = kDisconnected \<or> CloseCall \<in> set cs)) \<and>
     (state (cn w') = kConnected \<longrightarrow> state (cn w) = kConnected)"

lemma conn_frame_refl: "conn_frame w w"
  by (simp add: conn_frame_def)

lemma conn_frame_trans: "conn_frame w w1 \<Longrightarrow> conn_frame w1 w2 \<Longrightarrow> conn_frame w w2"
  unfolding conn_frame_def by (elim conjE exE, intro conjI) (auto simp: list_all_append)

lemma conn_frameI:
  assumes "tc_channel (cn w') = tc_channel (cn w)"
    "\<And>d. d \<noteq> tc_channel (cn w) \<Longrightarrow> chan (poller w') d = chan (poller w) d"
    "ch_fd (channel_of w') = ch_fd (channel_of w)" "ch_tied (channel_of w') = ch_tied (channel_of w)"
    "pending w' = pending w @ q" "\<And>c. list_all (\<lambda>f. holds_ref (ConnFn c f)) q"
    "calls w' = calls w @ cs"
    "state (cn w') = kDisconnected \<longleftrightarrow> state (cn w) = kDisconnected \<or> CloseCall \<in> set cs"
    "state (cn w') = kConnected \<Longrightarrow> state (cn w) = kConnected"
  shows "conn_frame w w'"
  unfolding conn_frame_def using assms by blast

lemma set_interest_frame:
  assumes "set_interest ctl oper c p = Inr p'"
  shows "\<exists>ev i. chan p' = (chan p)(c := (chan p c)\<lparr>ch_events := ev, ch_index := i\<rparr>)"
proof -
  have same: "h\<lparr>ch_events := ev\<rparr> = h\<lparr>ch_events := ev, ch_index := ch_index h\<rparr>" for h :: Channel and ev
    by simp
  show ?thesis
    using assms same
    by (auto simp: set_interest_def updateChannel_def set_chan_def epoll_update_def rbind_eq_Inr Let_def
        split: if_splits option.splits; metis)
qed

lemma conn_interest_frame: "conn_interest ctl oper w = Inr w' \<Longrightarrow> conn_frame w w'"
  using set_interest_frame [of ctl oper "tc_channel (cn w)" "poller w"]
  by (intro conn_frameI [where q = "[]" and cs = "[]"]) (auto simp: conn_interest_def rbind_eq_Inr)

lemma handleClose_frame:
  assumes "handleClose ctl w = Inr w'"
  shows "conn_frame w w'"
proof -
  obtain p where "w' = w\<lparr>cn := (cn w)\<lparr>state := kDisconnected\<rparr>, poller := p,
      calls := calls w @ [ConnectionCall kDisconnected, CloseCall]\<rparr>"
    "set_interest ctl DisableAll (tc_channel (cn w)) (poller w) = Inr p"
    using assms by (auto simp: handleClose_def conn_interest_def conn_simps rbind_eq_Inr)
  then show ?thesis
    using set_interest_frame [of ctl DisableAll "tc_channel (cn w)" "poller w"]
    by (intro conn_frameI [where q = "[]" and cs = "[ConnectionCall kDisconnected, CloseCall]"]) auto
qed

text \<open>Changes of buffers, of the wire, of the write side, and of what is recorded.\<close>

lemma quiet_frame:
  assumes "tc_channel (cn w') = tc_channel (cn w)" "state (cn w') = state (cn w)" "poller w' = poller w"
    "pending w' = pending w @ q" "\<And>c. list_all (\<lambda>f. holds_ref (ConnFn c f)) q"
    "calls w' = calls w @ cs" "CloseCall \<notin> set cs"
  shows "conn_frame w w'"
  by (rule conn_frameI [where q = q and cs = cs]) (use assms in auto)

lemma send_rest_frame:
  assumes "send_rest ctl rest w = Inr w'"
  shows "conn_frame w w'"
proof -
  obtain b q where w2: "\<And>c. list_all (\<lambda>f. holds_ref (ConnFn c f)) q"
      "w' = w\<lparr>cn := (cn w)\<lparr>outputBuffer := b\<rparr>, pending := pending w @ q\<rparr> \<or>
       conn_interest ctl EnableWriting (w\<lparr>cn := (cn w)\<lparr>outputBuffer := b\<rparr>, pending := pending w @ q\<rparr>) = Inr w'"
  proof (cases "sz_add (readableBytes (outputBuffer (cn w))) (length rest) \<ge> highWaterMark (cn w) \<and>
      readableBytes (outputBuffer (cn w)) < highWaterMark (cn w) \<and> has_highWaterMark (cn w)")
    case True
    then show ?thesis
      using assms that [of "[HighWaterMarkFn (sz_add (readableBytes (outputBuffer (cn w))) (length rest))]"]
      by (cases w) (auto simp: send_rest_def rbind_eq_Inr conn_queue_def Let_def split: if_splits)
  next
    case False
    then show ?thesis
      using assms that [of "[]"]
      by (cases w) (auto simp: send_rest_def rbind_eq_Inr Let_def split: if_splits)
  qed
  have "conn_frame w (w\<lparr>cn := (cn w)\<lparr>outputBuffer := b\<rparr>, pending := pending w @ q\<rparr>)"
    using w2(1) by (intro quiet_frame [where q = q and cs = "[]"]) auto
  then show ?thesis using w2(2) conn_interest_frame conn_frame_trans by blast
qed

lemma send_direct_frame:
  assumes "send_direct write errno0 data w = (n, fault, w')"
  shows "conn_frame w w'"
proof -
  obtain q out where "w' = w\<lparr>wire := out, pending := pending w @ q\<rparr>" "q = [] \<or> q = [WriteCompleteFn]"
    using assms that [of "[]" "wire w"]
    by (cases w) (fastforce simp: send_direct_def conn_queue_def Let_def split: sum.splits if_splits)
  then show ?thesis by (intro quiet_frame [where q = q and cs = "[]"]) auto
qed

lemma sendInLoop_frame:
  assumes "sendInLoop ctl write errno0 data w = Inr w'"
  shows "conn_frame w w'"
proof (cases "state (cn w) = kDisconnected")
  case True
  then show ?thesis using assms by (simp add: sendInLoop_def conn_frame_refl)
next
  case False
  obtain n fault w1 where r: "(if direct_write w then send_direct write errno0 data w else (0, False, w)) = (n, fault, w1)"
    by (cases "if direct_write w then send_direct write errno0 data w else (0, False, w)") auto
  have "conn_frame w w1" using r send_direct_frame conn_frame_refl by (auto split: if_splits)
  then show ?thesis
    using assms False unfolding sendInLoop_def r
    by (auto split: if_splits intro: conn_frame_trans [OF _ send_rest_frame])
qed

lemma conn_handleRead_frame:
  assumes "conn_handleRead ctl readv sockopt t w = Inr w'"
  shows "conn_frame w w'"
proof -
  obtain n e b where r: "readFd readv (inputBuffer (cn w)) = Inr (n, e, b)"
    using assms by (auto simp: conn_handleRead_def rbind_eq_Inr)
  let ?w = "w\<lparr>cn := (cn w)\<lparr>inputBuffer := b\<rparr>\<rparr>"
  have "conn_frame w ?w" by (intro quiet_frame [where q = "[]" and cs = "[]"]) auto
  moreover have "conn_frame ?w (conn_calls [MessageCall t] ?w)"
    by (intro quiet_frame [where q = "[]" and cs = "[MessageCall t]"]) (auto simp: conn_calls_def)
  moreover have "conn_frame ?w (handleError sockopt ?w)"
    by (intro quiet_frame [where q = "[]" and cs = "[]"]) (auto simp: handleError_def)
  ultimately show ?thesis
    using assms r handleClose_frame [of ctl ?w w'] conn_frame_trans
    by (auto simp: conn_handleRead_def Let_def split: if_splits)
qed

lemma shutdownInLoop_frame: "conn_frame w (shutdownInLoop w)"
  by (intro quiet_frame [where q = "[]" and cs = "[]"]) (auto simp: shutdownInLoop_def)

lemma conn_handleWrite_frame:
  assumes "conn_handleWrite ctl write w = Inr w'"
  shows "conn_frame w w'"
proof (cases "w' = w")
  case True
  then show ?thesis by (simp add: conn_frame_refl)
next
  case False
  obtain b out where "w' = w\<lparr>cn := (cn w)\<lparr>outputBuffer := b\<rparr>, wire := out\<rparr> \<or>
      (\<exists>w3. conn_interest ctl DisableWriting (w\<lparr>cn := (cn w)\<lparr>outputBuffer := b\<rparr>, wire := out\<rparr>) = Inr w3 \<and>
        (let w4 = (if has_writeComplete (cn w3) then conn_queue WriteCompleteFn w3 else w3)
         in w' = (if state (cn w4) = kDisconnecting then shutdownInLoop w4 else w4)))" (is "w' = ?w2 \<or> ?last")
    using assms False that
    by (cases w) (fastforce simp: conn_handleWrite_def rbind_eq_Inr Let_def split: if_splits)
  moreover have two: "conn_frame w ?w2" by (intro quiet_frame [where q = "[]" and cs = "[]"]) auto
  moreover have "conn_frame w w'" if ?last
  proof -
    from that obtain w3 where w3: "conn_interest ctl DisableWriting ?w2 = Inr w3"
        "w' = (let w4 = (if has_writeComplete (cn w3) then conn_queue WriteCompleteFn w3 else w3)
           in if state (cn w4) = kDisconnecting then shutdownInLoop w4 else w4)"
      by (auto simp: Let_def)
    have "conn_frame w3 (conn_queue WriteCompleteFn w3)"
      by (intro quiet_frame [where q = "[WriteCompleteFn]" and cs = "[]"]) (auto simp: conn_queue_def)
    then have "conn_frame w3 w'"
      unfolding w3(2) Let_def
      using shutdownInLoop_frame conn_frame_trans conn_frame_refl by (auto split: if_splits)
    then show ?thesis using conn_frame_trans [OF two] conn_interest_frame [OF w3(1)] conn_frame_trans by blast
  qed
  ultimately show ?thesis by blast
qed

lemma conn_callback_frame: "conn_callback ctl io cb w = Inr w' \<Longrightarrow> conn_frame w w'"
proof (cases cb)
  case ErrorCb
  assume "conn_callback ctl io cb w = Inr w'"
  then show ?thesis
    using ErrorCb by (intro quiet_frame [where q = "[]" and cs = "[]"]) (auto simp: handleError_def)
qed (auto intro: handleClose_frame conn_handleRead_frame conn_handleWrite_frame)

lemma conn_callbacks_frame: "conn_callbacks ctl io cbs w = Inr w' \<Longrightarrow> conn_frame w w'"
proof (induction cbs arbitrary: w)
  case Nil
  then show ?case by (simp add: conn_frame_refl)
next
  case (Cons cb cbs)
  then show ?case using conn_callback_frame conn_frame_trans by (fastforce simp: rbind_eq_Inr)
qed

lemma conn_functor_run_frame: "conn_functor_run ctl io f w = Inr w' \<Longrightarrow> conn_frame w w'"
proof (cases f)
  case WriteCompleteFn
  assume "conn_functor_run ctl io f w = Inr w'"
  then show ?thesis
    using WriteCompleteFn by (intro quiet_frame [where q = "[]" and cs = "[WriteCompleteCall]"]) (auto simp: conn_calls_def)
next
  case (HighWaterMarkFn n)
  assume "conn_functor_run ctl io f w = Inr w'"
  then show ?thesis
    using HighWaterMarkFn
    by (intro quiet_frame [where q = "[]" and cs = "[HighWaterMarkCall n]"]) (auto simp: conn_calls_def)
qed (auto intro: sendInLoop_frame shutdownInLoop_frame)

section \<open>The invariant\<close>

text \<open>The functors of a connection that its loop has still to run, and a removal on its way.\<close>

definition cq :: "'k system \<Rightarrow> nat \<Rightarrow> sys_functor list" where
  "cq s c = filter (\<lambda>f. functor_conn f = c) (loopq s (conn_loop s c))"

definition removing :: "'k system \<Rightarrow> nat \<Rightarrow> bool" where
  "removing s c \<longleftrightarrow> RemoveConnectionInLoop c \<in> set (base_calls (srv s))"

text \<open>A functor without a pointer is never queued behind \<open>connectionDestoryed\<close>.\<close>

fun raw_first :: "sys_functor list \<Rightarrow> bool" where
  "raw_first [] = True"
| "raw_first (DestroyedFn c # fs) = list_all holds_ref fs"
| "raw_first (f # fs) = raw_first fs"

lemma raw_first_append:
  "raw_first (fs @ gs) \<longleftrightarrow> raw_first fs \<and>
    (if \<exists>c. DestroyedFn c \<in> set fs then list_all holds_ref gs else raw_first gs)"
  by (induction fs rule: raw_first.induct) (auto simp: list_all_append)

lemma holds_ref_raw_first: "list_all holds_ref fs \<Longrightarrow> raw_first fs"
  by (induction fs rule: raw_first.induct) auto

text \<open>
  The three phases of a connection: handed to its loop but not established there; known to the poller;
  removed from the poller. \<open>closing\<close> allows the moment between the close callback and the removal.
\<close>

definition conn_waits ::
  "'k epoll_ctl \<Rightarrow> ('k \<Rightarrow> int \<rightharpoonup> events \<times> channel_id) \<Rightarrow> 'k system \<Rightarrow> nat \<Rightarrow> bool" where
  "conn_waits ctl interest s c \<longleftrightarrow>
     cq s c = [EstablishedFn c] \<and> c \<notin> removed (srv s) \<and> \<not> removing s c \<and>
     (let w = enter s c
      in state (cn w) = kConnecting \<and> ch_index (channel_of w) = kNew \<and> ch_events (channel_of w) = kNoneEvent \<and>
         Buffer_inv (inputBuffer (cn w)) \<and> Buffer_inv (outputBuffer (cn w)) \<and>
         Buffer_content (outputBuffer (cn w)) = [] \<and> wire w = [] \<and> \<not> shut w)"

definition conn_up ::
  "'k epoll_ctl \<Rightarrow> ('k \<Rightarrow> int \<rightharpoonup> events \<times> channel_id) \<Rightarrow> bool \<Rightarrow> 'k system \<Rightarrow> nat \<Rightarrow> bool" where
  "conn_up ctl interest closing s c \<longleftrightarrow>
     conn_inv ctl interest (enter s c) \<and> ch_tied (channel_of (enter s c)) \<and>
     EstablishedFn c \<notin> set (cq s c) \<and> raw_first (cq s c) \<and>
     (ConnFn c ShutdownInLoopFn \<in> set (cq s c) \<longrightarrow> state (cn (enter s c)) \<noteq> kConnected) \<and>
     (DestroyedFn c \<in> set (cq s c) \<longleftrightarrow> c \<in> removed (srv s)) \<and>
     (if state (cn (enter s c)) = kDisconnected then c \<in> removed (srv s) \<or> removing s c \<or> closing
      else c \<notin> removed (srv s) \<and> \<not> removing s c)"

definition conn_gone :: "'k system \<Rightarrow> nat \<Rightarrow> bool" where
  "conn_gone s c \<longleftrightarrow>
     ch_index (channel_of (enter s c)) = kNew \<and> state (cn (enter s c)) = kDisconnected \<and>
     c \<in> removed (srv s) \<and> EstablishedFn c \<notin> set (cq s c) \<and> list_all holds_ref (cq s c)"

definition conn_ok ::
  "'k epoll_ctl \<Rightarrow> ('k \<Rightarrow> int \<rightharpoonup> events \<times> channel_id) \<Rightarrow> bool \<Rightarrow> 'k system \<Rightarrow> nat \<Rightarrow> bool" where
  "conn_ok ctl interest closing s c \<longleftrightarrow>
     tc_channel (cn (enter s c)) = conn_chan c \<and> pending (enter s c) = [] \<and>
     ch_fd (channel_of (enter s c)) = co_fd (conn_objs (srv s) ! c) \<and>
     (conn_waits ctl interest s c \<or> conn_up ctl interest closing s c \<or> conn_gone s c)"

text \<open>
  Every functor is in the queue of its connection's loop. A channel that a poller knows belongs to a
  connection of that loop or has one of the other descriptors of the process. Nobody else uses the
  descriptor of the acceptor. Connections that exist have different descriptors.
\<close>

definition queues_ok :: "'k system \<Rightarrow> bool" where
  "queues_ok s \<longleftrightarrow>
     (\<forall>l f. f \<in> set (loopq s l) \<longrightarrow> functor_conn f < conn_count s \<and> conn_loop s (functor_conn f) = l)"

definition channels_ok :: "'k system \<Rightarrow> bool" where
  "channels_ok s \<longleftrightarrow>
     (\<forall>l d. ch_index (chan (poller_at s l) d) \<noteq> kNew \<longrightarrow>
        even d \<and> ch_fd (chan (poller_at s l) d) \<in> set (infra_fds s) \<or>
        (\<exists>c < conn_count s. d = conn_chan c \<and> conn_loop s c = l))"

definition acceptor_ok :: "'k system \<Rightarrow> bool" where
  "acceptor_ok s \<longleftrightarrow>
     (let bp = base_poller (srv s); acc = acceptChannel (srv_acceptor (srv s))
      in even acc \<and> ch_fd (chan bp acc) \<in> set (infra_fds s) \<and>
         (\<forall>d. even d \<longrightarrow> ch_index (chan bp d) \<noteq> kNew \<longrightarrow> ch_fd (chan bp d) = ch_fd (chan bp acc) \<longrightarrow> d = acc))"

definition fds_ok :: "'k system \<Rightarrow> bool" where
  "fds_ok s \<longleftrightarrow>
     (\<forall>c. alive s c \<longrightarrow> co_fd (conn_objs (srv s) ! c) \<notin> set (infra_fds s)) \<and>
     (\<forall>c d. alive s c \<longrightarrow> alive s d \<longrightarrow> co_fd (conn_objs (srv s) ! c) = co_fd (conn_objs (srv s) ! d) \<longrightarrow> c = d)"

definition sys_inv ::
  "'k epoll_ctl \<Rightarrow> ('k \<Rightarrow> int \<rightharpoonup> events \<times> channel_id) \<Rightarrow> nat set \<Rightarrow> 'k system \<Rightarrow> bool" where
  "sys_inv ctl interest X s \<longleftrightarrow>
     server_inv (srv s) \<and> length (conns s) = conn_count s \<and> (\<forall>l. poller_ready ctl interest (poller_at s l)) \<and>
     queues_ok s \<and> channels_ok s \<and> acceptor_ok s \<and> (\<forall>c < conn_count s. conn_ok ctl interest (c \<in> X) s c) \<and> fds_ok s"

lemma sys_invD:
  assumes "sys_inv ctl interest X s"
  shows "server_inv (srv s)" "length (conns s) = conn_count s" "poller_ready ctl interest (poller_at s l)"
    "queues_ok s" "channels_ok s" "acceptor_ok s" "c < conn_count s \<Longrightarrow> conn_ok ctl interest (c \<in> X) s c" "fds_ok s"
  using assms by (simp_all add: sys_inv_def)

lemma queues_okD: "queues_ok s \<Longrightarrow> f \<in> set (loopq s l) \<Longrightarrow> functor_conn f < conn_count s \<and> conn_loop s (functor_conn f) = l"
  by (simp add: queues_ok_def)

lemma channels_okD:
  "channels_ok s \<Longrightarrow> ch_index (chan (poller_at s l) d) \<noteq> kNew \<Longrightarrow>
    even d \<and> ch_fd (chan (poller_at s l) d) \<in> set (infra_fds s) \<or> (\<exists>c < conn_count s. d = conn_chan c \<and> conn_loop s c = l)"
  by (simp add: channels_ok_def)

lemma fds_okD:
  assumes "fds_ok s" "alive s c"
  shows "co_fd (conn_objs (srv s) ! c) \<notin> set (infra_fds s)"
    "alive s d \<Longrightarrow> co_fd (conn_objs (srv s) ! c) = co_fd (conn_objs (srv s) ! d) \<Longrightarrow> c = d"
  using assms unfolding fds_ok_def by blast+

text \<open>The moment between the close callback and the removal is allowed, not required.\<close>

lemma conn_up_closing: "conn_up ctl interest False s c \<Longrightarrow> conn_up ctl interest b s c"
  by (auto simp: conn_up_def split: if_splits)

lemma sys_inv_closing:
  assumes "sys_inv ctl interest {} s"
  shows "sys_inv ctl interest X s"
proof -
  have "conn_ok ctl interest False s c \<Longrightarrow> conn_ok ctl interest b s c" for b c
    unfolding conn_ok_def using conn_up_closing by blast
  then show ?thesis using assms by (simp add: sys_inv_def)
qed

subsection \<open>Existence\<close>

lemma alive_iff:
  assumes "server_inv (srv s)"
  shows "alive s c \<longleftrightarrow> c < conn_count s \<and>
    (c \<notin> removed (srv s) \<or> removing s c \<or> list_ex holds_ref (cq s c) \<or> c \<in> set (held s))"
proof (cases "c < conn_count s")
  case True
  have "connections (srv s) (co_name (conn_objs (srv s) ! c)) = Some c \<longleftrightarrow> c \<notin> removed (srv s)"
    using server_invD(6) [OF assms True] server_invD(7) [OF assms] True by simp
  then show ?thesis by (auto simp: alive_def cq_def removing_def list_ex_iff)
qed (simp add: alive_def)

lemma enter_simps [simp]:
  "cn (enter s c) = cn (conns s ! c)" "poller (enter s c) = poller_at s (conn_loop s c)"
  "pending (enter s c) = pending (conns s ! c)" "calls (enter s c) = calls (conns s ! c)"
  "wire (enter s c) = wire (conns s ! c)" "shut (enter s c) = shut (conns s ! c)"
  by (simp_all add: enter_def)

text \<open>A connection whose channel the poller knows exists.\<close>

lemma registered_up:
  assumes "conn_ok ctl interest b s c" "ch_index (chan (poller_at s (conn_loop s c)) (conn_chan c)) \<noteq> kNew"
  shows "conn_up ctl interest b s c"
  using assms by (auto simp: conn_ok_def conn_waits_def conn_gone_def Let_def)

lemma up_registered:
  assumes "conn_ok ctl interest b s c" "conn_up ctl interest b s c"
  shows "ch_index (chan (poller_at s (conn_loop s c)) (conn_chan c)) \<noteq> kNew"
  using assms conn_invD(2) by (fastforce simp: conn_ok_def conn_up_def)

lemma up_alive:
  assumes "server_inv (srv s)" "c < conn_count s" "conn_up ctl interest b s c"
  shows "alive s c"
  using assms unfolding alive_iff [OF assms(1)]
  by (auto simp: conn_up_def list_ex_iff alive_iff split: if_splits intro: bexI [where x = "DestroyedFn c"])

lemma registered_alive:
  assumes inv: "sys_inv ctl interest X s" and reg: "ch_index (chan (poller_at s l) (conn_chan c)) \<noteq> kNew"
  shows "c < conn_count s" "conn_loop s c = l" "conn_up ctl interest (c \<in> X) s c" "alive s c"
proof -
  show c: "c < conn_count s" and l: "conn_loop s c = l"
    using channels_okD [OF sys_invD(5) [OF inv] reg] by (auto simp: conn_chan_def)
  show up: "conn_up ctl interest (c \<in> X) s c"
    using registered_up [OF sys_invD(7) [OF inv c]] reg l by simp
  show "alive s c" by (rule up_alive [OF sys_invD(1) [OF inv] c up])
qed

text \<open>No poller uses the descriptor of an existing connection for another channel.\<close>

lemma fd_owner:
  assumes inv: "sys_inv ctl interest X s" and c: "alive s c"
    and d: "ch_index (chan (poller_at s l) d) \<noteq> kNew" "ch_fd (chan (poller_at s l) d) = co_fd (conn_objs (srv s) ! c)"
  shows "d = conn_chan c \<and> conn_loop s c = l"
proof -
  from channels_okD [OF sys_invD(5) [OF inv] d(1)] consider "ch_fd (chan (poller_at s l) d) \<in> set (infra_fds s)"
    | c' where "c' < conn_count s" "d = conn_chan c'" "conn_loop s c' = l" by blast
  then show ?thesis
  proof cases
    case 1
    then show ?thesis using fds_okD(1) [OF sys_invD(8) [OF inv] c] d(2) by simp
  next
    case 2
    have "alive s c'" using registered_alive(4) [OF inv, of l c'] d(1) 2(2) by simp
    moreover have "co_fd (conn_objs (srv s) ! c') = co_fd (conn_objs (srv s) ! c)"
      using sys_invD(7) [OF inv 2(1)] d(2) 2(2,3) by (auto simp: conn_ok_def)
    ultimately have "c' = c" using fds_okD(2) [OF sys_invD(8) [OF inv] _ c] by blast
    then show ?thesis using 2 by simp
  qed
qed

lemma fd_free:
  assumes inv: "sys_inv ctl interest X s" and c: "alive s c"
    and new: "ch_index (chan (poller_at s (conn_loop s c)) (conn_chan c)) = kNew"
  shows "channels (poller_at s l) (co_fd (conn_objs (srv s) ! c)) = None"
proof (rule ccontr)
  assume "channels (poller_at s l) (co_fd (conn_objs (srv s) ! c)) \<noteq> None"
  then obtain d where "channels (poller_at s l) (co_fd (conn_objs (srv s) ! c)) = Some d" by auto
  then have "ch_fd (chan (poller_at s l) d) = co_fd (conn_objs (srv s) ! c)" "ch_index (chan (poller_at s l) d) \<noteq> kNew"
    using poller_invD(2) [of interest "poller_at s l"] sys_invD(3) [OF inv, of l] by (auto simp: poller_ready_def)
  from fd_owner [OF inv c this(2,1)] this(2) new show False by simp
qed

subsection \<open>One connection at a time\<close>

text \<open>What concerns another connection does not concern this one.\<close>

lemma conn_inv_poller:
  assumes "conn_inv ctl interest w" "poller_ready ctl interest p" "chan p (tc_channel (cn w)) = channel_of w"
  shows "conn_inv ctl interest (w\<lparr>poller := p\<rparr>)"
  using assms by (simp add: conn_inv_def)

lemma conn_ok_cong:
  assumes ok: "conn_ok ctl interest b s d" and conns: "conns s' ! d = conns s ! d" "conn_loop s' d = conn_loop s d"
    and chan: "chan (poller_at s' (conn_loop s d)) (conn_chan d) = chan (poller_at s (conn_loop s d)) (conn_chan d)"
    and ready: "poller_ready ctl interest (poller_at s' (conn_loop s d))"
    and cq: "cq s' d = cq s d" and rem: "d \<in> removed (srv s') \<longleftrightarrow> d \<in> removed (srv s)" "removing s' d \<longleftrightarrow> removing s d"
    and fd: "co_fd (conn_objs (srv s') ! d) = co_fd (conn_objs (srv s) ! d)"
  shows "conn_ok ctl interest b s' d"
proof -
  have tc: "tc_channel (cn (conns s ! d)) = conn_chan d" using ok by (simp add: conn_ok_def)
  have e: "enter s' d = (enter s d)\<lparr>poller := poller_at s' (conn_loop s d)\<rparr>"
    using conns by (simp add: enter_def)
  have "conn_inv ctl interest (enter s d) \<Longrightarrow> conn_inv ctl interest (enter s' d)"
    unfolding e using ready chan tc by (intro conn_inv_poller) simp_all
  then have "conn_waits ctl interest s d \<Longrightarrow> conn_waits ctl interest s' d"
      "conn_up ctl interest b s d \<Longrightarrow> conn_up ctl interest b s' d" "conn_gone s d \<Longrightarrow> conn_gone s' d"
    using conns chan cq rem tc by (auto simp: conn_waits_def conn_up_def conn_gone_def Let_def split: if_splits)
  then show ?thesis using ok conns chan fd tc by (auto simp: conn_ok_def)
qed

lemma base_poller_at: "base_poller (srv s) = poller_at s (srv_loop (srv s))"
  by (simp add: poller_at_def)

lemma sys_inv_local:
  assumes inv: "sys_inv ctl interest Y s" and c: "c < conn_count s"
    and srv: "server_inv (srv s')" "conn_objs (srv s') = conn_objs (srv s)"
      "srv_acceptor (srv s') = srv_acceptor (srv s)" "srv_loop (srv s') = srv_loop (srv s)"
      "\<And>d. d \<noteq> c \<Longrightarrow> d \<in> removed (srv s') \<longleftrightarrow> d \<in> removed (srv s)" "\<And>d. d \<noteq> c \<Longrightarrow> removing s' d \<longleftrightarrow> removing s d"
    and conns: "length (conns s') = length (conns s)" "\<And>d. d \<noteq> c \<Longrightarrow> conns s' ! d = conns s ! d"
    and ready: "\<And>l. poller_ready ctl interest (poller_at s' l)"
    and frame: "\<And>l d. d \<noteq> conn_chan c \<or> l \<noteq> conn_loop s c \<Longrightarrow> chan (poller_at s' l) d = chan (poller_at s l) d"
    and queues: "\<And>l. filter (\<lambda>f. functor_conn f \<noteq> c) (loopq s' l) = filter (\<lambda>f. functor_conn f \<noteq> c) (loopq s l)"
      "\<And>l f. f \<in> set (loopq s' l) \<Longrightarrow> functor_conn f = c \<Longrightarrow> l = conn_loop s c"
    and same: "held s' = held s" "infra_fds s' = infra_fds s"
    and ok: "conn_ok ctl interest (c \<in> X) s' c" "alive s' c \<Longrightarrow> alive s c"
    and X: "\<And>d. d \<noteq> c \<Longrightarrow> d \<in> X \<longleftrightarrow> d \<in> Y"
  shows "sys_inv ctl interest X s'"
proof -
  have loop: "conn_loop s' = conn_loop s" by (simp add: conn_loop_def srv(2) fun_eq_iff)
  have cq: "cq s' d = cq s d" if "d \<noteq> c" for d
    using arg_cong [OF queues(1) [of "conn_loop s d"], of "filter (\<lambda>f. functor_conn f = d)"] that
    by (simp add: cq_def loop filter_filter conj_commute cong: conj_cong filter_cong)
  have alive: "alive s' d \<longleftrightarrow> alive s d" if "d \<noteq> c" for d
    using that by (simp add: alive_iff [OF srv(1)] alive_iff [OF sys_invD(1) [OF inv]] cq srv(2,5,6) same(1))
  have chan_even: "chan (poller_at s' l) d = chan (poller_at s l) d" if "even d" for l d
    using that by (intro frame) (auto simp: conn_chan_def)
  show ?thesis
    unfolding sys_inv_def
  proof (intro conjI allI impI)
    show "server_inv (srv s')" by fact
    show "length (conns s') = conn_count s'" using conns(1) srv(2) sys_invD(2) [OF inv] by simp
    show "poller_ready ctl interest (poller_at s' l)" for l by fact
    show "queues_ok s'"
      unfolding queues_ok_def
    proof (intro allI impI)
      fix l f assume f: "f \<in> set (loopq s' l)"
      show "functor_conn f < conn_count s' \<and> conn_loop s' (functor_conn f) = l"
      proof (cases "functor_conn f = c")
        case True
        then show ?thesis using c queues(2) [OF f] by (simp add: srv(2) loop)
      next
        case False
        then have "f \<in> set (loopq s l)"
          using f arg_cong [OF queues(1) [of l], of set] by auto
        then show ?thesis using queues_okD [OF sys_invD(4) [OF inv]] by (simp add: srv(2) loop)
      qed
    qed
    show "channels_ok s'"
      unfolding channels_ok_def
    proof (intro allI impI)
      fix l d assume reg: "ch_index (chan (poller_at s' l) d) \<noteq> kNew"
      show "even d \<and> ch_fd (chan (poller_at s' l) d) \<in> set (infra_fds s') \<or>
          (\<exists>c < conn_count s'. d = conn_chan c \<and> conn_loop s' c = l)"
      proof (cases "d = conn_chan c \<and> l = conn_loop s c")
        case True
        then show ?thesis using c by (auto simp: srv(2) loop)
      next
        case False
        then show ?thesis using reg channels_okD [OF sys_invD(5) [OF inv], of l d] frame [of d l]
          by (simp add: srv(2) loop same(2))
      qed
    qed
    show "acceptor_ok s'"
      using sys_invD(6) [OF inv] unfolding acceptor_ok_def base_poller_at
      by (simp add: srv(3,4) same(2) chan_even Let_def)
    show "fds_ok s'"
    proof -
      have "alive s d" if "alive s' d" for d using alive [of d] that ok(2) by (cases "d = c") auto
      then show ?thesis using sys_invD(8) [OF inv] by (simp add: fds_ok_def srv(2) same(2))
    qed
    show "conn_ok ctl interest (d \<in> X) s' d" if d: "d < conn_count s'" for d
    proof (cases "d = c")
      case True
      then show ?thesis using ok(1) by simp
    next
      case False
      then have ne: "conn_chan d \<noteq> conn_chan c" by (simp add: conn_chan_def)
      have "d < conn_count s" using d by (simp add: srv(2))
      from sys_invD(7) [OF inv this] have "conn_ok ctl interest (d \<in> Y) s' d"
        by (rule conn_ok_cong [OF _ conns(2) [OF False] _ frame ready cq [OF False] srv(5) [OF False] srv(6) [OF False]])
          (simp_all add: loop ne srv(2))
      then show ?thesis using X [OF False] by simp
    qed
  qed
qed

lemma srv_set_poller:
  "conn_objs (srv (set_poller_at l p s)) = conn_objs (srv s)" "srv_loop (srv (set_poller_at l p s)) = srv_loop (srv s)"
  "srv_acceptor (srv (set_poller_at l p s)) = srv_acceptor (srv s)" "base_calls (srv (set_poller_at l p s)) = base_calls (srv s)"
  "removed (srv (set_poller_at l p s)) = removed (srv s)" "conns (set_poller_at l p s) = conns s"
  "connections (srv (set_poller_at l p s)) = connections (srv s)"
  "loopq (set_poller_at l p s) = loopq s" "held (set_poller_at l p s) = held s"
  "infra_fds (set_poller_at l p s) = infra_fds s" "server_inv (srv s) \<Longrightarrow> server_inv (srv (set_poller_at l p s))"
  "poller_at (set_poller_at l p s) l' = (if l' = l then p else poller_at s l')"
  by (auto simp: set_poller_at_def poller_at_def removed_def server_inv_def name_of_def loop_of_def)

lemma leave_simps [simp]:
  "conn_objs (srv (leave c w s)) = conn_objs (srv s)" "srv_loop (srv (leave c w s)) = srv_loop (srv s)"
  "srv_acceptor (srv (leave c w s)) = srv_acceptor (srv s)" "removed (srv (leave c w s)) = removed (srv s)"
  "conns (leave c w s) = (conns s)[c := w\<lparr>pending := []\<rparr>]" "base_calls (srv (leave c w s)) = base_calls (srv s)"
  "connections (srv (leave c w s)) = connections (srv s)"
  "removing (leave c w s) d = removing s d" "conn_loop (leave c w s) = conn_loop s"
  "loopq (leave c w s) l = loopq s l @ (if l = conn_loop s c then map (ConnFn c) (pending w) else [])"
  "held (leave c w s) = held s" "infra_fds (leave c w s) = infra_fds s"
  "server_inv (srv s) \<Longrightarrow> server_inv (srv (leave c w s))"
  "poller_at (leave c w s) l = (if l = conn_loop s c then poller w else poller_at s l)"
  by (auto simp: leave_def queue_fns_def set_poller_at_def poller_at_def removing_def conn_loop_def fun_eq_iff
      removed_def server_inv_def name_of_def loop_of_def)

lemma cq_leave: "cq (leave c w s) c = cq s c @ map (ConnFn c) (pending w)"
  by (simp add: cq_def filter_map comp_def)

lemma enter_leave: "c < length (conns s) \<Longrightarrow> enter (leave c w s) c = w\<lparr>pending := []\<rparr>"
  by (simp add: enter_def)

lemma raw_first_conn: "raw_first (map (ConnFn c) fs)"
  by (induction fs) simp_all

text \<open>
  A step of connection \<open>c\<close>, possibly run from the head of its queue: \<open>q\<close> are the queues while it runs, \<open>w\<close> is
  the connection afterwards.
\<close>

definition queue_step :: "'k system \<Rightarrow> nat \<Rightarrow> (nat \<Rightarrow> sys_functor list) \<Rightarrow> bool" where
  "queue_step s c q \<longleftrightarrow>
     (\<forall>l. filter (\<lambda>f. functor_conn f \<noteq> c) (q l) = filter (\<lambda>f. functor_conn f \<noteq> c) (loopq s l)) \<and>
     (\<forall>l. set (q l) \<subseteq> set (loopq s l))"

lemma queue_step_refl: "queue_step s c (loopq s)"
  by (simp add: queue_step_def)

lemma queue_step_pop: "loopq s l = f # fs \<Longrightarrow> queue_step s (functor_conn f) ((loopq s)(l := fs))"
  by (auto simp: queue_step_def)

lemma loopq_update_simps [simp]:
  "cq (s\<lparr>loopq := q\<rparr>) c = filter (\<lambda>f. functor_conn f = c) (q (conn_loop s c))"
  "conn_loop (s\<lparr>loopq := q\<rparr>) = conn_loop s" "poller_at (s\<lparr>loopq := q\<rparr>) = poller_at s"
  "removing (s\<lparr>loopq := q\<rparr>) c = removing s c" "enter (s\<lparr>loopq := q\<rparr>) c = enter s c"
  by (simp_all add: cq_def conn_loop_def poller_at_def removing_def enter_def fun_eq_iff)

lemma leave_inv:
  assumes inv: "sys_inv ctl interest {} s" and c: "c < conn_count s" "alive s c" and q: "queue_step s c q"
    and w: "poller_ready ctl interest (poller w)"
      "\<And>d. d \<noteq> conn_chan c \<Longrightarrow> chan (poller w) d = chan (poller_at s (conn_loop s c)) d"
    and ok: "conn_ok ctl interest (c \<in> X) (leave c w (s\<lparr>loopq := q\<rparr>)) c" and X: "X \<subseteq> {c}"
  shows "sys_inv ctl interest X (leave c w (s\<lparr>loopq := q\<rparr>))"
proof (rule sys_inv_local [OF inv c(1)])
  show "filter (\<lambda>f. functor_conn f \<noteq> c) (loopq (leave c w (s\<lparr>loopq := q\<rparr>)) l) =
      filter (\<lambda>f. functor_conn f \<noteq> c) (loopq s l)" for l
    using q by (simp add: queue_step_def filter_map comp_def)
  show "l = conn_loop s c" if "f \<in> set (loopq (leave c w (s\<lparr>loopq := q\<rparr>)) l)" "functor_conn f = c" for l f
    using that q queues_okD [OF sys_invD(4) [OF inv], of f l] by (auto simp: queue_step_def split: if_splits)
  show "d \<in> X \<longleftrightarrow> d \<in> {}" if "d \<noteq> c" for d using that X by auto
  show "chan (poller_at (leave c w (s\<lparr>loopq := q\<rparr>)) l) d = chan (poller_at s l) d"
    if "d \<noteq> conn_chan c \<or> l \<noteq> conn_loop s c" for l d using that w(2) [of d] by auto
qed (use sys_invD [OF inv] c w ok in \<open>simp_all\<close>)

lemma up_step:
  assumes inv: "sys_inv ctl interest {} s" and c: "c < conn_count s" and up: "conn_up ctl interest False s c"
    and q: "queue_step s c q" "raw_first (filter (\<lambda>f. functor_conn f = c) (q (conn_loop s c)))"
      "DestroyedFn c \<in> set (cq s c) \<Longrightarrow> DestroyedFn c \<in> set (q (conn_loop s c))"
    and w: "conn_inv ctl interest w" "tc_channel (cn w) = conn_chan c"
      "\<And>d. d \<noteq> conn_chan c \<Longrightarrow> chan (poller w) d = chan (poller_at s (conn_loop s c)) d"
      "ch_fd (channel_of w) = co_fd (conn_objs (srv s) ! c)" "ch_tied (channel_of w)"
    and pend: "list_all (\<lambda>f. holds_ref (ConnFn c f)) (pending w) \<or> state (cn (conns s ! c)) = kConnected"
    and st: "state (cn w) = kDisconnected \<longleftrightarrow> state (cn (conns s ! c)) = kDisconnected \<or> closed"
      "state (cn w) = kConnected \<Longrightarrow> state (cn (conns s ! c)) = kConnected"
  shows "sys_inv ctl interest (if closed then {c} else {}) (leave c w (s\<lparr>loopq := q\<rparr>))"
    "conn_up ctl interest closed (leave c w (s\<lparr>loopq := q\<rparr>)) c"
proof -
  let ?s = "leave c w (s\<lparr>loopq := q\<rparr>)" and ?q = "filter (\<lambda>f. functor_conn f = c) (q (conn_loop s c))"
  have e: "enter ?s c = w\<lparr>pending := []\<rparr>" using c sys_invD(2) [OF inv] by (subst enter_leave) simp_all
  have cq: "cq ?s c = ?q @ map (ConnFn c) (pending w)" by (simp add: cq_leave)
  have sub: "set ?q \<subseteq> set (cq s c)" using q(1) by (auto simp: queue_step_def cq_def)
  have "conn_inv ctl interest (w\<lparr>pending := []\<rparr>)" using conn_invD [OF w(1)] by (intro conn_invI) auto
  moreover have "raw_first (cq ?s c)"
  proof (cases "\<exists>d. DestroyedFn d \<in> set ?q")
    case True
    then have "DestroyedFn c \<in> set (cq s c)" using sub by auto
    then have "state (cn (conns s ! c)) \<noteq> kConnected" using up by (auto simp: conn_up_def split: if_splits)
    then show ?thesis using q(2) pend by (auto simp: cq raw_first_append list_all_iff holds_ref_raw_first)
  qed (use q(2) in \<open>auto simp: cq raw_first_append raw_first_conn\<close>)
  moreover have "ConnFn c ShutdownInLoopFn \<in> set (cq ?s c) \<Longrightarrow> state (cn w) \<noteq> kConnected"
    using up sub st(2) conn_invD(9) [OF w(1)] by (auto simp: cq conn_up_def)
  moreover have "DestroyedFn c \<in> set ?q \<longleftrightarrow> DestroyedFn c \<in> set (cq s c)" using sub q(3) by auto
  moreover have "EstablishedFn c \<notin> set (cq ?s c)" using up sub by (auto simp: cq conn_up_def)
  ultimately show up': "conn_up ctl interest closed ?s c"
    using up w(5) st(1) by (auto simp: conn_up_def e cq split: if_splits)
  have "conn_ok ctl interest closed ?s c"
    using up' w(2,4) by (simp add: conn_ok_def e)
  then show "sys_inv ctl interest (if closed then {c} else {}) ?s"
    using up_alive [OF sys_invD(1) [OF inv] c up] conn_invD(1) [OF w(1)] w(3)
    by (intro leave_inv [OF inv c _ q(1)]) auto
qed

subsection \<open>Removal\<close>

lemma removeConnectionInLoop_eq:
  assumes "c < length (conn_objs s)"
  shows "removeConnectionInLoop c s = Inr (s\<lparr>connections := (connections s)(co_name (conn_objs s ! c) := None),
    io_calls := io_calls s @ [(co_loop (conn_objs s ! c), ConnectionDestroyed c)]\<rparr>)"
proof -
  have "take 1 (drop c (conn_objs s)) = [conn_objs s ! c]" using assms by (simp add: take_Suc hd_drop_conv_nth)
  then show ?thesis using assms by (simp add: removeConnectionInLoop_def read_range_def)
qed

text \<open>
  \<open>removeConnectionInLoop\<close> for a connection that is down; \<open>calls'\<close> are the functors of the base loop while it
  runs.
\<close>

lemma sys_removeConnectionInLoop_ok:
  fixes s :: "'k system"
  assumes inv: "sys_inv ctl interest Y s" and Y: "Y \<subseteq> {c}" and c: "c < conn_count s" "alive s c"
    and down: "state (cn (conns s ! c)) = kDisconnected" "\<not> conn_waits ctl interest s c"
    and calls': "set calls' \<subseteq> set (base_calls (srv s))"
      "\<And>d. d \<noteq> c \<Longrightarrow> RemoveConnectionInLoop d \<in> set (base_calls (srv s)) \<Longrightarrow> RemoveConnectionInLoop d \<in> set calls'"
  shows "\<exists>s'. sys_removeConnectionInLoop c (s\<lparr>srv := (srv s)\<lparr>base_calls := calls'\<rparr>\<rparr>) = Inr s' \<and>
    sys_inv ctl interest {} s' \<and> conns s' = conns s \<and> conn_objs (srv s') = conn_objs (srv s) \<and> poller_at s' = poller_at s"
proof -
  let ?r = "(srv s)\<lparr>base_calls := calls', connections := (connections (srv s))(co_name (conn_objs (srv s) ! c) := None),
    io_calls := io_calls (srv s) @ [(conn_loop s c, ConnectionDestroyed c)]\<rparr>"
  let ?s = "s\<lparr>srv := ?r, loopq := (loopq s)(conn_loop s c := loopq s (conn_loop s c) @ [DestroyedFn c])\<rparr>"
  have run: "sys_removeConnectionInLoop c (s\<lparr>srv := (srv s)\<lparr>base_calls := calls'\<rparr>\<rparr>) = Inr ?s"
    using c(1) by (simp add: sys_removeConnectionInLoop_def removeConnectionInLoop_eq queue_fns_def conn_loop_def)
  have "server_inv ((srv s)\<lparr>base_calls := calls'\<rparr>)"
    using calls'(1) server_invD(9) [OF sys_invD(1) [OF inv]] by (intro server_inv_cong [OF sys_invD(1) [OF inv]]) auto
  from removeConnectionInLoop_ok [OF this, of c] have r: "server_inv ?r"
    using c(1) by (simp add: removeConnectionInLoop_eq conn_loop_def)
  have rem: "removed ?r = insert c (removed (srv s))" by (auto simp: removed_def)
  have poll: "poller_at ?s = poller_at s" by (simp add: poller_at_def fun_eq_iff)
  have e: "enter ?s c = enter s c" by (simp add: enter_def poller_at_def conn_loop_def)
  have cq: "cq ?s c = cq s c @ [DestroyedFn c]" by (simp add: cq_def conn_loop_def)
  have ok: "conn_ok ctl interest False ?s c"
  proof -
    have old: "conn_ok ctl interest (c \<in> Y) s c" by (rule sys_invD(7) [OF inv c(1)])
    have "conn_up ctl interest False ?s c" if "conn_up ctl interest (c \<in> Y) s c"
      using that down(1) unfolding conn_up_def e cq by (simp add: rem raw_first_append)
    moreover have "conn_gone ?s c" if "conn_gone s c"
      using that unfolding conn_gone_def e cq by (simp add: rem)
    ultimately show ?thesis using old down(2) unfolding conn_ok_def e by auto
  qed
  have "sys_inv ctl interest {} ?s"
  proof (rule sys_inv_local [OF inv c(1)])
    show "removing ?s d \<longleftrightarrow> removing s d" if "d \<noteq> c" for d
      using that calls' by (auto simp: removing_def)
    show "l = conn_loop s c" if "f \<in> set (loopq ?s l)" "functor_conn f = c" for l f
      using that queues_okD [OF sys_invD(4) [OF inv], of f l] by (auto split: if_splits)
    show "d \<in> {} \<longleftrightarrow> d \<in> Y" if "d \<noteq> c" for d using that Y by auto
    show "poller_ready ctl interest (poller_at ?s l)" "chan (poller_at ?s l) d = chan (poller_at s l) d" for l d
      using sys_invD(3) [OF inv] by (simp_all only: poll)
  qed (use r rem ok c sys_invD(2) [OF inv] in \<open>simp_all\<close>)
  then show ?thesis using run poll by auto
qed

lemma sys_removeConnection_ok:
  fixes s :: "'k system"
  assumes inv: "sys_inv ctl interest Y s" and Y: "Y \<subseteq> {c}" and c: "c < conn_count s"
    and up: "conn_up ctl interest True s c" and down: "state (cn (conns s ! c)) = kDisconnected"
  shows "\<exists>s'. sys_removeConnection c s = Inr s' \<and> sys_inv ctl interest {} s' \<and> conns s' = conns s \<and>
    conn_objs (srv s') = conn_objs (srv s) \<and> poller_at s' = poller_at s"
proof (cases "conn_loop s c = srv_loop (srv s)")
  case True
  have "\<not> conn_waits ctl interest s c" using down by (simp add: conn_waits_def Let_def)
  from sys_removeConnectionInLoop_ok [OF inv Y c up_alive [OF sys_invD(1) [OF inv] c up] down this subset_refl]
  show ?thesis using True by (simp add: sys_removeConnection_def)
next
  case False
  let ?r = "(srv s)\<lparr>base_calls := base_calls (srv s) @ [RemoveConnectionInLoop c]\<rparr>"
  let ?s = "s\<lparr>srv := ?r\<rparr>"
  have r: "server_inv ?r"
    using c server_invD(9) [OF sys_invD(1) [OF inv]] by (intro server_inv_cong [OF sys_invD(1) [OF inv]]) auto
  have poll: "poller_at ?s = poller_at s" by (simp add: poller_at_def fun_eq_iff)
  have e: "enter ?s c = enter s c" "cq ?s c = cq s c" "removed ?r = removed (srv s)" "removing ?s c"
    by (simp_all add: enter_def poller_at_def conn_loop_def cq_def removed_def removing_def)
  have ok: "conn_ok ctl interest False ?s c"
    using sys_invD(7) [OF inv c] up down unfolding conn_ok_def e by (auto simp: conn_up_def e)
  have "sys_inv ctl interest {} ?s"
  proof (rule sys_inv_local [OF inv c])
    show "removing ?s d \<longleftrightarrow> removing s d" if "d \<noteq> c" for d using that by (auto simp: removing_def)
    show "l = conn_loop s c" if "f \<in> set (loopq ?s l)" "functor_conn f = c" for l f
      using that queues_okD [OF sys_invD(4) [OF inv], of f l] by auto
    show "d \<in> {} \<longleftrightarrow> d \<in> Y" if "d \<noteq> c" for d using that Y by auto
    show "alive s c" by (rule up_alive [OF sys_invD(1) [OF inv] c up])
  qed (use r e ok c sys_invD [OF inv] in \<open>simp_all add: poll\<close>)
  then show ?thesis using False poll by (auto simp: sys_removeConnection_def removeConnection_def)
qed

lemma sys_removals_ok:
  fixes s :: "'k system"
  assumes "sys_inv ctl interest (if 0 < k then {c} else {}) s" "c < conn_count s" "conn_up ctl interest (0 < k) s c"
    "0 < k \<Longrightarrow> state (cn (conns s ! c)) = kDisconnected"
  shows "\<exists>s'. sys_removals k c s = Inr s' \<and> sys_inv ctl interest {} s' \<and> conns s' = conns s \<and>
    conn_objs (srv s') = conn_objs (srv s) \<and> poller_at s' = poller_at s"
  using assms
proof (induction k arbitrary: s)
  case 0
  then show ?case by simp
next
  case (Suc k)
  obtain s1 where s1: "sys_removeConnection c s = Inr s1" "sys_inv ctl interest {} s1" "conns s1 = conns s"
      "conn_objs (srv s1) = conn_objs (srv s)" "poller_at s1 = poller_at s"
    using sys_removeConnection_ok [OF Suc.prems(1)] Suc.prems(2-4) by auto
  have ok: "conn_ok ctl interest False s1 c" using sys_invD(7) [OF s1(2), of c] Suc.prems(2) s1(4) by simp
  have "ch_index (chan (poller_at s1 (conn_loop s1 c)) (conn_chan c)) \<noteq> kNew"
    using up_registered [of ctl interest True s c] sys_invD(7) [OF Suc.prems(1,2)] Suc.prems(3) s1(4,5)
    by (simp add: conn_loop_def)
  then have up: "conn_up ctl interest False s1 c" by (rule registered_up [OF ok])
  have "sys_inv ctl interest (if 0 < k then {c} else {}) s1" "conn_up ctl interest (0 < k) s1 c"
    using sys_inv_closing [OF s1(2)] conn_up_closing [OF up] by auto
  from Suc.IH [OF this(1) _ this(2)] Suc.prems s1 show ?case by auto
qed

end
