(* ===== verification/Net_Lifetime.thy ===== *)
theory Net_Lifetime
  imports Net_System
begin

text \<open>
  The steps of a server with its loops and connections keep the invariant of \<open>Net_System\<close>: no step uses a
  connection after its end. The one exception is shown as well: \<open>send\<close> on a thread other than the
  loop's, interrupted between its test of the state and its \<open>queueInLoop\<close>.
\<close>

section \<open>Code of a connection\<close>

lemma frame_calls:
  assumes "conn_frame w w'"
  obtains cs where "calls w' = calls w @ cs"
    "state (cn w') = kDisconnected \<longleftrightarrow> state (cn w) = kDisconnected \<or> CloseCall \<in> set cs"
  using assms by (auto simp: conn_frame_def)

lemma filter_close: "0 < length (filter (\<lambda>x. x = CloseCall) cs) \<longleftrightarrow> CloseCall \<in> set cs"
  by (auto simp: filter_empty_conv)

lemma conn_ok_base:
  assumes "conn_ok ctl interest b s c"
  shows "tc_channel (cn (conns s ! c)) = conn_chan c" "pending (conns s ! c) = []"
    "ch_fd (chan (poller_at s (conn_loop s c)) (conn_chan c)) = co_fd (conn_objs (srv s) ! c)"
  using assms by (auto simp: conn_ok_def)

text \<open>
  Code of a connection the poller knows; what it queues holds a pointer, or the connection was up when the
  code was started.
\<close>

lemma conn_do_raw:
  fixes s :: "'k system"
  assumes inv: "sys_inv ctl interest {} s" and c: "c < conn_count s" and up: "conn_up ctl interest False s c"
    and q: "queue_step s c q" "raw_first (filter (\<lambda>f. functor_conn f = c) (q (conn_loop s c)))"
      "DestroyedFn c \<in> set (cq s c) \<Longrightarrow> DestroyedFn c \<in> set (q (conn_loop s c))"
    and w: "conn_inv ctl interest w" "conn_frame (enter s c) (w\<lparr>pending := []\<rparr>)"
    and pend: "list_all (\<lambda>f. holds_ref (ConnFn c f)) (pending w) \<or> state (cn (conns s ! c)) = kConnected"
  shows "\<exists>s'. conn_do c (Inr w) (s\<lparr>loopq := q\<rparr>) = Inr s' \<and> sys_inv ctl interest {} s'"
proof -
  note old = conn_ok_base [OF sys_invD(7) [OF inv c]]
  have tied: "ch_tied (chan (poller_at s (conn_loop s c)) (conn_chan c))" using up old(1) by (simp add: conn_up_def)
  obtain cs where cs: "calls w = calls (conns s ! c) @ cs"
      "state (cn w) = kDisconnected \<longleftrightarrow> state (cn (conns s ! c)) = kDisconnected \<or> CloseCall \<in> set cs"
    using frame_calls [OF w(2)] by auto
  let ?k = "length (filter (\<lambda>x. x = CloseCall) cs)"
  have "sys_inv ctl interest (if 0 < ?k then {c} else {}) (leave c w (s\<lparr>loopq := q\<rparr>))"
    "conn_up ctl interest (0 < ?k) (leave c w (s\<lparr>loopq := q\<rparr>)) c"
    using w(2) old tied cs(2) filter_close [of cs]
    by (intro up_step [OF inv c up q w(1) _ _ _ _ pend]; auto simp: conn_frame_def)+
  moreover have "state (cn (conns (leave c w (s\<lparr>loopq := q\<rparr>)) ! c)) = kDisconnected" if "0 < ?k"
    using that cs(2) filter_close [of cs] c sys_invD(2) [OF inv] by simp
  ultimately obtain s' where "sys_removals ?k c (leave c w (s\<lparr>loopq := q\<rparr>)) = Inr s'" "sys_inv ctl interest {} s'"
    using sys_removals_ok [of ctl interest ?k c "leave c w (s\<lparr>loopq := q\<rparr>)"] c by auto
  then show ?thesis using cs(1) by (simp add: conn_do_def)
qed

lemma conn_do_up:
  fixes s :: "'k system"
  assumes inv: "sys_inv ctl interest {} s" and c: "c < conn_count s" and up: "conn_up ctl interest False s c"
    and q: "queue_step s c q" "raw_first (filter (\<lambda>f. functor_conn f = c) (q (conn_loop s c)))"
      "DestroyedFn c \<in> set (cq s c) \<Longrightarrow> DestroyedFn c \<in> set (q (conn_loop s c))"
    and w: "conn_inv ctl interest w" "conn_frame (enter s c) w"
  shows "\<exists>s'. conn_do c (Inr w) (s\<lparr>loopq := q\<rparr>) = Inr s' \<and> sys_inv ctl interest {} s'"
proof (rule conn_do_raw [OF inv c up q w(1)])
  note old = conn_ok_base(2) [OF sys_invD(7) [OF inv c]]
  show "conn_frame (enter s c) (w\<lparr>pending := []\<rparr>)"
    using w(2) old by (auto simp: conn_frame_def)
  show "list_all (\<lambda>f. holds_ref (ConnFn c f)) (pending w) \<or> state (cn (conns s ! c)) = kConnected"
    using w(2) old by (auto simp: conn_frame_def)
qed

text \<open>Code that does not touch the poller and does not change the phase of the connection.\<close>

lemma conn_do_quiet:
  fixes s :: "'k system"
  assumes inv: "sys_inv ctl interest {} s" and c: "c < conn_count s" "alive s c" and q: "queue_step s c q"
    and w: "poller w = poller_at s (conn_loop s c)" "calls w = calls (conns s ! c) @ cs" "CloseCall \<notin> set cs"
    and ok: "conn_ok ctl interest False (leave c w (s\<lparr>loopq := q\<rparr>)) c"
  shows "\<exists>s'. conn_do c (Inr w) (s\<lparr>loopq := q\<rparr>) = Inr s' \<and> sys_inv ctl interest {} s'"
proof -
  have "filter (\<lambda>x. x = CloseCall) cs = []" using w(3) by (auto simp: filter_empty_conv)
  then have "conn_do c (Inr w) (s\<lparr>loopq := q\<rparr>) = Inr (leave c w (s\<lparr>loopq := q\<rparr>))"
    using w(2) by (simp add: conn_do_def)
  moreover have "sys_inv ctl interest {} (leave c w (s\<lparr>loopq := q\<rparr>))"
    using w(1) ok sys_invD(3) [OF inv] by (intro leave_inv [OF inv c q]) auto
  ultimately show ?thesis by simp
qed

subsection \<open>Events\<close>

lemma conn_callbacks_run: "conn_callbacks ctl io cbs w = conn_run ctl (map (\<lambda>cb. (callback_op cb, io)) cbs) w"
proof (induction cbs arbitrary: w)
  case (Cons cb cbs)
  have "conn_exec ctl (callback_op cb, io) w = conn_callback ctl io cb w" by (cases cb) simp_all
  with Cons show ?case by (cases "conn_callback ctl io cb w") simp_all
qed simp

lemma report_event_frame: "conn_frame w (report_event ev w)"
  by (rule conn_frameI [where q = "[]" and cs = "[]"]) (auto simp: report_event_def set_chan_def)

lemma report_event_inv:
  assumes "conn_inv ctl interest w"
  shows "conn_inv ctl interest (report_event ev w)"
proof -
  have "poller_ready ctl interest (poller (report_event ev w))"
    using revents_ready [OF conn_invD(1) [OF assms]] by (simp add: report_event_def)
  then show ?thesis
    using conn_invD [OF assms] by (intro conn_invI) (auto simp: report_event_def set_chan_def isWriting_def)
qed

lemma sys_event_ok:
  assumes inv: "sys_inv ctl interest {} s" and pre: "sys_pre ctl (SysEvent c ev io t) s"
  shows "\<exists>s'. sys_exec ctl (SysEvent c ev io t) s = Inr s' \<and> sys_inv ctl interest {} s'"
proof -
  have c: "c < conn_count s" and reg: "ch_index (chan (poller_at s (conn_loop s c)) (conn_chan c)) \<noteq> kNew"
    using pre by auto
  have up: "conn_up ctl interest False s c" and alive: "alive s c"
    using registered_alive(3,4) [OF inv reg] by simp_all
  let ?w = "report_event ev (enter s c)"
  let ?cbs = "handleEvent (channel_of ?w) True t"
  have "conn_inv ctl interest ?w" using up by (intro report_event_inv) (simp add: conn_up_def)
  then obtain w where w: "conn_callbacks ctl io ?cbs ?w = Inr w" "conn_inv ctl interest w"
    using conn_run_ok [of ctl interest ?w "map (\<lambda>cb. (callback_op cb, io)) ?cbs"] pre
    by (auto simp: conn_callbacks_run Let_def)
  have "conn_frame (enter s c) w"
    by (rule conn_frame_trans [OF report_event_frame conn_callbacks_frame [OF w(1)]])
  moreover have "raw_first (filter (\<lambda>f. functor_conn f = c) (loopq s (conn_loop s c)))"
    using up by (simp add: conn_up_def cq_def)
  ultimately obtain s' where "conn_do c (Inr w) (s\<lparr>loopq := loopq s\<rparr>) = Inr s'" "sys_inv ctl interest {} s'"
    using conn_do_up [OF inv c up queue_step_refl _ _ w(2)] by (auto simp: cq_def)
  then show ?thesis using w(1) alive by (simp add: touch_def conn_event_def)
qed

subsection \<open>Functors\<close>

lemma cq_head:
  assumes "queues_ok s" "loopq s l = f # fs"
  shows "conn_loop s (functor_conn f) = l" "functor_conn f < conn_count s"
    "cq s (functor_conn f) = f # filter (\<lambda>g. functor_conn g = functor_conn f) fs"
  using queues_okD [OF assms(1), of f l] assms(2) by (auto simp: cq_def)

lemma conn_functor_up:
  assumes "conn_inv ctl interest w" "pending w = []" "f = ShutdownInLoopFn \<Longrightarrow> state (cn w) \<noteq> kConnected"
    "\<And>data. f = SendInLoopFn data \<Longrightarrow> send_pre io data w"
  shows "\<exists>w'. conn_functor_run ctl io f w = Inr w' \<and> conn_inv ctl interest w'"
proof -
  let ?w = "w\<lparr>pending := [f]\<rparr>"
  have "conn_inv ctl interest ?w" using conn_invD [OF assms(1)] assms(3) by (intro conn_invI) auto
  moreover have "conn_pre (RunFunctor, io) ?w" using assms(4) by (cases f) (simp_all add: send_pre_def)
  moreover have "?w\<lparr>pending := []\<rparr> = w" using assms(2) by simp
  ultimately show ?thesis using conn_functor_step [of ctl interest ?w io] by auto
qed

lemma run_functor_up:
  fixes s :: "'k system"
  assumes inv: "sys_inv ctl interest {} s" and q: "loopq s l = ConnFn c f # fs"
    and pre: "sys_pre ctl (SysLoop l io) s" and up: "conn_up ctl interest False s c"
  shows "\<exists>s'. sys_functor_run ctl io (ConnFn c f) (s\<lparr>loopq := (loopq s)(l := fs)\<rparr>) = Inr s' \<and> sys_inv ctl interest {} s'"
proof -
  note head = cq_head [OF sys_invD(4) [OF inv] q, simplified]
  have c: "c < conn_count s" and l: "conn_loop s c = l" and cq: "cq s c = ConnFn c f # filter (\<lambda>g. functor_conn g = c) fs"
    using head by simp_all
  have "send_pre io data (enter s c)" if "f = SendInLoopFn data" for data using pre q that by simp
  moreover have "state (cn (enter s c)) \<noteq> kConnected" if "f = ShutdownInLoopFn"
    using up cq that by (simp add: conn_up_def)
  moreover have "conn_inv ctl interest (enter s c)" using up by (simp add: conn_up_def)
  ultimately obtain w where w: "conn_functor_run ctl io f (enter s c) = Inr w" "conn_inv ctl interest w"
    using conn_functor_up [of ctl interest "enter s c" f io] conn_ok_base(2) [OF sys_invD(7) [OF inv c]] by fastforce
  have "raw_first (filter (\<lambda>g. functor_conn g = c) fs)" using up cq by (simp add: conn_up_def)
  then have "\<exists>s'. conn_do c (Inr w) (s\<lparr>loopq := (loopq s)(l := fs)\<rparr>) = Inr s' \<and> sys_inv ctl interest {} s'"
    using queue_step_pop [OF q] cq l
    by (intro conn_do_up [OF inv c up _ _ _ w(2) conn_functor_run_frame [OF w(1)]]) (auto simp: cq_def)
  then show ?thesis using w(1) by simp
qed

lemma run_functor_gone:
  fixes s :: "'k system"
  assumes inv: "sys_inv ctl interest {} s" and q: "loopq s l = ConnFn c f # fs"
    and gone: "conn_gone s c" and alive: "alive s c"
  shows "\<exists>s'. sys_functor_run ctl io (ConnFn c f) (s\<lparr>loopq := (loopq s)(l := fs)\<rparr>) = Inr s' \<and> sys_inv ctl interest {} s'"
proof -
  note head = cq_head [OF sys_invD(4) [OF inv] q, simplified]
  have c: "c < conn_count s" and l: "conn_loop s c = l" and cq: "cq s c = ConnFn c f # filter (\<lambda>g. functor_conn g = c) fs"
    using head by simp_all
  have "holds_ref (ConnFn c f)" using gone cq by (simp add: conn_gone_def)
  then obtain x where x: "conn_functor_run ctl io f (enter s c) = Inr (conn_calls [x] (enter s c))" "x \<noteq> CloseCall"
    by (cases f) auto
  let ?w = "conn_calls [x] (enter s c)" and ?q = "(loopq s)(l := fs)"
  have len: "c < length (conns (s\<lparr>loopq := ?q\<rparr>))" using c sys_invD(2) [OF inv] by simp
  note old = conn_ok_base [OF sys_invD(7) [OF inv c]]
  have "conn_gone (leave c ?w (s\<lparr>loopq := ?q\<rparr>)) c"
    using gone cq l old(2) unfolding conn_gone_def enter_leave [OF len] cq_leave by (simp add: conn_calls_def)
  then have "conn_ok ctl interest False (leave c ?w (s\<lparr>loopq := ?q\<rparr>)) c"
    using old unfolding conn_ok_def enter_leave [OF len] by (simp add: conn_calls_def)
  moreover have "queue_step s c ?q" using queue_step_pop [OF q] by simp
  ultimately have "\<exists>s'. conn_do c (Inr ?w) (s\<lparr>loopq := ?q\<rparr>) = Inr s' \<and> sys_inv ctl interest {} s'"
    using x(2) by (intro conn_do_quiet [OF inv c alive, where cs = "[x]"]) (auto simp: conn_calls_def)
  then show ?thesis using x(1) by simp
qed

lemma connectionEstablished_frame:
  assumes "connectionEstablished ctl w = Inr w'"
  shows "tc_channel (cn w') = tc_channel (cn w)"
    "d \<noteq> tc_channel (cn w) \<Longrightarrow> chan (poller w') d = chan (poller w) d" "ch_fd (channel_of w') = ch_fd (channel_of w)"
  using assms set_interest_frame [of ctl EnableReading "tc_channel (cn w)" "set_chan (tc_channel (cn w)) Channel_tie (poller w)"]
  by (auto simp: connectionEstablished_def conn_interest_def conn_simps rbind_eq_Inr Let_def set_chan_def Channel_tie_def)

lemma waits_fresh:
  assumes inv: "sys_inv ctl interest {} s" and c: "c < conn_count s" and wait: "conn_waits ctl interest s c"
  shows "conn_fresh ctl interest (enter s c)" "alive s c"
proof -
  show alive: "alive s c" using wait c unfolding alive_iff [OF sys_invD(1) [OF inv]] by (simp add: conn_waits_def)
  note old = conn_ok_base [OF sys_invD(7) [OF inv c]]
  have new: "ch_index (chan (poller_at s (conn_loop s c)) (conn_chan c)) = kNew"
    using wait old(1) by (simp add: conn_waits_def Let_def)
  show "conn_fresh ctl interest (enter s c)"
    using wait old sys_invD(3) [OF inv] fd_free [OF inv alive new]
    by (simp add: conn_fresh_def conn_waits_def Let_def)
qed

lemma established_step:
  fixes s :: "'k system"
  assumes inv: "sys_inv ctl interest {} s" and c: "c < conn_count s" and wait: "conn_waits ctl interest s c"
    and q: "queue_step s c q" "filter (\<lambda>f. functor_conn f = c) (q (conn_loop s c)) = []"
  shows "\<exists>s'. conn_do c (connectionEstablished ctl (enter s c)) (s\<lparr>loopq := q\<rparr>) = Inr s' \<and> sys_inv ctl interest {} s'"
proof -
  note old = conn_ok_base [OF sys_invD(7) [OF inv c]] and fresh = waits_fresh [OF inv c wait]
  obtain w where w: "connectionEstablished ctl (enter s c) = Inr w" "conn_inv ctl interest w" "state (cn w) = kConnected"
      "pending w = []" "ch_tied (channel_of w)" "calls w = calls (conns s ! c) @ [ConnectionCall kConnected]"
    using connectionEstablished_ok [OF fresh(1)] by auto
  note frame = connectionEstablished_frame [OF w(1), simplified old enter_simps]
  have len: "c < length (conns (s\<lparr>loopq := q\<rparr>))" using c sys_invD(2) [OF inv] by simp
  have "cq (leave c w (s\<lparr>loopq := q\<rparr>)) c = []" using q(2) w(4) by (simp add: cq_leave)
  moreover have "conn_inv ctl interest (w\<lparr>pending := []\<rparr>)" using conn_invD [OF w(2)] by (intro conn_invI) auto
  ultimately have "conn_up ctl interest False (leave c w (s\<lparr>loopq := q\<rparr>)) c"
    using w wait unfolding conn_up_def enter_leave [OF len] by (simp add: conn_waits_def)
  then have "conn_ok ctl interest False (leave c w (s\<lparr>loopq := q\<rparr>)) c"
    using frame unfolding conn_ok_def enter_leave [OF len] by simp
  then have "sys_inv ctl interest {} (leave c w (s\<lparr>loopq := q\<rparr>))"
    using frame conn_invD(1) [OF w(2)] by (intro leave_inv [OF inv c fresh(2) q(1)]) auto
  then show ?thesis using w(1,6) by (simp add: conn_do_def)
qed

text \<open>\<open>connectionDestoryed\<close>, the first time and again.\<close>

lemma destroyed_result:
  assumes inv: "sys_inv ctl interest {} s" and c: "c < conn_count s" "alive s c"
    and st: "state (cn (conns s ! c)) = kDisconnected"
  shows "\<exists>p. connectionDestoryed ctl (enter s c) = Inr ((enter s c)\<lparr>poller := p\<rparr>) \<and> poller_ready ctl interest p \<and>
    chan p = (chan (poller_at s (conn_loop s c)))(conn_chan c := (chan (poller_at s (conn_loop s c)) (conn_chan c))\<lparr>ch_index := kNew\<rparr>)"
proof -
  let ?p = "poller_at s (conn_loop s c)"
  note old = conn_ok_base [OF sys_invD(7) [OF inv c(1)]]
  have run: "connectionDestoryed ctl (enter s c) =
      rbind (removeChannel ctl (conn_chan c) ?p) (\<lambda>p. Inr ((enter s c)\<lparr>poller := p\<rparr>))"
    using st old(1) by (simp add: connectionDestoryed_def)
  show ?thesis
  proof (cases "ch_index (chan ?p (conn_chan c)) = kNew")
    case False
    then show ?thesis using epoll.remove_ok [OF sys_invD(3) [OF inv] False] run by fastforce
  next
    case True
    have "channels ?p (ch_fd (chan ?p (conn_chan c))) = None" using fd_free [OF inv c(2) True] old(3) by simp
    then have none: "(channels ?p)(ch_fd (chan ?p (conn_chan c)) := None) = channels ?p" by (rule fun_upd_idem)
    have same: "(chan ?p (conn_chan c))\<lparr>ch_index := kNew\<rparr> = chan ?p (conn_chan c)" using True by simp
    have "removeChannel ctl (conn_chan c) ?p = Inr ?p"
      using True by (simp add: removeChannel_def none set_chan_def same)
    then show ?thesis using run sys_invD(3) [OF inv] by (auto simp: same)
  qed
qed

lemma destroyed_step:
  fixes s :: "'k system"
  assumes inv: "sys_inv ctl interest {} s" and q: "loopq s l = DestroyedFn c # fs"
  shows "\<exists>s'. sys_functor_run ctl io (DestroyedFn c) (s\<lparr>loopq := (loopq s)(l := fs)\<rparr>) = Inr s' \<and> sys_inv ctl interest {} s'"
proof -
  note head = cq_head [OF sys_invD(4) [OF inv] q, simplified]
  have c: "c < conn_count s" and l: "conn_loop s c = l" and cq: "cq s c = DestroyedFn c # filter (\<lambda>g. functor_conn g = c) fs"
    using head by simp_all
  have alive: "alive s c" using c cq unfolding alive_iff [OF sys_invD(1) [OF inv]] by simp
  note old = conn_ok_base [OF sys_invD(7) [OF inv c]]
  have st: "state (cn (conns s ! c)) = kDisconnected" and rem: "c \<in> removed (srv s)"
    and rest: "EstablishedFn c \<notin> set (cq s c)" "list_all holds_ref (filter (\<lambda>g. functor_conn g = c) fs)"
    using sys_invD(7) [OF inv c] cq by (auto simp: conn_ok_def conn_waits_def conn_up_def conn_gone_def split: if_splits)
  obtain p where p: "connectionDestoryed ctl (enter s c) = Inr ((enter s c)\<lparr>poller := p\<rparr>)" "poller_ready ctl interest p"
      "chan p = (chan (poller_at s (conn_loop s c)))(conn_chan c := (chan (poller_at s (conn_loop s c)) (conn_chan c))\<lparr>ch_index := kNew\<rparr>)"
    using destroyed_result [OF inv c alive st] by blast
  let ?q = "(loopq s)(l := fs)" and ?w = "(enter s c)\<lparr>poller := p\<rparr>"
  have len: "c < length (conns (s\<lparr>loopq := ?q\<rparr>))" using c sys_invD(2) [OF inv] by simp
  have "conn_gone (leave c ?w (s\<lparr>loopq := ?q\<rparr>)) c"
    using rest cq l old st rem p(3) unfolding conn_gone_def enter_leave [OF len] cq_leave by simp
  then have "conn_ok ctl interest False (leave c ?w (s\<lparr>loopq := ?q\<rparr>)) c"
    using old p(3) unfolding conn_ok_def enter_leave [OF len] by simp
  moreover have "queue_step s c ?q" using queue_step_pop [OF q] by simp
  ultimately have "sys_inv ctl interest {} (leave c ?w (s\<lparr>loopq := ?q\<rparr>))"
    using p(2,3) by (intro leave_inv [OF inv c alive]) auto
  then show ?thesis using p(1) by (simp add: conn_do_def)
qed

lemma sys_loop_ok:
  assumes inv: "sys_inv ctl interest {} s" and pre: "sys_pre ctl (SysLoop l io) s"
  shows "\<exists>s'. sys_exec ctl (SysLoop l io) s = Inr s' \<and> sys_inv ctl interest {} s'"
proof (cases "loopq s l")
  case Nil
  then show ?thesis using inv by simp
next
  case (Cons f fs)
  let ?c = "functor_conn f"
  note head = cq_head [OF sys_invD(4) [OF inv] Cons]
  have ok: "conn_ok ctl interest False s ?c" using sys_invD(7) [OF inv head(2)] by simp
  have alive: "alive s ?c"
  proof (cases "holds_ref f")
    case True
    then show ?thesis using head(2,3) unfolding alive_iff [OF sys_invD(1) [OF inv]] by simp
  next
    case False
    then have "conn_up ctl interest False s ?c"
      using ok head(3) by (cases f) (auto simp: conn_ok_def conn_waits_def conn_gone_def)
    then show ?thesis by (rule up_alive [OF sys_invD(1) [OF inv] head(2)])
  qed
  have "\<exists>s'. sys_functor_run ctl io f (s\<lparr>loopq := (loopq s)(l := fs)\<rparr>) = Inr s' \<and> sys_inv ctl interest {} s'"
  proof (cases f)
    case (EstablishedFn c)
    then have wait: "conn_waits ctl interest s c"
      using ok head(3) by (auto simp: conn_ok_def conn_up_def conn_gone_def)
    then have "filter (\<lambda>g. functor_conn g = c) fs = []" using head(3) EstablishedFn by (simp add: conn_waits_def)
    then show ?thesis
      using established_step [OF inv _ wait, of "(loopq s)(l := fs)"] queue_step_pop [OF Cons] head EstablishedFn by simp
  next
    case (DestroyedFn c)
    then show ?thesis using destroyed_step [OF inv, of l c fs io] Cons by simp
  next
    case (ConnFn c g)
    then have "\<not> conn_waits ctl interest s c" using head(3) by (auto simp: conn_waits_def)
    then consider "conn_up ctl interest False s c" | "conn_gone s c" using ok ConnFn by (auto simp: conn_ok_def)
    then show ?thesis
    proof cases
      case 1
      show ?thesis unfolding ConnFn by (rule run_functor_up [OF inv _ pre 1]) (use Cons ConnFn in simp)
    next
      case 2
      show ?thesis unfolding ConnFn by (rule run_functor_gone [OF inv _ 2]) (use Cons ConnFn alive in simp_all)
    qed
  qed
  then show ?thesis using Cons alive by (simp add: touch_def)
qed

subsection \<open>User code\<close>

lemma user_op_frame:
  assumes run: "conn_exec ctl (oper, io) w = Inr w'" and user: "user_op oper" and none: "pending w = []"
  shows "conn_frame w (w'\<lparr>pending := []\<rparr>)"
    "list_all (\<lambda>f. holds_ref (ConnFn c f)) (pending w') \<or> state (cn w) = kConnected"
proof -
  have drop: "conn_frame w (v\<lparr>pending := []\<rparr>)" if "conn_frame w v" for v :: "'a conn_env"
    using that none by (auto simp: conn_frame_def)
  have down: "conn_frame w (setState kDisconnecting w)" if "state (cn w) = kConnected"
    using that by (intro conn_frameI [where q = "[]" and cs = "[]"]) (auto simp: setState_def)
  have queued: "(conn_queue f v)\<lparr>pending := []\<rparr> = v\<lparr>pending := []\<rparr>" for f and v :: "'a conn_env"
    by (simp add: conn_queue_def)
  show "conn_frame w (w'\<lparr>pending := []\<rparr>)"
  proof (cases oper)
    case (UserSend inLoop data)
    then show ?thesis
      using run drop [OF conn_frame_refl] by (auto simp: conn_send_def queued intro: drop [OF sendInLoop_frame] split: if_splits)
  next
    case (UserShutdown inLoop)
    then show ?thesis
      using run drop [OF conn_frame_refl] drop [OF down] drop [OF conn_frame_trans [OF down shutdownInLoop_frame]]
      by (auto simp: conn_shutdown_def queued Let_def split: if_splits)
  next
    case (UserRetrieve n)
    then show ?thesis using run by (intro quiet_frame [where q = "[]" and cs = "[]"]) (auto simp: none)
  next
    case (UserHighWaterMark cb mark)
    then show ?thesis
      using run by (intro quiet_frame [where q = "[]" and cs = "[]"]) (auto simp: none setHighWaterMarkCallback_def)
  qed (use user in auto)
  show "list_all (\<lambda>f. holds_ref (ConnFn c f)) (pending w') \<or> state (cn w) = kConnected"
    using run user none by (cases oper) (auto simp: conn_send_def conn_shutdown_def split: if_splits)
qed

text \<open>
  User code on a connection that is not up yet or not any more changes at most the input buffer and the
  high-water mark.
\<close>

lemma user_op_idle:
  assumes "user_op oper" "state (cn w) \<noteq> kConnected"
  shows "\<exists>n. conn_exec ctl (oper, io) w = Inr (w\<lparr>cn := n\<rparr>) \<and> tc_channel n = tc_channel (cn w) \<and> state n = state (cn w) \<and>
    outputBuffer n = outputBuffer (cn w) \<and> (Buffer_inv (inputBuffer (cn w)) \<longrightarrow> Buffer_inv (inputBuffer n))"
  using assms retrieve_ok(1) [of "inputBuffer (cn w)"]
  by (cases oper) (auto simp: conn_send_def conn_shutdown_def setHighWaterMarkCallback_def intro: exI [of _ "cn w"])

lemma sys_user_ok:
  fixes s :: "'k system"
  assumes inv: "sys_inv ctl interest {} s" and pre: "sys_pre ctl (SysUser c oper io) s"
  shows "\<exists>s'. sys_exec ctl (SysUser c oper io) s = Inr s' \<and> sys_inv ctl interest {} s'"
proof -
  have user: "user_op oper" and alive: "alive s c" and mem: "conn_pre (oper, io) (enter s c)" using pre by auto
  have c: "c < conn_count s" using alive by (simp add: alive_def)
  note old = conn_ok_base [OF sys_invD(7) [OF inv c]]
  have "\<exists>s'. conn_do c (conn_exec ctl (oper, io) (enter s c)) (s\<lparr>loopq := loopq s\<rparr>) = Inr s' \<and> sys_inv ctl interest {} s'"
  proof (cases "conn_up ctl interest False s c")
    case up: True
    have "conn_inv ctl interest (enter s c)" using up by (simp add: conn_up_def)
    then obtain w where w: "conn_exec ctl (oper, io) (enter s c) = Inr w" "conn_inv ctl interest w"
      using conn_step [OF _ mem] by blast
    have "raw_first (filter (\<lambda>f. functor_conn f = c) (loopq s (conn_loop s c)))"
      using up by (simp add: conn_up_def cq_def)
    then show ?thesis
      unfolding w(1) using user_op_frame [OF w(1) user] old(2)
      by (intro conn_do_raw [OF inv c up queue_step_refl _ _ w(2)]) (auto simp: cq_def)
  next
    case False
    have len: "c < length (conns (s\<lparr>loopq := loopq s\<rparr>))" using c sys_invD(2) [OF inv] by simp
    have phase: "conn_waits ctl interest s c \<or> conn_gone s c" using False sys_invD(7) [OF inv c] by (auto simp: conn_ok_def)
    then have "state (cn (enter s c)) \<noteq> kConnected" by (auto simp: conn_waits_def conn_gone_def Let_def)
    from user_op_idle [OF user this] obtain n where
        b: "conn_exec ctl (oper, io) (enter s c) = Inr ((enter s c)\<lparr>cn := n\<rparr>)"
          "Buffer_inv (inputBuffer (cn (conns s ! c))) \<Longrightarrow> Buffer_inv (inputBuffer n)"
        and n: "tc_channel n = tc_channel (cn (conns s ! c))" "state n = state (cn (conns s ! c))"
          "outputBuffer n = outputBuffer (cn (conns s ! c))"
      by auto
    let ?w = "(enter s c)\<lparr>cn := n\<rparr>"
    let ?s = "leave c ?w (s\<lparr>loopq := loopq s\<rparr>)"
    have cq: "cq ?s c = cq s c" unfolding cq_leave using old(2) by (simp add: cq_def)
    have "conn_waits ctl interest s c \<Longrightarrow> conn_waits ctl interest ?s c" "conn_gone s c \<Longrightarrow> conn_gone ?s c"
      unfolding conn_waits_def conn_gone_def enter_leave [OF len] cq using b(2) n by (simp_all add: Let_def)
    with phase have "conn_ok ctl interest False ?s c"
      using old n unfolding conn_ok_def enter_leave [OF len] by auto
    then show ?thesis
      unfolding b(1) by (intro conn_do_quiet [OF inv c alive queue_step_refl, where cs = "[]"]) auto
  qed
  then show ?thesis using alive by (simp add: touch_def)
qed

section \<open>The server and its loops\<close>

text \<open>Steps that leave connections, their channels and their functors alone.\<close>

lemma sys_inv_cong:
  fixes s :: "'k system"
  assumes inv: "sys_inv ctl interest {} s"
    and srv: "server_inv (srv s')" "conn_objs (srv s') = conn_objs (srv s)" "removed (srv s') = removed (srv s)"
      "\<And>c. removing s' c \<longleftrightarrow> removing s c"
    and same: "conns s' = conns s" "loopq s' = loopq s" "infra_fds s' = infra_fds s"
    and ready: "\<And>l. poller_ready ctl interest (poller_at s' l)"
    and chan: "\<And>l c. chan (poller_at s' l) (conn_chan c) = chan (poller_at s l) (conn_chan c)"
    and ok: "channels_ok s'" "acceptor_ok s'" "\<And>c. alive s' c \<Longrightarrow> alive s c"
  shows "sys_inv ctl interest {} s'"
proof -
  have loop: "conn_loop s' = conn_loop s" by (simp add: conn_loop_def srv(2) fun_eq_iff)
  have "conn_ok ctl interest False s' c" if "c < conn_count s" for c
  proof -
    have "conn_ok ctl interest False s c" using sys_invD(7) [OF inv that] by simp
    then show ?thesis
      by (rule conn_ok_cong [OF _ _ _ chan ready]) (simp_all add: same srv loop cq_def)
  qed
  moreover have "fds_ok s'" using sys_invD(8) [OF inv] ok(3) by (simp add: fds_ok_def srv(2) same)
  moreover have "queues_ok s'" using sys_invD(4) [OF inv] by (simp add: queues_ok_def srv(2) same loop)
  ultimately show ?thesis using ok srv(1,2) ready sys_invD(2) [OF inv] by (simp add: sys_inv_def same)
qed

lemma sys_inv_held:
  assumes inv: "sys_inv ctl interest {} s" and new: "\<And>c. c \<in> set h \<Longrightarrow> c \<in> set (held s) \<or> alive s c"
  shows "sys_inv ctl interest {} (s\<lparr>held := h\<rparr>)"
proof -
  have eq: "poller_at (s\<lparr>held := h\<rparr>) = poller_at s" "conn_loop (s\<lparr>held := h\<rparr>) = conn_loop s"
    by (simp_all add: poller_at_def conn_loop_def fun_eq_iff)
  have "alive s c" if "alive (s\<lparr>held := h\<rparr>) c" for c
    using that new [of c] by (auto simp: alive_def eq)
  then show ?thesis
    using sys_invD [OF inv]
    by (intro sys_inv_cong [OF inv]) (simp_all add: eq channels_ok_def acceptor_ok_def removing_def)
qed

lemma sys_base_listen_ok:
  fixes s :: "'k system"
  assumes inv: "sys_inv ctl interest {} s" and q: "base_calls (srv s) = AcceptorListen # fs"
  shows "ends (range Fatal) (sys_inv ctl interest {}) (sys_exec ctl (SysBase answer) s)"
proof -
  let ?bp = "base_poller (srv s)" and ?acc = "acceptChannel (srv_acceptor (srv s))"
  have acc: "even ?acc" "ch_fd (chan ?bp ?acc) \<in> set (infra_fds s)"
      "\<And>d. even d \<Longrightarrow> ch_index (chan ?bp d) \<noteq> kNew \<Longrightarrow> ch_fd (chan ?bp d) = ch_fd (chan ?bp ?acc) \<Longrightarrow> d = ?acc"
    using sys_invD(6) [OF inv] unfolding acceptor_ok_def Let_def by blast+
  have ready: "poller_ready ctl interest ?bp" using sys_invD(3) [OF inv] by (simp add: base_poller_at)
  have "may_update ?bp ?acc"
  proof (cases "channels ?bp (ch_fd (chan ?bp ?acc))")
    case (Some d)
    then have d: "ch_fd (chan ?bp d) = ch_fd (chan ?bp ?acc)" "ch_index (chan ?bp d) \<noteq> kNew"
      using ready poller_invD(2) [of interest ?bp] by (auto simp: poller_ready_def)
    have "even d"
    proof (rule ccontr)
      assume "odd d"
      then obtain c where c: "d = conn_chan c" using channels_okD [OF sys_invD(5) [OF inv] d(2) [unfolded base_poller_at]] by auto
      note up = registered_alive [OF inv d(2) [unfolded base_poller_at c]]
      show False
        using fds_okD(1) [OF sys_invD(8) [OF inv] up(4)] conn_ok_base(3) [OF sys_invD(7) [OF inv up(1)]] up(2) d(1) acc(2) c
        by (simp add: base_poller_at)
    qed
    then show ?thesis using acc(3) d by (auto simp: may_update_def)
  qed (simp add: may_update_def)
  from epoll.set_ok [OF ready this, of EnableReading] obtain p i where
      p: "set_interest ctl EnableReading ?acc ?bp = Inr p" "poller_ready ctl interest p"
        "chan p = (chan ?bp)(?acc := (chan ?bp ?acc)\<lparr>ch_events := interest_mask EnableReading (ch_events (chan ?bp ?acc)), ch_index := i\<rparr>)"
    by blast
  have "sys_inv ctl interest {} (s\<lparr>srv := (srv s)\<lparr>base_calls := fs, srv_acceptor := (srv_acceptor (srv s))\<lparr>listenning := True,
      acceptSocket := sock\<rparr>, base_poller := p\<rparr>\<rparr>)" (is "sys_inv _ _ _ ?s") for sock
  proof (rule sys_inv_cong [OF inv])
    have at: "poller_at ?s l = (if l = srv_loop (srv s) then p else poller_at s l)" for l
      by (simp add: poller_at_def)
    have loop: "conn_loop ?s = conn_loop s" by (simp add: conn_loop_def fun_eq_iff)
    show "server_inv (srv ?s)"
      using server_invD(9) [OF sys_invD(1) [OF inv]] q by (intro server_inv_cong [OF sys_invD(1) [OF inv]]) auto
    show "poller_ready ctl interest (poller_at ?s l)" for l using p(2) sys_invD(3) [OF inv] by (simp add: at)
    show "chan (poller_at ?s l) (conn_chan c) = chan (poller_at s l) (conn_chan c)" for l c
    proof -
      have "odd (conn_chan c)" by (simp add: conn_chan_def)
      then have "conn_chan c \<noteq> ?acc" using acc(1) by auto
      then show ?thesis by (simp add: at p(3) base_poller_at)
    qed
    show "removing ?s c \<longleftrightarrow> removing s c" for c by (simp add: removing_def q)
    have only: "d = ?acc" if "even d" "ch_index (chan p d) \<noteq> kNew" "ch_fd (chan p d) = ch_fd (chan ?bp ?acc)" for d
      by (rule ccontr) (use that acc(3) [of d] in \<open>simp add: p(3)\<close>)
    have accs: "acceptChannel (srv_acceptor (srv ?s)) = ?acc" "base_poller (srv ?s) = p" "infra_fds ?s = infra_fds s"
      "ch_fd (chan p ?acc) = ch_fd (chan ?bp ?acc)" by (simp_all add: p(3))
    show "acceptor_ok ?s"
      unfolding acceptor_ok_def Let_def accs by (intro conjI allI impI acc(1,2)) (rule only)
    show "alive s c" if "alive ?s c" for c using that by (simp add: alive_def loop q)
    have "even d \<and> ch_fd (chan (poller_at ?s l) d) \<in> set (infra_fds s) \<or> (\<exists>c < conn_count s. d = conn_chan c \<and> conn_loop s c = l)"
      if "ch_index (chan (poller_at ?s l) d) \<noteq> kNew" for l d
      using that acc(1,2) channels_okD [OF sys_invD(5) [OF inv], of l d]
      by (cases "d = ?acc") (auto simp: at p(3) base_poller_at split: if_splits)
    then show "channels_ok ?s" by (simp add: channels_ok_def loop)
  qed (simp_all add: removed_def)
  then show ?thesis using p(1) by (auto simp: q Acceptor_listen_def Socket_listen_def)
qed

lemma sys_base_ok:
  assumes inv: "sys_inv ctl interest {} s"
  shows "ends (range Fatal) (sys_inv ctl interest {}) (sys_exec ctl (SysBase answer) s)"
proof (cases "base_calls (srv s)")
  case Nil
  then show ?thesis using inv by simp
next
  case (Cons f fs)
  show ?thesis
  proof (cases f)
    case AcceptorListen
    then show ?thesis using sys_base_listen_ok [OF inv] Cons by simp
  next
    case (RemoveConnectionInLoop c)
    have c: "c < conn_count s" using server_invD(9) [OF sys_invD(1) [OF inv]] Cons RemoveConnectionInLoop by simp
    have rem: "removing s c" using Cons RemoveConnectionInLoop by (simp add: removing_def)
    have alive: "alive s c" using c rem unfolding alive_iff [OF sys_invD(1) [OF inv]] by simp
    have "state (cn (conns s ! c)) = kDisconnected" "\<not> conn_waits ctl interest s c"
      using sys_invD(7) [OF inv c] rem by (auto simp: conn_ok_def conn_waits_def conn_up_def conn_gone_def split: if_splits)
    then obtain s' where "sys_removeConnectionInLoop c (s\<lparr>srv := (srv s)\<lparr>base_calls := fs\<rparr>\<rparr>) = Inr s'" "sys_inv ctl interest {} s'"
      using sys_removeConnectionInLoop_ok [OF inv _ c alive, of fs] Cons RemoveConnectionInLoop by fastforce
    then show ?thesis using Cons RemoveConnectionInLoop by simp
  qed
qed

text \<open>Accepting a connection.\<close>

lemma server_accept_frame:
  assumes "server_accept answer again null_fd dflt local_addr r = Inr r'"
  shows "srv_loop r' = srv_loop r \<and> base_poller r' = base_poller r \<and> base_calls r' = base_calls r \<and>
    removed r' = removed r \<and> acceptChannel (srv_acceptor r') = acceptChannel (srv_acceptor r) \<and>
    (conn_objs r' = conn_objs r \<and> connections r' = connections r \<or>
     (\<exists>co. conn_objs r' = conn_objs r @ [co] \<and> answer = Inr (co_fd co, co_peer co)))"
proof -
  obtain new closed a where h: "acceptor_handleRead True answer again null_fd dflt (srv_acceptor r) = (new, closed, a)"
    by (cases "acceptor_handleRead True answer again null_fd dflt (srv_acceptor r)") auto
  have a: "acceptChannel a = acceptChannel (srv_acceptor r)" "\<And>x. new = Some x \<Longrightarrow> answer = Inr x"
    using h by (auto simp: acceptor_handleRead_def Socket_accept_def Let_def split: sum.splits if_splits prod.splits)
  show ?thesis
  proof (cases new)
    case None
    then show ?thesis using assms h a by (auto simp: server_accept_def removed_def)
  next
    case (Some x)
    obtain fd peer where x: "x = (fd, peer)" by (cases x)
    show ?thesis
      using assms h a(1) a(2) [OF Some] Some x
      by (auto simp: server_accept_def newConnection_def rbind_eq_Inr removed_def Let_def split: prod.splits)
  qed
qed

lemma TcpConnection_channel_simps [simp]:
  "ch_fd (TcpConnection_channel fd) = fd" "ch_index (TcpConnection_channel fd) = kNew"
  "ch_events (TcpConnection_channel fd) = kNoneEvent"
  by (simp_all add: TcpConnection_channel_def Channel_new_def kNew_def kNoneEvent_def)

text \<open>The system with the new connection \<open>co\<close>, waiting to be established.\<close>

definition with_conn :: "'k TcpServer \<Rightarrow> conn_obj \<Rightarrow> 'k system \<Rightarrow> 'k system" where
  "with_conn srv' co s =
     (let p = set_chan (conn_chan (conn_count s)) (\<lambda>_. TcpConnection_channel (co_fd co)) (poller_at (s\<lparr>srv := srv'\<rparr>) (co_loop co))
      in set_poller_at (co_loop co) p (s\<lparr>srv := srv', conns := conns s @
           [new_conn_env (srv_writeComplete s) co (conn_chan (conn_count s)) p]\<rparr>))"

lemma with_conn_inv:
  fixes s :: "'k system"
  assumes inv: "sys_inv ctl interest {} s" and fd: "co_fd co \<notin> set (open_fds s)"
    and srv': "server_inv srv'" "srv_loop srv' = srv_loop (srv s)" "base_poller srv' = base_poller (srv s)"
      "base_calls srv' = base_calls (srv s)" "removed srv' = removed (srv s)"
      "acceptChannel (srv_acceptor srv') = acceptChannel (srv_acceptor (srv s))" "conn_objs srv' = conn_objs (srv s) @ [co]"
  shows "sys_inv ctl interest {} (queue_fns (co_loop co) [EstablishedFn (conn_count s)] (with_conn srv' co s))"
    (is "sys_inv _ _ _ ?s")
proof -
  let ?n = "conn_count s" and ?l = "co_loop co"
  let ?p = "set_chan (conn_chan ?n) (\<lambda>_. TcpConnection_channel (co_fd co)) (poller_at s ?l)"
  have pa: "poller_at (s\<lparr>srv := srv'\<rparr>) = poller_at s" "poller_at (s\<lparr>srv := srv', conns := cs\<rparr>) = poller_at s" for cs
    using srv'(2,3) by (simp_all add: poller_at_def fun_eq_iff)
  have at: "poller_at ?s l = (if l = ?l then ?p else poller_at s l)" for l
    by (simp add: queue_fns_def with_conn_def Let_def srv_set_poller pa)
  have objs: "conn_objs (srv ?s) = conn_objs (srv s) @ [co]" "removed (srv ?s) = removed (srv s)"
      "base_calls (srv ?s) = base_calls (srv s)" "srv_loop (srv ?s) = srv_loop (srv s)" "server_inv (srv ?s)"
      "acceptChannel (srv_acceptor (srv ?s)) = acceptChannel (srv_acceptor (srv s))"
      "conns ?s = conns s @ [new_conn_env (srv_writeComplete s) co (conn_chan ?n) ?p]"
      "loopq ?s = (loopq s)(?l := loopq s ?l @ [EstablishedFn ?n])" "held ?s = held s" "infra_fds ?s = infra_fds s"
    using srv' by (simp_all add: queue_fns_def with_conn_def Let_def srv_set_poller pa)
  have rem: "removing ?s c \<longleftrightarrow> removing s c" for c by (simp add: removing_def objs)
  have loop: "c < ?n \<Longrightarrow> conn_loop ?s c = conn_loop s c" "conn_loop ?s ?n = ?l" for c
    by (simp_all add: conn_loop_def objs nth_append)
  have slot: "ch_index (chan (poller_at s l) (conn_chan ?n)) = kNew" for l
    using registered_alive(1) [OF inv, of l ?n] by auto
  have low: "functor_conn f < ?n" if "f \<in> set (loopq s l)" for f l using queues_okD [OF sys_invD(4) [OF inv] that] by simp
  have cq: "cq ?s c = cq s c" if "c < ?n" for c using that by (simp add: cq_def loop objs)
  have cqn: "cq ?s ?n = [EstablishedFn ?n]"
    using low by (force simp: cq_def loop objs filter_empty_conv)
  have chan: "chan (poller_at ?s l) d = (if l = ?l \<and> d = conn_chan ?n then TcpConnection_channel (co_fd co) else chan (poller_at s l) d)" for l d
    by (simp add: at set_chan_def)
  have fresh: "?n \<notin> removed (srv s)" "\<not> removing s ?n"
    using server_invD(8,9) [OF sys_invD(1) [OF inv]] by (auto simp: removing_def)
  have alive: "alive ?s c \<longleftrightarrow> alive s c" if "c < ?n" for c
    using that by (simp add: alive_iff [OF objs(5)] alive_iff [OF sys_invD(1) [OF inv]] objs rem cq)
  have alive_lt: "c < ?n \<or> c = ?n" if "alive ?s c" for c using that by (auto simp: alive_def objs)
  show ?thesis
    unfolding sys_inv_def
  proof (intro conjI allI impI)
    show "server_inv (srv ?s)" by (rule objs)
    show "length (conns ?s) = conn_count ?s" using sys_invD(2) [OF inv] by (simp add: objs)
    show ready: "poller_ready ctl interest (poller_at ?s l)" for l
      using sys_invD(3) [OF inv] slot by (simp add: at set_chan_ready)
    show "queues_ok ?s"
      using queues_okD [OF sys_invD(4) [OF inv]] by (auto simp: queues_ok_def objs loop less_SucI split: if_splits)
    show "channels_ok ?s"
      unfolding channels_ok_def
    proof (intro allI impI)
      fix l d assume "ch_index (chan (poller_at ?s l) d) \<noteq> kNew"
      then have reg: "ch_index (chan (poller_at s l) d) \<noteq> kNew" "chan (poller_at ?s l) d = chan (poller_at s l) d"
        by (auto simp: chan split: if_splits)
      then show "even d \<and> ch_fd (chan (poller_at ?s l) d) \<in> set (infra_fds ?s) \<or>
          (\<exists>c < conn_count ?s. d = conn_chan c \<and> conn_loop ?s c = l)"
        using channels_okD [OF sys_invD(5) [OF inv] reg(1)] unfolding reg(2)
        by (auto simp: objs less_Suc_eq conj_disj_distribR ex_disj_distrib loop)
    qed
    have "chan (poller_at ?s l) d = chan (poller_at s l) d" if "even d" for l d
      using that by (auto simp: chan conn_chan_def)
    then show "acceptor_ok ?s"
      using sys_invD(6) [OF inv] unfolding acceptor_ok_def base_poller_at by (simp add: objs(4,6,10) Let_def)
    show "fds_ok ?s"
    proof -
      have new: "co_fd co \<notin> set (infra_fds s)" "\<And>c. alive s c \<Longrightarrow> co_fd co \<noteq> co_fd (conn_objs (srv s) ! c)"
        using fd by (auto simp: open_fds_def alive_def)
      have fds: "co_fd (conn_objs (srv ?s) ! c) = (if c = ?n then co_fd co else co_fd (conn_objs (srv s) ! c))" if "alive ?s c" for c
        using alive_lt [OF that] by (auto simp: objs nth_append)
      have old: "alive s c" if "alive ?s c" "c \<noteq> ?n" for c using alive_lt [OF that(1)] that alive by auto
      show ?thesis
        unfolding fds_ok_def objs(10) using new old fds fds_okD [OF sys_invD(8) [OF inv]] by (smt (verit))
    qed
    show "conn_ok ctl interest (c \<in> {}) ?s c" if "c < conn_count ?s" for c
    proof (cases "c = ?n")
      case False
      then have c: "c < ?n" using that by (simp add: objs)
      have "conn_ok ctl interest False s c" using sys_invD(7) [OF inv c] by simp
      then have "conn_ok ctl interest False ?s c"
        by (rule conn_ok_cong)
          (use c sys_invD(2) [OF inv] in \<open>simp_all add: objs nth_append loop chan cq rem ready conn_chan_def\<close>)
      then show ?thesis by simp
    next
      case True
      have e: "enter ?s ?n = new_conn_env (srv_writeComplete s) co (conn_chan ?n) ?p"
        using sys_invD(2) [OF inv] by (simp add: enter_def objs nth_append loop at new_conn_env_def)
      have "Buffer_inv (Buffer_new kInitialSize)" "Buffer_content (Buffer_new kInitialSize) = []"
        using Buffer_new_ok [of kInitialSize] by (simp_all add: kInitialSize_def max_size_def)
      then have "conn_waits ctl interest ?s ?n"
        using fresh unfolding conn_waits_def e cqn by (simp add: objs rem new_conn_env_def TcpConnection_new_def setWriteCompleteCallback_def set_chan_def)
      then show ?thesis
        unfolding True conn_ok_def e by (simp add: new_conn_env_def TcpConnection_new_def setWriteCompleteCallback_def set_chan_def objs)
    qed
  qed
qed

lemma sys_accept_ok:
  fixes s :: "'k system"
  assumes inv: "sys_inv ctl interest {} s" and pre: "sys_pre ctl (SysAccept answer again null_fd dflt local_addr) s"
  shows "ends {Overflow} (sys_inv ctl interest {}) (sys_exec ctl (SysAccept answer again null_fd dflt local_addr) s)"
proof (cases "server_accept answer again null_fd dflt local_addr (srv s)")
  case (Inl e)
  then show ?thesis using server_accept_ok [OF sys_invD(1) [OF inv], of answer again null_fd dflt local_addr]
    by (simp add: sys_accept_def)
next
  case (Inr r)
  have r: "server_inv r" using server_accept_ok [OF sys_invD(1) [OF inv], of answer again null_fd dflt local_addr] Inr by simp
  note frame = server_accept_frame [OF Inr]
  show ?thesis
  proof (cases "conn_objs r = conn_objs (srv s)")
    case True
    then have conns: "connections r = connections (srv s)" using frame by auto
    let ?s = "s\<lparr>srv := r\<rparr>"
    have eq: "poller_at ?s = poller_at s" "conn_loop ?s = conn_loop s"
      using frame True by (simp_all add: poller_at_def conn_loop_def fun_eq_iff)
    have "sys_inv ctl interest {} ?s"
      using frame True sys_invD [OF inv] r
      by (intro sys_inv_cong [OF inv]) (simp_all add: eq channels_ok_def acceptor_ok_def removing_def alive_def conns)
    then show ?thesis using Inr True by (simp add: sys_accept_def)
  next
    case False
    then obtain co where co: "conn_objs r = conn_objs (srv s) @ [co]" "answer = Inr (co_fd co, co_peer co)" using frame by auto
    let ?c = "conn_count s" and ?s = "with_conn r co s"
    let ?q = "queue_fns (co_loop co) [EstablishedFn ?c] ?s"
    have inv': "sys_inv ctl interest {} ?q"
      using frame pre co r by (intro with_conn_inv [OF inv]) simp_all
    have upd: "?q\<lparr>loopq := loopq ?s\<rparr> = ?s" by (simp add: queue_fns_def)
    have n: "?c < conn_count ?q" "conn_loop ?q ?c = co_loop co"
      using co(1) by (simp_all add: queue_fns_def with_conn_def Let_def srv_set_poller conn_loop_def nth_append)
    have low: "\<forall>f \<in> set (loopq ?s l). functor_conn f \<noteq> ?c" for l
      using queues_okD [OF sys_invD(4) [OF inv]] by (fastforce simp: with_conn_def Let_def srv_set_poller)
    have cq: "cq ?q ?c = [EstablishedFn ?c]" using low n(2) by (simp add: cq_def queue_fns_def filter_empty_conv)
    have "conn_waits ctl interest ?q ?c"
      using sys_invD(7) [OF inv' n(1)] cq by (auto simp: conn_ok_def conn_up_def conn_gone_def)
    moreover have "queue_step ?q ?c (loopq ?s)" by (auto simp: queue_step_def queue_fns_def)
    ultimately have "\<exists>s'. conn_do ?c (connectionEstablished ctl (enter ?q ?c)) (?q\<lparr>loopq := loopq ?s\<rparr>) = Inr s' \<and> sys_inv ctl interest {} s'"
      using low by (intro established_step [OF inv' n(1)]) (auto simp: filter_empty_conv)
    then have "\<exists>s'. conn_do ?c (connectionEstablished ctl (enter ?s ?c)) ?s = Inr s' \<and> sys_inv ctl interest {} s'"
      unfolding upd by (simp add: queue_fns_def)
    then show ?thesis using Inr co(1) inv' by (auto simp: sys_accept_def with_conn_def Let_def)
  qed
qed

section \<open>Runs\<close>

lemma sys_exec_ok:
  assumes inv: "sys_inv ctl interest {} s" and pre: "sys_pre ctl oper s" and "uninterrupted oper"
  shows "ends (insert Overflow (range Fatal)) (sys_inv ctl interest {}) (sys_exec ctl oper s)"
proof (cases oper)
  case (SysAccept answer again null_fd dflt local_addr)
  show ?thesis using ends_more [OF sys_accept_ok [OF inv]] pre unfolding SysAccept by auto
next
  case (SysBase answer)
  show ?thesis unfolding SysBase by (rule ends_more [OF sys_base_ok [OF inv]]) auto
next
  case (SysLoop l io)
  then show ?thesis using sys_loop_ok [OF inv, of l io] pre by auto
next
  case (SysEvent c ev io t)
  then show ?thesis using sys_event_ok [OF inv, of c ev io t] pre by auto
next
  case (SysUser c u io)
  then show ?thesis using sys_user_ok [OF inv, of c u io] pre by auto
next
  case (SysHold c)
  then show ?thesis using sys_inv_held [OF inv, of "c # held s"] pre by (auto simp: touch_def)
next
  case (SysRelease c)
  have "d \<in> set (held s)" if "d \<in> set (remove1 c (held s))" for d using set_remove1_subset [of c "held s"] that by blast
  then show ?thesis using sys_inv_held [OF inv, of "remove1 c (held s)"] SysRelease by simp
qed (use assms(3) in auto)

text \<open>The system is a machine; an operation of it is uninterrupted and its environment keeps its part.\<close>

interpretation sys: op_machine "sys_exec ctl" "\<lambda>oper s. uninterrupted oper \<and> sys_pre ctl oper s" "sys_inv ctl interest {}"
    "insert Overflow (range Fatal)" "\<lambda>s. [] :: unit list" "\<lambda>oper s. []"
  for ctl :: "'k epoll_ctl" and interest
  by unfold_locales (auto intro: ends_mono [OF sys_exec_ok])

lemma sys_machine:
  "sys_run ctl opers s = sys.run ctl opers s" "list_all uninterrupted opers \<Longrightarrow> sys_pres ctl opers s \<Longrightarrow> sys.pres ctl opers s"
proof (induction opers arbitrary: s)
  case (Cons oper opers)
  case 1 show ?case using Cons by (cases "sys_exec ctl oper s") simp_all
  case 2 then show ?case using Cons by (cases "sys_exec ctl oper s") simp_all
qed simp_all

lemma sys_run_ok:
  assumes "sys_inv ctl interest {} s" "list_all uninterrupted opers" "sys_pres ctl opers s"
  shows "ends (insert Overflow (range Fatal)) (sys_inv ctl interest {}) (sys_run ctl opers s)"
  unfolding sys_machine(1)
  by (rule ends_mono [OF sys.run_ok [OF assms(1) sys_machine(2) [OF assms(2,3)]]]) simp

text \<open>What a poller or the kernel knows exists.\<close>

lemma known_alive:
  assumes inv: "sys_inv ctl interest {} s"
  shows "channels (poller_at s l) fd = Some (conn_chan c) \<Longrightarrow>
      alive s c \<and> conn_loop s c = l \<and> co_fd (conn_objs (srv s) ! c) = fd"
    "interest (kernel (poller_at s l)) fd = Some (ev, conn_chan c) \<Longrightarrow>
      alive s c \<and> conn_loop s c = l \<and> co_fd (conn_objs (srv s) ! c) = fd"
proof -
  have p: "poller_inv interest (poller_at s l)" using sys_invD(3) [OF inv] by (simp add: poller_ready_def)
  have *: "alive s c \<and> conn_loop s c = l \<and> co_fd (conn_objs (srv s) ! c) = fd"
    if "ch_fd (chan (poller_at s l) (conn_chan c)) = fd" "ch_index (chan (poller_at s l) (conn_chan c)) \<noteq> kNew"
    using registered_alive [OF inv that(2)] conn_ok_base(3) [OF sys_invD(7) [OF inv]] that(1) by auto
  show "channels (poller_at s l) fd = Some (conn_chan c) \<Longrightarrow>
      alive s c \<and> conn_loop s c = l \<and> co_fd (conn_objs (srv s) ! c) = fd"
    "interest (kernel (poller_at s l)) fd = Some (ev, conn_chan c) \<Longrightarrow>
      alive s c \<and> conn_loop s c = l \<and> co_fd (conn_objs (srv s) ! c) = fd"
    using * by (auto simp: poller_invD(2,3) [OF p])
qed

text \<open>
  A poller before the first connection: it works, and the channels it knows (of the wake-up descriptor and
  the timer descriptor of its loop) have some of the descriptors \<open>fds\<close>.
\<close>

definition infra_ready ::
  "'k epoll_ctl \<Rightarrow> ('k \<Rightarrow> int \<rightharpoonup> events \<times> channel_id) \<Rightarrow> int list \<Rightarrow> 'k EPollPoller \<Rightarrow> bool" where
  "infra_ready ctl interest fds p \<longleftrightarrow> poller_ready ctl interest p \<and>
     (\<forall>d. ch_index (chan p d) \<noteq> kNew \<longrightarrow> even d \<and> ch_fd (chan p d) \<in> set fds)"

lemma system_new_inv:
  fixes ps :: "nat \<Rightarrow> 'k EPollPoller"
  assumes new: "TcpServer_new socket_fd null_fd answer ch p loop addr nm opt = Inr s0"
    and p: "infra_ready ctl interest fds p" "even ch" "ch_index (chan p ch) = kNew" "channels p socket_fd = None"
      "socket_fd \<in> set fds"
    and ps: "\<And>l. infra_ready ctl interest fds (ps l)"
  shows "sys_inv ctl interest {} (system_new (TcpServer_start new_loop (server_setThreadNum n s0)) wc ps fds)"
    (is "sys_inv _ _ _ ?s")
proof -
  note start = started_inv [OF new, of new_loop n]
  let ?h = "(Channel_new socket_fd)\<lparr>has_readCallback := True\<rparr>"
  have s0: "base_poller (srv ?s) = set_chan ch (\<lambda>_. ?h) p" "acceptChannel (srv_acceptor (srv ?s)) = ch"
    using new by (auto simp: system_new_def TcpServer_start_def server_setThreadNum_def TcpServer_new_def Acceptor_new_def
        rbind_eq_Inr Let_def split: if_splits)
  have none: "ch_fd (chan p d) \<noteq> socket_fd" if "ch_index (chan p d) \<noteq> kNew" for d
  proof -
    have "ch_index (chan p d) = kAdded \<or> ch_index (chan p d) = kDeleted"
      using p(1) that poller_invD(1) [of interest p d] by (auto simp: infra_ready_def poller_ready_def)
    then show ?thesis using p(1,4) poller_invD(2) [of interest p socket_fd d] by (auto simp: infra_ready_def poller_ready_def)
  qed
  have h: "ch_index ?h = kNew" "ch_fd ?h = socket_fd" by (simp_all add: Channel_new_def kNew_def)
  have bp: "poller_ready ctl interest (set_chan ch (\<lambda>_. ?h) p)"
    using p(1,3) h(1) by (intro set_chan_ready) (simp_all add: infra_ready_def)
  have at: "poller_at ?s l = (if l = srv_loop (srv ?s) then set_chan ch (\<lambda>_. ?h) p else ps l)" for l
    by (simp add: poller_at_def s0(1)) (simp add: system_new_def)
  have empty: "conn_count ?s = 0" using start(2) by (simp add: system_new_def)
  have inf: "infra_fds ?s = fds" by (simp add: system_new_def)
  have "channels_ok ?s"
    unfolding channels_ok_def at inf empty using p(1) ps h by (auto simp: set_chan_def infra_ready_def)
  moreover have "acceptor_ok ?s"
  proof -
    have "d = ch" if "ch_index (chan (set_chan ch (\<lambda>_. ?h) p) d) \<noteq> kNew" "ch_fd (chan (set_chan ch (\<lambda>_. ?h) p) d) = socket_fd" for d
      using that none [of d] h(1) by (auto simp: set_chan_def split: if_splits)
    moreover have fd: "ch_fd (chan (set_chan ch (\<lambda>_. ?h) p) ch) = socket_fd" using h(2) by (simp add: set_chan_def)
    ultimately show ?thesis unfolding acceptor_ok_def s0 Let_def inf fd using p(2,5) by blast
  qed
  ultimately show ?thesis
    using start bp ps empty
    unfolding sys_inv_def at by (simp add: infra_ready_def fds_ok_def alive_def queues_ok_def system_new_def)
qed

section \<open>A race\<close>

text \<open>The end of a connection in steps: the hang-up, the removal in the base loop, \<open>connectionDestoryed\<close>.\<close>

lemma hangup_callbacks:
  assumes "ch_revents h = EPOLLHUP" "ch_tied h" "has_closeCallback h"
  shows "handleEvent h True t = [CloseCb]"
  using assms by (simp add: handleEvent_def handleEventWithGuard_def event_bits)

lemma hangup_step:
  fixes s :: "'k system"
  assumes inv: "sys_inv ctl interest {} s" and c: "c < conn_count s" and st: "state (cn (conns s ! c)) = kConnected"
    and io_loop: "conn_loop s c \<noteq> srv_loop (srv s)"
    and cb: "has_closeCallback (chan (poller_at s (conn_loop s c)) (conn_chan c))"
  shows "\<exists>s'. sys_exec ctl (SysEvent c EPOLLHUP io t) s = Inr s' \<and> sys_pre ctl (SysEvent c EPOLLHUP io t) s \<and>
    sys_inv ctl interest {} s' \<and> loopq s' = loopq s \<and> held s' = held s \<and> senders s' = senders s \<and>
    conn_objs (srv s') = conn_objs (srv s) \<and> base_calls (srv s') = base_calls (srv s) @ [RemoveConnectionInLoop c] \<and>
    cn (conns s' ! c) = (cn (conns s ! c))\<lparr>state := kDisconnected\<rparr>"
proof -
  note old = conn_ok_base [OF sys_invD(7) [OF inv c]]
  have up: "conn_up ctl interest False s c"
    using sys_invD(7) [OF inv c] st by (auto simp: conn_ok_def conn_waits_def conn_gone_def Let_def)
  have reg: "ch_index (chan (poller_at s (conn_loop s c)) (conn_chan c)) \<noteq> kNew"
    using up_registered [of ctl interest False s c] sys_invD(7) [OF inv c] up by simp
  let ?w = "report_event EPOLLHUP (enter s c)"
  have w: "ch_revents (channel_of ?w) = EPOLLHUP" "ch_tied (channel_of ?w)" "has_closeCallback (channel_of ?w)"
      "pending ?w = []" "cn ?w = cn (conns s ! c)" "calls ?w = calls (conns s ! c)"
    using up cb old by (simp_all add: report_event_def set_chan_def conn_up_def)
  note cbs = hangup_callbacks [OF w(1-3), of t]
  have pre: "sys_pre ctl (SysEvent c EPOLLHUP io t) s"
    using c reg by (simp add: Let_def cbs split: sum.splits)
  have "conn_inv ctl interest ?w" using up by (intro report_event_inv) (simp add: conn_up_def)
  note D = conn_invD [OF this]
  obtain p where p: "handleClose ctl ?w = Inr (?w\<lparr>cn := (cn (conns s ! c))\<lparr>state := kDisconnected\<rparr>, poller := p,
      calls := calls (conns s ! c) @ [ConnectionCall kDisconnected, CloseCall]\<rparr>)"
    using handleClose_ok [OF D(1,2)] w(5,6) by auto
  let ?w' = "?w\<lparr>cn := (cn (conns s ! c))\<lparr>state := kDisconnected\<rparr>, poller := p,
      calls := calls (conns s ! c) @ [ConnectionCall kDisconnected, CloseCall]\<rparr>"
  let ?s = "(leave c ?w' s)\<lparr>srv := removeConnection c (srv (leave c ?w' s))\<rparr>"
  have alive: "alive s c" by (rule up_alive [OF sys_invD(1) [OF inv] c up])
  have run: "sys_exec ctl (SysEvent c EPOLLHUP io t) s = Inr ?s"
    using alive p io_loop by (simp add: touch_def conn_event_def cbs conn_do_def sys_removeConnection_def)
  moreover have "sys_inv ctl interest {} ?s" using sys_event_ok [OF inv pre] run by simp
  ultimately show ?thesis
    using pre w(4) c sys_invD(2) [OF inv]
    by (simp add: removeConnection_def del: sys_pre.simps) (simp add: leave_def queue_fns_def set_poller_at_def)
qed

lemma remove_step:
  fixes s :: "'k system"
  assumes inv: "sys_inv ctl interest {} s" and q: "base_calls (srv s) = [RemoveConnectionInLoop c]"
  shows "\<exists>s'. sys_exec ctl (SysBase answer) s = Inr s' \<and> sys_inv ctl interest {} s' \<and>
    loopq s' (conn_loop s c) = loopq s (conn_loop s c) @ [DestroyedFn c] \<and> held s' = held s \<and> senders s' = senders s \<and>
    conn_objs (srv s') = conn_objs (srv s) \<and> base_calls (srv s') = [] \<and> conns s' = conns s"
proof -
  have c: "c < conn_count s" using server_invD(9) [OF sys_invD(1) [OF inv]] q by simp
  let ?r = "(srv s)\<lparr>base_calls := [], connections := (connections (srv s))(co_name (conn_objs (srv s) ! c) := None),
    io_calls := io_calls (srv s) @ [(conn_loop s c, ConnectionDestroyed c)]\<rparr>"
  let ?s = "s\<lparr>srv := ?r, loopq := (loopq s)(conn_loop s c := loopq s (conn_loop s c) @ [DestroyedFn c])\<rparr>"
  have run: "sys_exec ctl (SysBase answer) s = Inr ?s"
    using c q by (simp add: sys_removeConnectionInLoop_def removeConnectionInLoop_eq queue_fns_def conn_loop_def)
  moreover have "sys_inv ctl interest {} ?s" using sys_base_ok [OF inv, of answer] run by simp
  ultimately show ?thesis by simp
qed

lemma destroy_step:
  fixes s :: "'k system"
  assumes inv: "sys_inv ctl interest {} s" and q: "loopq s l = [DestroyedFn c]"
  shows "\<exists>s'. sys_exec ctl (SysLoop l io) s = Inr s' \<and> sys_inv ctl interest {} s' \<and>
    loopq s' l = [] \<and> held s' = held s \<and> senders s' = senders s \<and>
    conn_objs (srv s') = conn_objs (srv s) \<and> base_calls (srv s') = base_calls (srv s) \<and>
    cn (conns s' ! c) = cn (conns s ! c) \<and> c \<in> removed (srv s')"
proof -
  note head = cq_head [OF sys_invD(4) [OF inv] q, simplified]
  have c: "c < conn_count s" and l: "conn_loop s c = l" and cq: "cq s c = [DestroyedFn c]" using head by simp_all
  have alive: "alive s c" using c cq unfolding alive_iff [OF sys_invD(1) [OF inv]] by simp
  note old = conn_ok_base [OF sys_invD(7) [OF inv c]]
  have st: "state (cn (conns s ! c)) = kDisconnected" "c \<in> removed (srv s)"
    using sys_invD(7) [OF inv c] cq by (auto simp: conn_ok_def conn_waits_def conn_up_def conn_gone_def split: if_splits)
  obtain p where p: "connectionDestoryed ctl (enter s c) = Inr ((enter s c)\<lparr>poller := p\<rparr>)"
    using destroyed_result [OF inv c alive st(1)] by blast
  let ?s = "leave c ((enter s c)\<lparr>poller := p\<rparr>) (s\<lparr>loopq := (loopq s)(l := [])\<rparr>)"
  have run: "sys_exec ctl (SysLoop l io) s = Inr ?s" using q alive p by (simp add: touch_def conn_do_def)
  moreover have "sys_inv ctl interest {} ?s" using sys_loop_ok [OF inv, of l io] q run by simp
  moreover have "senders ?s = senders s" by (simp add: leave_def queue_fns_def set_poller_at_def)
  ultimately show ?thesis using st(2) old(2) l c sys_invD(2) [OF inv] by simp
qed

lemma sys_inv_senders:
  assumes inv: "sys_inv ctl interest {} s"
  shows "sys_inv ctl interest {} (s\<lparr>senders := x\<rparr>)"
proof -
  have eq: "poller_at (s\<lparr>senders := x\<rparr>) = poller_at s" "conn_loop (s\<lparr>senders := x\<rparr>) = conn_loop s"
    by (simp_all add: poller_at_def conn_loop_def fun_eq_iff)
  show ?thesis
    using sys_invD [OF inv]
    by (intro sys_inv_cong [OF inv]) (simp_all add: eq channels_ok_def acceptor_ok_def removing_def alive_def)
qed

text \<open>The last pointer is given up after \<open>queueInLoop\<close>: the functor of \<open>send\<close> is left without a connection.\<close>

lemma push_and_release:
  fixes s :: "'k system"
  assumes inv: "sys_inv ctl interest {} s" and q: "loopq s (conn_loop s c) = []" "base_calls (srv s) = []"
    and c: "c < conn_count s" "c \<in> removed (srv s)" "held s = c # hs" "c \<notin> set hs" "senders s = c # ss" "c \<notin> set ss"
    and mem: "send_pre io data (enter s c)"
  shows "sys_pres ctl [SysPush c data, SysRelease c, SysLoop (conn_loop s c) io] s \<and>
    sys_run ctl [SysPush c data, SysRelease c, SysLoop (conn_loop s c) io] s = Inl UseAfterFree"
proof -
  let ?l = "conn_loop s c"
  let ?s1 = "s\<lparr>senders := ss, loopq := (loopq s)(?l := [ConnFn c (SendInLoopFn data)])\<rparr>"
  let ?s2 = "?s1\<lparr>held := hs\<rparr>"
  have "alive s c" using c unfolding alive_iff [OF sys_invD(1) [OF inv]] by simp
  then have push: "sys_exec ctl (SysPush c data) s = Inr ?s1"
    using q c(5) by (simp add: touch_def queue_fns_def)
  have release: "sys_exec ctl (SysRelease c) ?s1 = Inr ?s2" using c(3) by simp
  have "server_inv (srv ?s2)" using sys_invD(1) [OF inv] by simp
  from alive_iff [OF this, of c] have dead: "\<not> alive ?s2 c"
    using q c by (simp add: cq_def removing_def conn_loop_def)
  then have uaf: "sys_exec ctl (SysLoop ?l io) ?s2 = Inl UseAfterFree" by (simp add: touch_def)
  have "send_pre io data (enter ?s2 c)" using mem by (simp add: send_pre_def)
  then have "sys_pre ctl (SysLoop ?l io) ?s2" by simp
  moreover have "sys_pre ctl (SysPush c data) s" "sys_pre ctl (SysRelease c) ?s1" using c by simp_all
  ultimately show ?thesis
    by (simp add: push release uaf del: sys_exec.simps sys_pre.simps)
qed

section \<open>A sample system\<close>

text \<open>A server with one loop in its pool: a connection with descriptor 9 is accepted, established, and hung up.\<close>

definition sample_open :: "sys_op list" where
  "sample_open = [SysBase 0, SysAccept (Inr (9, sample_addr)) 0 0 sample_addr sample_addr, SysLoop 1 sample_io]"

definition sample_close :: "sys_op list" where
  "sample_close = [SysEvent 0 EPOLLHUP sample_io (Timestamp 5), SysBase 0, SysLoop 1 sample_io]"

definition sample_system :: "(int \<rightharpoonup> events \<times> channel_id) TcpServer \<Rightarrow> (int \<rightharpoonup> events \<times> channel_id) system" where
  "sample_system s0 = system_new (TcpServer_start (\<lambda>i. i + 1) (server_setThreadNum 1 s0)) False (\<lambda>_. sample_base) [3, 4]"

lemmas sample_defs = TcpServer_new_def CheckLoopNotNull_def toIpPort_ok Acceptor_new_def bindAddress_def
  server_setThreadNum_def setThreadNum_def TcpServer_start_def EventLoopThreadPool_new_def elp_start_def
  Acceptor_listen_def Socket_listen_def set_interest_def updateChannel_def epoll_update_def set_chan_def
  sample_base_def EPollPoller_new_def Channel_new_def map_ctl_def index_defs server_accept_def
  acceptor_handleRead_def Socket_accept_def newConnection_def getNextLoop_def int32_def
  removeConnection_def removeConnectionInLoop_def read_range_def

lemmas sample_sys_defs = sample_defs sample_open_def sample_close_def sample_system_def system_new_def sys_accept_def
  set_poller_at_def poller_at_def conn_chan_def conn_loop_def queue_fns_def touch_def alive_def open_fds_def
  new_conn_env_def TcpConnection_new_def setWriteCompleteCallback_def TcpConnection_channel_def conn_do_def connectionEstablished_def conn_simps
  conn_interest_def leave_def enter_def Channel_tie_def interest_mask.simps Let_def event_bits

lemma sample_open_run:
  assumes "TcpServer_new 3 4 0 0 sample_base (Some 0) sample_addr ''echo'' kNotReusePort = Inr s0"
  shows "case sys_run map_ctl sample_open (sample_system s0) of Inl _ \<Rightarrow> False | Inr s \<Rightarrow>
    conn_count s = 1 \<and> state (cn (conns s ! 0)) = kConnected \<and> conn_loop s 0 = 1 \<and> srv_loop (srv s) = 0 \<and>
    has_closeCallback (chan (poller_at s 1) (conn_chan 0)) \<and> (\<forall>l. loopq s l = []) \<and> base_calls (srv s) = [] \<and>
    held s = [] \<and> senders s = [] \<and> channels (poller_at s 1) 9 = Some (conn_chan 0) \<and>
    outputBuffer (cn (conns s ! 0)) = Buffer_new kInitialSize"
  using assms by (clarsimp simp: sample_sys_defs)

lemma sample_open_pres:
  assumes "TcpServer_new 3 4 0 0 sample_base (Some 0) sample_addr ''echo'' kNotReusePort = Inr s0"
  shows "sys_pres map_ctl sample_open (sample_system s0)"
  using assms by (clarsimp simp: sample_sys_defs)

lemma sample_close_run:
  assumes "TcpServer_new 3 4 0 0 sample_base (Some 0) sample_addr ''echo'' kNotReusePort = Inr s0"
  shows "case sys_run map_ctl (sample_open @ sample_close) (sample_system s0) of Inl _ \<Rightarrow> False | Inr s \<Rightarrow>
    conn_count s = 1 \<and> state (cn (conns s ! 0)) = kDisconnected \<and> (\<forall>l. loopq s l = []) \<and> base_calls (srv s) = [] \<and> held s = []"
  using assms
  by (clarsimp simp: sample_sys_defs report_event_def conn_event_def handleEvent_def handleEventWithGuard_def handleClose_def
      isNoneEvent_def sys_removeConnection_def sys_removeConnectionInLoop_def connectionDestoryed_def removeChannel_def)

lemma sample_close_pres:
  assumes "TcpServer_new 3 4 0 0 sample_base (Some 0) sample_addr ''echo'' kNotReusePort = Inr s0"
  shows "sys_pres map_ctl (sample_open @ sample_close) (sample_system s0)"
  using assms
  by (clarsimp simp: sample_sys_defs report_event_def conn_event_def handleEvent_def handleEventWithGuard_def handleClose_def
      isNoneEvent_def sys_removeConnection_def sys_removeConnectionInLoop_def connectionDestoryed_def removeChannel_def)

lemma sample_server:
  obtains s0 where "TcpServer_new 3 4 0 0 sample_base (Some 0) sample_addr ''echo'' kNotReusePort = Inr s0"
  by (simp add: sample_defs)

lemma sample_infra: "infra_ready map_ctl (\<lambda>k. k) [3, 4] sample_base" "ch_index (chan sample_base 0) = kNew"
    "channels sample_base 3 = None"
  using map_ctl_spec map_ctl_total
  by (auto simp: infra_ready_def poller_ready_def poller_inv_def sample_base_def EPollPoller_new_def Channel_new_def index_defs)

lemma sample_uninterrupted: "list_all uninterrupted sample_open" "list_all uninterrupted (sample_open @ sample_close)"
  by (simp_all add: sample_open_def sample_close_def)

lemma sample_inv:
  assumes "TcpServer_new 3 4 0 0 sample_base (Some 0) sample_addr ''echo'' kNotReusePort = Inr s0"
    "sys_run map_ctl sample_open (sample_system s0) = Inr s"
  shows "sys_inv map_ctl (\<lambda>k. k) {} s"
proof -
  have "sys_inv map_ctl (\<lambda>k. k) {} (sample_system s0)"
    unfolding sample_system_def using sample_infra by (intro system_new_inv [OF assms(1)]) simp_all
  from sys_run_ok [OF this sample_uninterrupted(1) sample_open_pres [OF assms(1)]] assms(2) show ?thesis by simp
qed

section \<open>Properties\<close>

text \<open>C2: no use after free. From a started server, whatever is accepted, read, written, closed and queued in
  whatever order, and whatever user code does on any thread, as long as \<open>send\<close> and \<open>shutdown\<close> on another
  thread are not interrupted between their test of the state and their \<open>queueInLoop\<close>: no step uses a
  connection that has been destroyed, and none fails except by a fatal error of the system or the overflow
  of the connection counter. A channel of a connection that a poller or the kernel knows belongs to a
  connection that exists, in the loop of that connection, with its descriptor.\<close>

theorem System_memory_safe:
  fixes ps :: "nat \<Rightarrow> 'k EPollPoller"
  assumes "TcpServer_new socket_fd null_fd answer ch p loop addr nm opt = Inr s0"
    and "infra_ready ctl interest fds p" "even ch" "ch_index (chan p ch) = kNew" "channels p socket_fd = None"
      "socket_fd \<in> set fds" "\<And>l. infra_ready ctl interest fds (ps l)"
    and "list_all uninterrupted opers"
      "sys_pres ctl opers (system_new (TcpServer_start new_loop (server_setThreadNum n s0)) wc ps fds)"
  shows "case sys_run ctl opers (system_new (TcpServer_start new_loop (server_setThreadNum n s0)) wc ps fds) of
      Inl e \<Rightarrow> e = Overflow \<or> (\<exists>msg. e = Fatal msg)
    | Inr s \<Rightarrow>
        (\<forall>l fd c. channels (poller_at s l) fd = Some (conn_chan c) \<longrightarrow>
          alive s c \<and> conn_loop s c = l \<and> co_fd (conn_objs (srv s) ! c) = fd) \<and>
        (\<forall>l fd ev c. interest (kernel (poller_at s l)) fd = Some (ev, conn_chan c) \<longrightarrow>
          alive s c \<and> conn_loop s c = l \<and> co_fd (conn_objs (srv s) ! c) = fd)"
proof -
  let ?s = "system_new (TcpServer_start new_loop (server_setThreadNum n s0)) wc ps fds"
  have run: "ends (insert Overflow (range Fatal)) (sys_inv ctl interest {}) (sys_run ctl opers ?s)"
    by (rule sys_run_ok [OF system_new_inv [OF assms(1-7)] assms(8,9)])
  show ?thesis
  proof (cases "sys_run ctl opers ?s")
    case (Inr s)
    then have "sys_inv ctl interest {} s" using run by simp
    from known_alive [OF this] show ?thesis using Inr by simp
  qed (use run in auto)
qed

theorem System_memory_safe_witness:
  "\<exists>s0 s. TcpServer_new 3 4 0 0 sample_base (Some 0) sample_addr ''echo'' kNotReusePort = Inr s0 \<and>
    sys_run map_ctl sample_open (sample_system s0) = Inr s \<and>
    channels (poller_at s 1) 9 = Some (conn_chan 0) \<and> alive s 0 \<and> co_fd (conn_objs (srv s) ! 0) = 9"
proof -
  obtain s0 where s0: "TcpServer_new 3 4 0 0 sample_base (Some 0) sample_addr ''echo'' kNotReusePort = Inr s0"
    by (rule sample_server)
  obtain s where s: "sys_run map_ctl sample_open (sample_system s0) = Inr s" "channels (poller_at s 1) 9 = Some (conn_chan 0)"
    using sample_open_run [OF s0] by (cases "sys_run map_ctl sample_open (sample_system s0)") auto
  from System_memory_safe [OF s0 sample_infra(1) _ sample_infra(2,3) _ _ sample_uninterrupted(1)
      sample_open_pres [OF s0, unfolded sample_system_def]] s sample_infra(1)
  show ?thesis using s0 by (auto simp: sample_system_def)
qed

text \<open>C3: nothing stays behind. In every state that such a run reaches and in which no functor waits in any
  queue: a connection that is down is out of \<open>connections_\<close>, no poller knows its channel, and it exists only
  as long as user code keeps a pointer to it; a connection that is not down is in \<open>connections_\<close> and its
  loop watches or can watch it.\<close>

theorem System_no_leak:
  fixes ps :: "nat \<Rightarrow> 'k EPollPoller"
  assumes "TcpServer_new socket_fd null_fd answer ch p loop addr nm opt = Inr s0"
    and "infra_ready ctl interest fds p" "even ch" "ch_index (chan p ch) = kNew" "channels p socket_fd = None"
      "socket_fd \<in> set fds" "\<And>l. infra_ready ctl interest fds (ps l)"
    and "list_all uninterrupted opers"
      "sys_pres ctl opers (system_new (TcpServer_start new_loop (server_setThreadNum n s0)) wc ps fds)"
    and "sys_run ctl opers (system_new (TcpServer_start new_loop (server_setThreadNum n s0)) wc ps fds) = Inr s"
    and "base_calls (srv s) = []" "\<And>l. loopq s l = []" "c < conn_count s"
  shows "if state (cn (conns s ! c)) = kDisconnected
    then connections (srv s) (co_name (conn_objs (srv s) ! c)) = None \<and>
      (\<forall>l fd. channels (poller_at s l) fd \<noteq> Some (conn_chan c)) \<and> (alive s c \<longleftrightarrow> c \<in> set (held s))
    else connections (srv s) (co_name (conn_objs (srv s) ! c)) = Some c \<and>
      channels (poller_at s (conn_loop s c)) (co_fd (conn_objs (srv s) ! c)) = Some (conn_chan c)"
proof -
  have inv: "sys_inv ctl interest {} s"
    using sys_run_ok [OF system_new_inv [OF assms(1-7)] assms(8,9)] assms(10) by simp
  have ok: "conn_ok ctl interest False s c" using sys_invD(7) [OF inv assms(13)] by simp
  have q: "cq s c = []" "\<not> removing s c" using assms(11,12) by (simp_all add: cq_def removing_def)
  note srv = sys_invD(1) [OF inv]
  have name: "co_name (conn_objs (srv s) ! c) = name_of (srv s) c" using server_invD(6) [OF srv assms(13)] by simp
  have inj: "name_of (srv s) d = name_of (srv s) c \<longleftrightarrow> d = c" if "d < conn_count s" for d
    using that assms(13) server_invD(1,3,4) [OF srv] by (intro name_of_inject) auto
  have in_map: "connections (srv s) (co_name (conn_objs (srv s) ! c)) = (if c \<in> removed (srv s) then None else Some c)"
  proof (cases "connections (srv s) (co_name (conn_objs (srv s) ! c))")
    case None
    then show ?thesis using server_invD(7) [OF srv, of "name_of (srv s) c" c] name assms(13) by auto
  next
    case (Some d)
    then show ?thesis using server_invD(7) [OF srv, of "name_of (srv s) c" d] name inj [of d] by auto
  qed
  have p: "poller_inv interest (poller_at s l)" for l using sys_invD(3) [OF inv] by (simp add: poller_ready_def)
  from ok q consider "conn_up ctl interest False s c" | "conn_gone s c" by (auto simp: conn_ok_def conn_waits_def)
  then show ?thesis
  proof cases
    case 1
    then have "state (cn (conns s ! c)) \<noteq> kDisconnected" "c \<notin> removed (srv s)"
      using q by (auto simp: conn_up_def)
    moreover have "ch_index (chan (poller_at s (conn_loop s c)) (conn_chan c)) \<noteq> kNew" by (rule up_registered [OF ok 1])
    ultimately show ?thesis
      using in_map conn_ok_base(3) [OF ok] poller_invD(1) [OF p, of "conn_loop s c" "conn_chan c"]
      by (auto simp: poller_invD(2) [OF p])
  next
    case 2
    then have "state (cn (conns s ! c)) = kDisconnected" "c \<in> removed (srv s)"
        "ch_index (chan (poller_at s (conn_loop s c)) (conn_chan c)) = kNew"
      using conn_ok_base(1) [OF ok] by (auto simp: conn_gone_def)
    moreover have "channels (poller_at s l) fd \<noteq> Some (conn_chan c)" for l fd
      using known_alive(1) [OF inv, of l fd c] calculation(3) by (auto simp: poller_invD(2) [OF p])
    ultimately show ?thesis using in_map q assms(13) by (simp add: alive_iff [OF srv])
  qed
qed

theorem System_no_leak_witness:
  "\<exists>s0 s. TcpServer_new 3 4 0 0 sample_base (Some 0) sample_addr ''echo'' kNotReusePort = Inr s0 \<and>
    sys_run map_ctl (sample_open @ sample_close) (sample_system s0) = Inr s \<and>
    state (cn (conns s ! 0)) = kDisconnected \<and> \<not> alive s 0"
proof -
  obtain s0 where s0: "TcpServer_new 3 4 0 0 sample_base (Some 0) sample_addr ''echo'' kNotReusePort = Inr s0"
    by (rule sample_server)
  obtain s where s: "sys_run map_ctl (sample_open @ sample_close) (sample_system s0) = Inr s" "conn_count s = 1"
      "state (cn (conns s ! 0)) = kDisconnected" "\<forall>l. loopq s l = []" "base_calls (srv s) = []" "held s = []"
    using sample_close_run [OF s0] by (cases "sys_run map_ctl (sample_open @ sample_close) (sample_system s0)") auto
  from System_no_leak [OF s0 sample_infra(1) _ sample_infra(2,3) _ _ sample_uninterrupted(2)
      sample_close_pres [OF s0, unfolded sample_system_def] s(1) [unfolded sample_system_def] s(5)] s sample_infra(1)
  show ?thesis using s0 by auto
qed

text \<open>C16: \<open>send\<close> on another thread can use a connection after its end. The thread finds the connection up; before
  it queues its functor, the peer hangs up, the base loop removes the connection and its loop destroys
  it; the thread queues the functor, which holds \<open>this\<close> and no \<open>shared_ptr\<close>, and gives up the last pointer; the
  loop runs the functor on a connection that is gone. Every step is one the library and its users are
  allowed to make.\<close>

theorem send_race_use_after_free:
  fixes s :: "'k system"
  assumes "sys_inv ctl interest {} s" "c < conn_count s" "state (cn (conns s ! c)) = kConnected"
    and "conn_loop s c \<noteq> srv_loop (srv s)" "has_closeCallback (chan (poller_at s (conn_loop s c)) (conn_chan c))"
    and "loopq s (conn_loop s c) = []" "base_calls (srv s) = []" "c \<notin> set (held s)" "c \<notin> set (senders s)"
    and "send_pre io data (enter s c)"
  shows "let ops = [SysHold c, SysTest c, SysEvent c EPOLLHUP io t, SysBase answer, SysLoop (conn_loop s c) io,
      SysPush c data, SysRelease c, SysLoop (conn_loop s c) io]
    in sys_pres ctl ops s \<and> sys_run ctl ops s = Inl UseAfterFree"
proof -
  let ?l = "conn_loop s c"
  let ?s2 = "s\<lparr>held := c # held s, senders := c # senders s\<rparr>"
  have up: "conn_up ctl interest False s c"
    using sys_invD(7) [OF assms(1,2)] assms(3) by (auto simp: conn_ok_def conn_waits_def conn_gone_def Let_def)
  have alive: "alive s c" by (rule up_alive [OF sys_invD(1) [OF assms(1)] assms(2) up])
  have eq: "poller_at ?s2 = poller_at s" "conn_loop ?s2 = conn_loop s" by (simp_all add: poller_at_def conn_loop_def fun_eq_iff)
  have "sys_inv ctl interest {} (s\<lparr>held := c # held s\<rparr>)" using alive by (intro sys_inv_held [OF assms(1)]) auto
  from sys_inv_senders [OF this, of "c # senders s"] have inv2: "sys_inv ctl interest {} ?s2" by simp
  have hold: "sys_exec ctl (SysHold c) s = Inr (s\<lparr>held := c # held s\<rparr>)" "sys_pre ctl (SysHold c) s"
    using alive by (simp_all add: touch_def)
  have "alive (s\<lparr>held := c # held s\<rparr>) c" using assms(2) by (simp add: alive_def)
  then have test: "sys_exec ctl (SysTest c) (s\<lparr>held := c # held s\<rparr>) = Inr ?s2" "sys_pre ctl (SysTest c) (s\<lparr>held := c # held s\<rparr>)"
    using assms(3) by (simp_all add: touch_def)
  obtain s3 where s3: "sys_exec ctl (SysEvent c EPOLLHUP io t) ?s2 = Inr s3" "sys_pre ctl (SysEvent c EPOLLHUP io t) ?s2"
      "sys_inv ctl interest {} s3" "loopq s3 = loopq s" "held s3 = c # held s" "senders s3 = c # senders s"
      "conn_objs (srv s3) = conn_objs (srv s)" "base_calls (srv s3) = [RemoveConnectionInLoop c]"
      "cn (conns s3 ! c) = (cn (conns s ! c))\<lparr>state := kDisconnected\<rparr>"
    using hangup_step [OF inv2, of c io t] assms(2-5,7) by (auto simp: eq simp del: sys_exec.simps sys_pre.simps)
  have l: "conn_loop s' c = ?l" if "conn_objs (srv s') = conn_objs (srv s)" for s' :: "'k system"
    using that by (simp add: conn_loop_def)
  obtain s4 where s4: "sys_exec ctl (SysBase answer) s3 = Inr s4" "sys_inv ctl interest {} s4" "loopq s4 ?l = [DestroyedFn c]"
      "held s4 = c # held s" "senders s4 = c # senders s" "conn_objs (srv s4) = conn_objs (srv s)" "base_calls (srv s4) = []"
      "conns s4 = conns s3"
    using remove_step [OF s3(3,8), of answer] s3 l [OF s3(7)] assms(6) by (auto simp del: sys_exec.simps)
  obtain s5 where s5: "sys_exec ctl (SysLoop ?l io) s4 = Inr s5" "sys_inv ctl interest {} s5" "loopq s5 ?l = []"
      "held s5 = c # held s" "senders s5 = c # senders s" "conn_objs (srv s5) = conn_objs (srv s)" "base_calls (srv s5) = []"
      "cn (conns s5 ! c) = (cn (conns s ! c))\<lparr>state := kDisconnected\<rparr>" "c \<in> removed (srv s5)"
    using destroy_step [OF s4(2,3), of io] s4 s3(9) by (auto simp del: sys_exec.simps)
  have "send_pre io data (enter s5 c)" using assms(10) s5(8) by (simp add: send_pre_def)
  from push_and_release [OF s5(2) _ s5(7) _ s5(9,4) assms(8) s5(5) assms(9) this] s5(3,6) assms(2)
  have "sys_pres ctl [SysPush c data, SysRelease c, SysLoop ?l io] s5 \<and>
      sys_run ctl [SysPush c data, SysRelease c, SysLoop ?l io] s5 = Inl UseAfterFree"
    by (simp add: l [OF s5(6)] del: sys_exec.simps sys_pre.simps)
  moreover have "sys_pre ctl (SysLoop ?l io) s4" using s4(3) by simp
  ultimately show ?thesis
    using hold test s3(1,2) s4(1) s5(1) by (simp add: Let_def del: sys_exec.simps sys_pre.simps) simp
qed

theorem send_race_use_after_free_witness:
  "\<exists>s0 s ops. TcpServer_new 3 4 0 0 sample_base (Some 0) sample_addr ''echo'' kNotReusePort = Inr s0 \<and>
    sys_run map_ctl sample_open (sample_system s0) = Inr s \<and> sys_pres map_ctl ops s \<and> sys_run map_ctl ops s = Inl UseAfterFree"
proof -
  obtain s0 where s0: "TcpServer_new 3 4 0 0 sample_base (Some 0) sample_addr ''echo'' kNotReusePort = Inr s0"
    by (rule sample_server)
  obtain s where s: "sys_run map_ctl sample_open (sample_system s0) = Inr s" "conn_count s = 1"
      "state (cn (conns s ! 0)) = kConnected" "conn_loop s 0 = 1" "srv_loop (srv s) = 0"
      "has_closeCallback (chan (poller_at s 1) (conn_chan 0))" "\<forall>l. loopq s l = []" "base_calls (srv s) = []"
      "held s = []" "senders s = []" "outputBuffer (cn (conns s ! 0)) = Buffer_new kInitialSize"
    using sample_open_run [OF s0] by (cases "sys_run map_ctl sample_open (sample_system s0)") auto
  have "send_pre sample_io ''bye'' (enter s 0)"
    using s(11) sample_io_spec Buffer_new_ok [of kInitialSize]
    by (simp add: send_pre_def kInitialSize_def max_size_def Buffer_room_def kCheapPrepend_def)
  from send_race_use_after_free [OF sample_inv [OF s0 s(1)], of 0 sample_io "''bye''" "Timestamp 5" 0] this s
  have "\<exists>ops. sys_pres map_ctl ops s \<and> sys_run map_ctl ops s = Inl UseAfterFree"
    unfolding Let_def by (auto simp del: sys_pres.simps sys_run.simps)
  then show ?thesis using s0 s(1) by blast
qed

end
