(* ===== verification/Net_Progress.thy ===== *)
theory Net_Progress
  imports Net_Lifetime
begin

text \<open>
  The queues of a server and its loops run empty: what a functor queues in turn is bounded, so that the
  loops come to rest when nothing new arrives from outside.
\<close>

section \<open>Work that is left\<close>

text \<open>
  A removal in the base loop leads to \<open>connectionDestoryed\<close>; \<open>sendInLoop\<close> queues at most the write-complete and
  the high-water callback; nothing else queues anything.
\<close>

fun functor_weight :: "sys_functor \<Rightarrow> nat" where
  "functor_weight (ConnFn c (SendInLoopFn data)) = 3"
| "functor_weight f = 1"

fun base_weight :: "base_functor \<Rightarrow> nat" where
  "base_weight AcceptorListen = 1"
| "base_weight (RemoveConnectionInLoop c) = 2"

definition sys_weight :: "'k system \<Rightarrow> nat" where
  "sys_weight s = sum_list (map base_weight (base_calls (srv s))) +
     (\<Sum>c < conn_count s. sum_list (map functor_weight (cq s c)))"

text \<open>A loop that has something in its queue runs the next functor.\<close>

fun busy :: "sys_op \<Rightarrow> 'k system \<Rightarrow> bool" where
  "busy (SysBase answer) s = (base_calls (srv s) \<noteq> [])"
| "busy (SysLoop l io) s = (loopq s l \<noteq> [])"
| "busy oper s = False"

fun busy_run :: "'k epoll_ctl \<Rightarrow> sys_op list \<Rightarrow> 'k system \<Rightarrow> bool" where
  "busy_run ctl [] s = True"
| "busy_run ctl (oper # opers) s =
     (busy oper s \<and> sys_pre ctl oper s \<and> (case sys_exec ctl oper s of Inl _ \<Rightarrow> opers = [] | Inr s' \<Rightarrow> busy_run ctl opers s'))"

section \<open>Every functor leaves less work\<close>

lemma send_direct_queues:
  assumes "send_direct write errno0 data w = (n, fault, w')"
  shows "\<exists>q. pending w' = pending w @ q \<and> length q \<le> 1 \<and> (\<forall>f \<in> set q. functor_weight (ConnFn c f) = 1) \<and> calls w' = calls w"
  using assms by (fastforce simp: send_direct_def conn_queue_def Let_def split: sum.splits if_splits)

lemma send_rest_queues:
  assumes "send_rest ctl rest w = Inr w'"
  shows "\<exists>q. pending w' = pending w @ q \<and> length q \<le> 1 \<and> (\<forall>f \<in> set q. functor_weight (ConnFn c f) = 1) \<and> calls w' = calls w"
  using assms
  by (fastforce simp: send_rest_def conn_queue_def conn_interest_def rbind_eq_Inr Let_def split: if_splits)

lemma sendInLoop_queues:
  assumes "sendInLoop ctl write errno0 data w = Inr w'"
  shows "\<exists>q. pending w' = pending w @ q \<and> length q \<le> 2 \<and> (\<forall>f \<in> set q. functor_weight (ConnFn c f) = 1) \<and> calls w' = calls w"
proof (cases "state (cn w) = kDisconnected")
  case True
  then show ?thesis using assms by (simp add: sendInLoop_def)
next
  case False
  obtain n fault w1 where r: "(if direct_write w then send_direct write errno0 data w else (0, False, w)) = (n, fault, w1)"
    by (cases "if direct_write w then send_direct write errno0 data w else (0, False, w)") auto
  obtain q1 where q1: "pending w1 = pending w @ q1" "length q1 \<le> 1" "\<forall>f \<in> set q1. functor_weight (ConnFn c f) = 1" "calls w1 = calls w"
    using r send_direct_queues [of "write" errno0 data w n fault w1 c] by (cases "direct_write w") auto
  have "w' = w1 \<or> send_rest ctl (drop n data) w1 = Inr w'"
    using assms False unfolding sendInLoop_def r by (auto split: if_splits)
  then show ?thesis
  proof
    assume "send_rest ctl (drop n data) w1 = Inr w'"
    from send_rest_queues [OF this, of c] obtain q2 where "pending w' = pending w1 @ q2" "length q2 \<le> 1"
        "\<forall>f \<in> set q2. functor_weight (ConnFn c f) = 1" "calls w' = calls w1" by blast
    then show ?thesis using q1 by (intro exI [of _ "q1 @ q2"]) auto
  qed (use q1 in auto)
qed

lemma sum_list_ones: "(\<forall>f \<in> set q. g f = (1 :: nat)) \<Longrightarrow> sum_list (map g q) = length q"
  by (induction q) auto

text \<open>The result of a functor: what it queues weighs less than it did.\<close>

lemma conn_do_leave:
  assumes "conn_do c r s = Inr s'" "\<And>w. r = Inr w \<Longrightarrow> \<exists>cs. calls w = calls (conns s ! c) @ cs \<and> CloseCall \<notin> set cs"
  shows "\<exists>w. r = Inr w \<and> s' = leave c w s"
proof -
  obtain w where w: "r = Inr w" using assms(1) by (auto simp: conn_do_def rbind_eq_Inr)
  obtain cs where cs: "calls w = calls (conns s ! c) @ cs" "CloseCall \<notin> set cs" using assms(2) [OF w] by blast
  then have "filter (\<lambda>x. x = CloseCall) cs = []" by (auto simp: filter_empty_conv)
  then show ?thesis using assms(1) w cs(1) by (simp add: conn_do_def)
qed

lemma functor_result:
  assumes run: "sys_functor_run ctl io f s = Inr s'" and none: "pending (conns s ! functor_conn f) = []"
  shows "\<exists>w. s' = leave (functor_conn f) w s \<and>
    sum_list (map functor_weight (map (ConnFn (functor_conn f)) (pending w))) < functor_weight f"
proof (cases f)
  case (EstablishedFn c)
  have "\<exists>cs. calls w = calls (conns s ! c) @ cs \<and> CloseCall \<notin> set cs" "pending w = []"
    if "connectionEstablished ctl (enter s c) = Inr w" for w
    using that none EstablishedFn
    by (auto simp: connectionEstablished_def conn_interest_def conn_simps rbind_eq_Inr Let_def)
  then show ?thesis using run EstablishedFn conn_do_leave [of c "connectionEstablished ctl (enter s c)" s s'] by fastforce
next
  case (DestroyedFn c)
  have "\<exists>cs. calls w = calls (conns s ! c) @ cs \<and> CloseCall \<notin> set cs" "pending w = []"
    if "connectionDestoryed ctl (enter s c) = Inr w" for w
    using that none DestroyedFn
    by (auto simp: connectionDestoryed_def conn_interest_def conn_simps rbind_eq_Inr Let_def split: if_splits)
  then show ?thesis using run DestroyedFn conn_do_leave [of c "connectionDestoryed ctl (enter s c)" s s'] by fastforce
next
  case (ConnFn c g)
  have *: "(\<exists>cs. calls w = calls (conns s ! c) @ cs \<and> CloseCall \<notin> set cs) \<and>
      sum_list (map functor_weight (map (ConnFn c) (pending w))) < functor_weight f"
    if w: "conn_functor_run ctl io g (enter s c) = Inr w" for w
  proof (cases g)
    case (SendInLoopFn data)
    then obtain q where "pending w = q" "length q \<le> 2" "\<forall>f \<in> set q. functor_weight (ConnFn c f) = 1" "calls w = calls (conns s ! c)"
      using w none ConnFn sendInLoop_queues [of ctl "io_write io" "io_errno io" data "enter s c" w c] by auto
    then show ?thesis
      using ConnFn SendInLoopFn sum_list_ones [of q "functor_weight \<circ> ConnFn c"] by simp
  qed (use w none ConnFn in \<open>auto simp: conn_calls_def shutdownInLoop_def split: if_splits\<close>)
  then show ?thesis using run ConnFn conn_do_leave [of c "conn_functor_run ctl io g (enter s c)" s s'] by fastforce
qed

lemma cq_leave_other: "d \<noteq> c \<Longrightarrow> cq (leave c w s) d = cq s d"
  by (simp add: cq_def filter_map comp_def)

lemma loop_weight:
  assumes inv: "sys_inv ctl interest {} s" and q: "loopq s l = f # fs" and run: "sys_exec ctl (SysLoop l io) s = Inr s'"
  shows "sys_weight s' < sys_weight s"
proof -
  let ?c = "functor_conn f" and ?s1 = "s\<lparr>loopq := (loopq s)(l := fs)\<rparr>"
  note head = cq_head [OF sys_invD(4) [OF inv] q]
  have "sys_functor_run ctl io f ?s1 = Inr s'" using run q by (auto simp: touch_def split: if_splits)
  then obtain w where w: "s' = leave ?c w ?s1" "sum_list (map functor_weight (map (ConnFn ?c) (pending w))) < functor_weight f"
    using functor_result [of ctl io f ?s1 s'] conn_ok_base(2) [OF sys_invD(7) [OF inv head(2)]] by auto
  have other: "cq s' d = cq s d" if "d \<noteq> ?c" for d
    unfolding w(1) using that q by (auto simp: cq_leave_other cq_def)
  have this_one: "cq s' ?c = filter (\<lambda>g. functor_conn g = ?c) fs @ map (ConnFn ?c) (pending w)"
    unfolding w(1) using head(1) by (simp add: cq_leave)
  have "(\<Sum>c < conn_count s. sum_list (map functor_weight (cq s' c))) < (\<Sum>c < conn_count s. sum_list (map functor_weight (cq s c)))"
  proof (rule sum_strict_mono_ex1)
    have less: "sum_list (map functor_weight (cq s' ?c)) < sum_list (map functor_weight (cq s ?c))"
      using w(2) unfolding this_one head(3) by simp
    then show "\<forall>c \<in> {..<conn_count s}. sum_list (map functor_weight (cq s' c)) \<le> sum_list (map functor_weight (cq s c))"
      using other by (metis less_imp_le order_refl)
    show "\<exists>c \<in> {..<conn_count s}. sum_list (map functor_weight (cq s' c)) < sum_list (map functor_weight (cq s c))"
      using less head(2) by blast
  qed simp
  then show ?thesis by (simp add: sys_weight_def w(1))
qed

lemma base_weight_less:
  assumes inv: "sys_inv ctl interest {} s" and q: "base_calls (srv s) = f # fs" and run: "sys_exec ctl (SysBase answer) s = Inr s'"
  shows "sys_weight s' < sys_weight s"
proof (cases f)
  case AcceptorListen
  then have s': "conn_objs (srv s') = conn_objs (srv s)" "base_calls (srv s') = fs" "loopq s' = loopq s"
    using run q by (auto simp: rbind_eq_Inr)
  then have "cq s' c = cq s c" for c by (simp add: cq_def conn_loop_def)
  then show ?thesis using q AcceptorListen s' by (simp add: sys_weight_def)
next
  case (RemoveConnectionInLoop c)
  have c: "c < conn_count s" using server_invD(9) [OF sys_invD(1) [OF inv]] q RemoveConnectionInLoop by simp
  have s': "conn_objs (srv s') = conn_objs (srv s)" "base_calls (srv s') = fs"
      "loopq s' = (loopq s)(conn_loop s c := loopq s (conn_loop s c) @ [DestroyedFn c])"
    using run q RemoveConnectionInLoop c
    by (auto simp: sys_removeConnectionInLoop_def removeConnectionInLoop_eq queue_fns_def conn_loop_def)
  have loop: "conn_loop s' = conn_loop s" using s'(1) by (simp add: conn_loop_def fun_eq_iff)
  have "cq s' d = cq s d @ (if d = c then [DestroyedFn c] else [])" for d
    by (auto simp: cq_def loop s'(3))
  then have "sum_list (map functor_weight (cq s' d)) = sum_list (map functor_weight (cq s d)) + (if d = c then 1 else 0)" for d
    by simp
  then have "(\<Sum>d < conn_count s. sum_list (map functor_weight (cq s' d))) =
      (\<Sum>d < conn_count s. sum_list (map functor_weight (cq s d))) + 1"
    using c by (simp add: sum.distrib)
  then show ?thesis using q RemoveConnectionInLoop s'(1,2) by (simp add: sys_weight_def)
qed

lemma busy_step:
  assumes "sys_inv ctl interest {} s" "busy oper s" "sys_pre ctl oper s" "sys_exec ctl oper s = Inr s'"
  shows "sys_inv ctl interest {} s'" "sys_weight s' < sys_weight s"
proof -
  have "uninterrupted oper" using assms(2) by (cases oper) simp_all
  then show "sys_inv ctl interest {} s'" using sys_exec_ok [OF assms(1,3)] assms(4) by simp
  show "sys_weight s' < sys_weight s"
    using assms
    by (cases oper) (auto simp: neq_Nil_conv simp del: sys_exec.simps intro: loop_weight base_weight_less)
qed

lemma busy_run_bounded:
  fixes s :: "'k system"
  shows "sys_inv ctl interest {} s \<Longrightarrow> busy_run ctl opers s \<Longrightarrow> sys_run ctl opers s = Inr s' \<Longrightarrow>
    sys_inv ctl interest {} s' \<and> length opers + sys_weight s' \<le> sys_weight s"
proof (induction opers arbitrary: s)
  case Nil
  then show ?case by simp
next
  case (Cons oper opers)
  obtain s1 where s1: "sys_exec ctl oper s = Inr s1" "sys_run ctl opers s1 = Inr s'" using Cons.prems(3) by (auto simp: rbind_eq_Inr)
  note step = busy_step [OF Cons.prems(1) _ _ s1(1)]
  from Cons.IH [OF _ _ s1(2)] step Cons.prems(2) s1(1) show ?case by fastforce
qed

lemma functor_weight_pos: "0 < functor_weight f" "0 < base_weight g"
  by (cases f rule: functor_weight.cases, simp_all) (cases g, simp_all)

text \<open>No work is left exactly when every queue is empty.\<close>

lemma sys_weight_zero:
  assumes inv: "sys_inv ctl interest X s"
  shows "sys_weight s = 0 \<longleftrightarrow> base_calls (srv s) = [] \<and> (\<forall>l. loopq s l = [])"
proof
  assume zero: "sys_weight s = 0"
  have "base_calls (srv s) = []"
    using zero functor_weight_pos(2) [of "hd (base_calls (srv s))"] by (cases "base_calls (srv s)") (auto simp: sys_weight_def)
  moreover have "loopq s l = []" for l
  proof (rule ccontr)
    assume "loopq s l \<noteq> []"
    then obtain f fs where q: "loopq s l = f # fs" by (auto simp: neq_Nil_conv)
    note head = cq_head [OF sys_invD(4) [OF inv] q]
    have "sum_list (map functor_weight (cq s (functor_conn f))) = 0" using zero head(2) by (simp add: sys_weight_def)
    then show False using head(3) functor_weight_pos(1) [of f] by simp
  qed
  ultimately show "base_calls (srv s) = [] \<and> (\<forall>l. loopq s l = [])" by blast
qed (simp add: sys_weight_def cq_def)

section \<open>Properties\<close>

text \<open>C14: the loops come to rest. Take any state that a run without an interrupted \<open>send\<close> or \<open>shutdown\<close> of another thread
  reaches, and let from then on only the base loop and the other loops take turns, in any order, to run functors from
  their queues, whatever the kernel answers; the user callbacks that these functors call queue nothing
  themselves (a write-complete callback that sends again could keep a queue busy for ever). Every turn takes at least
  one from the weight of the queues (one for each functor, two for a removal, three for a queued send),
  and the weight is zero exactly when all queues are empty. So the turns end, and every connection
  that is down gets destroyed.\<close>

theorem System_functors_drain:
  fixes ps :: "nat \<Rightarrow> 'k EPollPoller"
  assumes "TcpServer_new socket_fd null_fd answer ch p loop addr nm opt = Inr s0"
    and "infra_ready ctl interest fds p" "even ch" "ch_index (chan p ch) = kNew" "channels p socket_fd = None"
      "socket_fd \<in> set fds" "\<And>l. infra_ready ctl interest fds (ps l)"
    and "list_all uninterrupted opers"
      "sys_pres ctl opers (system_new (TcpServer_start new_loop (server_setThreadNum n s0)) wc ps fds)"
    and "sys_run ctl opers (system_new (TcpServer_start new_loop (server_setThreadNum n s0)) wc ps fds) = Inr s"
    and "busy_run ctl turns s" "sys_run ctl turns s = Inr s'"
  shows "length turns + sys_weight s' \<le> sys_weight s \<and>
    (sys_weight s' = 0 \<longleftrightarrow> base_calls (srv s') = [] \<and> (\<forall>l. loopq s' l = []))"
proof -
  have "sys_inv ctl interest {} s"
    using sys_run_ok [OF system_new_inv [OF assms(1-7)] assms(8,9)] assms(10) by simp
  from busy_run_bounded [OF this assms(11,12)] sys_weight_zero show ?thesis by blast
qed

text \<open>The sample server after the hang-up: one turn of the base loop, one of the loop of the connection.\<close>

definition sample_hangup :: "sys_op list" where
  "sample_hangup = sample_open @ [SysEvent 0 EPOLLHUP sample_io (Timestamp 5)]"

definition sample_turns :: "sys_op list" where
  "sample_turns = [SysBase 0, SysLoop 1 sample_io]"

lemmas sample_hangup_defs = sample_hangup_def sample_sys_defs report_event_def conn_event_def handleEvent_def
  handleEventWithGuard_def handleClose_def isNoneEvent_def sys_removeConnection_def sys_removeConnectionInLoop_def
  connectionDestoryed_def removeChannel_def

lemma sample_hangup_run:
  assumes "TcpServer_new 3 4 0 0 sample_base (Some 0) sample_addr ''echo'' kNotReusePort = Inr s0"
  shows "case sys_run map_ctl sample_hangup (sample_system s0) of Inl _ \<Rightarrow> False | Inr s \<Rightarrow>
    sys_weight s = 2 \<and> busy_run map_ctl sample_turns s \<and> (\<exists>s'. sys_run map_ctl sample_turns s = Inr s')"
  using assms by (clarsimp simp: sample_hangup_defs sample_turns_def sys_weight_def cq_def)

lemma sample_hangup_pres:
  assumes "TcpServer_new 3 4 0 0 sample_base (Some 0) sample_addr ''echo'' kNotReusePort = Inr s0"
  shows "sys_pres map_ctl sample_hangup (sample_system s0)" "list_all uninterrupted sample_hangup"
  using assms by (clarsimp simp: sample_hangup_defs)+

theorem System_functors_drain_witness:
  "\<exists>s0 s s'. TcpServer_new 3 4 0 0 sample_base (Some 0) sample_addr ''echo'' kNotReusePort = Inr s0 \<and>
    sys_run map_ctl sample_hangup (sample_system s0) = Inr s \<and> sys_run map_ctl sample_turns s = Inr s' \<and>
    base_calls (srv s') = [] \<and> (\<forall>l. loopq s' l = [])"
proof -
  obtain s0 where s0: "TcpServer_new 3 4 0 0 sample_base (Some 0) sample_addr ''echo'' kNotReusePort = Inr s0"
    by (rule sample_server)
  obtain s s' where s: "sys_run map_ctl sample_hangup (sample_system s0) = Inr s" "sys_weight s = 2"
      "busy_run map_ctl sample_turns s" "sys_run map_ctl sample_turns s = Inr s'"
    using sample_hangup_run [OF s0] by (cases "sys_run map_ctl sample_hangup (sample_system s0)") auto
  from System_functors_drain [OF s0 sample_infra(1) _ sample_infra(2,3) _ _ sample_hangup_pres(2) [OF s0]
      sample_hangup_pres(1) [OF s0, unfolded sample_system_def] s(1) [unfolded sample_system_def] s(3,4)] sample_infra(1) s(2)
  have "base_calls (srv s') = [] \<and> (\<forall>l. loopq s' l = [])" by (auto simp: sample_turns_def)
  then show ?thesis using s0 s by blast
qed

end
