(* ===== verification/Net_Teardown.thy ===== *)
theory Net_Teardown
  imports Net_Progress
begin

text \<open>
  The destructor of a server while its connections are open: \<open>TcpServer::~TcpServer\<close>, interleaved with the loops
  of the connections and their end. No functor waits when it starts, no event arrives from outside while it
  works, and it runs on the thread of the base loop.
\<close>

section \<open>The destructor\<close>

text \<open>
  For each connection of the table the destructor gives up its pointer and has the connection destroyed in its
  loop: at once when that is the base loop, on whose thread the destructor runs.
\<close>

definition drop_entry :: "nat \<Rightarrow> 'k system \<Rightarrow> 'k system" where
  "drop_entry c s = s\<lparr>srv := (srv s)\<lparr>connections := (connections (srv s))(co_name (conn_objs (srv s) ! c) := None),
     io_calls := io_calls (srv s) @ [(conn_loop s c, ConnectionDestroyed c)]\<rparr>\<rparr>"

definition destroy_entry :: "'k epoll_ctl \<Rightarrow> nat \<Rightarrow> 'k system \<Rightarrow> 'k system result" where
  "destroy_entry ctl c s =
     (if conn_loop s c = srv_loop (srv s)
      then conn_do c (connectionDestoryed ctl (enter (drop_entry c s) c)) (drop_entry c s)
      else Inr (queue_fns (conn_loop s c) [DestroyedFn c] (drop_entry c s)))"

text \<open>Then the members go: the pool joins its loops (below), and the acceptor is destroyed.\<close>

definition sys_members :: "'k epoll_ctl \<Rightarrow> 'k system \<Rightarrow> 'k system result" where
  "sys_members ctl s =
     rbind (Acceptor_delete ctl (srv_acceptor (srv s)) (base_poller (srv s))) (\<lambda>(closed, p).
       Inr (s\<lparr>srv := (srv s)\<lparr>base_poller := p, closed_fds := closed_fds (srv s) @ closed\<rparr>\<rparr>))"

definition sys_entries :: "'k system \<Rightarrow> nat set" where
  "sys_entries s = {c. c < conn_count s \<and> connections (srv s) (co_name (conn_objs (srv s) ! c)) = Some c}"

text \<open>
  Where a loop is in \<open>EventLoop::loop\<close>: not yet behind the swap of \<open>doPendingFunctors\<close>; behind it, with so many of the taken
  functors left to run (they are the first of its queue); behind the loop. The functors that a loop leaves
  behind when it ends are never run. The destructor has the entries \<open>td_todo\<close> before it, in the unspecified
  order of the hash table; \<open>td_quit\<close> are the loops whose \<open>quit_\<close> the pool has set.
\<close>

datatype loop_place = InPoll | InRound nat | Ended

record 'k teardown =
  td_sys :: "'k system"
  td_todo :: "nat list"
  td_place :: "nat \<Rightarrow> loop_place"
  td_quit :: "nat set"

definition td_begin :: "nat list \<Rightarrow> (nat \<Rightarrow> loop_place) \<Rightarrow> 'k system \<Rightarrow> 'k teardown" where
  "td_begin order places s = \<lparr>td_sys = s, td_todo = order, td_place = places, td_quit = {}\<rparr>"

text \<open>
  The steps, in any order: the destructor treats the next entry; behind its body the destructor of an
  \<open>EventLoopThread\<close> sets \<open>quit_\<close>; a loop takes its queue, runs the next taken functor, and at the end of the round
  tests \<open>quit_\<close>. \<open>None\<close>: not enabled.
\<close>

datatype td_op = DestroyEntry | QuitLoop nat | TakeQueue nat | RunNext nat conn_io | EndRound nat

fun td_exec :: "'k epoll_ctl \<Rightarrow> td_op \<Rightarrow> 'k teardown \<Rightarrow> 'k teardown result option" where
  "td_exec ctl DestroyEntry t =
     (case td_todo t of [] \<Rightarrow> None
      | c # cs \<Rightarrow> Some (rbind (destroy_entry ctl c (td_sys t)) (\<lambda>s. Inr (t\<lparr>td_sys := s, td_todo := cs\<rparr>))))"
| "td_exec ctl (QuitLoop l) t =
     (if td_todo t = [] then Some (Inr (t\<lparr>td_quit := insert l (td_quit t)\<rparr>)) else None)"
| "td_exec ctl (TakeQueue l) t =
     (if td_place t l = InPoll
      then Some (Inr (t\<lparr>td_place := (td_place t)(l := InRound (length (loopq (td_sys t) l)))\<rparr>)) else None)"
| "td_exec ctl (RunNext l io) t =
     (case td_place t l of
        InRound (Suc n) \<Rightarrow> Some (rbind (sys_exec ctl (SysLoop l io) (td_sys t)) (\<lambda>s.
          Inr (t\<lparr>td_sys := s, td_place := (td_place t)(l := InRound n)\<rparr>)))
      | _ \<Rightarrow> None)"
| "td_exec ctl (EndRound l) t =
     (if td_place t l = InRound 0
      then Some (Inr (t\<lparr>td_place := (td_place t)(l := if l \<in> td_quit t then Ended else InPoll)\<rparr>)) else None)"

fun td_run :: "'k epoll_ctl \<Rightarrow> td_op list \<Rightarrow> 'k teardown \<Rightarrow> 'k teardown result option" where
  "td_run ctl [] t = Some (Inr t)"
| "td_run ctl (oper # opers) t =
     (case td_exec ctl oper t of
        None \<Rightarrow> None | Some (Inl e) \<Rightarrow> Some (Inl e) | Some (Inr t') \<Rightarrow> td_run ctl opers t')"

section \<open>One connection\<close>

text \<open>The user is told that a connection is down if it was up; one that was shutting down goes silently.\<close>

definition down_calls :: "'k conn_env \<Rightarrow> conn_call list" where
  "down_calls w = (if state (cn w) = kConnected then [ConnectionCall kDisconnected] else [])"

lemma connectionDestoryed_any:
  fixes w :: "'k conn_env"
  assumes ready: "poller_ready ctl interest (poller w)" and reg: "ch_index (channel_of w) \<noteq> kNew"
  shows "\<exists>w'. connectionDestoryed ctl w = Inr w' \<and> poller_ready ctl interest (poller w') \<and>
    tc_channel (cn w') = tc_channel (cn w) \<and> ch_index (channel_of w') = kNew \<and>
    (\<forall>d. d \<noteq> tc_channel (cn w) \<longrightarrow> chan (poller w') d = chan (poller w) d) \<and>
    pending w' = pending w \<and> calls w' = calls w @ down_calls w"
proof (cases "state (cn w) = kConnected")
  case False
  then show ?thesis using epoll.remove_ok [OF ready reg] by (auto simp: connectionDestoryed_def down_calls_def)
next
  case True
  obtain p i where p: "set_interest ctl DisableAll (tc_channel (cn w)) (poller w) = Inr p" "poller_ready ctl interest p"
      "i \<noteq> kNew" "chan p = (chan (poller w))(tc_channel (cn w) :=
        (channel_of w)\<lparr>ch_events := interest_mask DisableAll (ch_events (channel_of w)), ch_index := i\<rparr>)"
    using epoll.set_ok [OF ready epoll.known_may [OF reg]] by blast
  obtain p' where "removeChannel ctl (tc_channel (cn w)) p = Inr p'" "poller_ready ctl interest p'"
      "chan p' = (chan p)(tc_channel (cn w) := (chan p (tc_channel (cn w)))\<lparr>ch_index := kNew\<rparr>)"
    using epoll.remove_ok [OF p(2), of "tc_channel (cn w)"] p(3,4) by auto
  then show ?thesis using True p by (simp add: connectionDestoryed_def down_calls_def conn_interest_def conn_simps)
qed

section \<open>What holds meanwhile\<close>

text \<open>
  From the system \<open>s0\<close> in which the destructor starts: \<open>W\<close> are the connections that wait for their
  \<open>connectionDestoryed\<close>. Only their channels are known to the pollers beside those that belong to no connection.
\<close>

definition tearing ::
  "'k epoll_ctl \<Rightarrow> ('k \<Rightarrow> int \<rightharpoonup> events \<times> channel_id) \<Rightarrow> 'k system \<Rightarrow> nat set \<Rightarrow> 'k system \<Rightarrow> bool" where
  "tearing ctl interest s0 W s \<longleftrightarrow>
     conn_objs (srv s) = conn_objs (srv s0) \<and> srv_loop (srv s) = srv_loop (srv s0) \<and>
     srv_acceptor (srv s) = srv_acceptor (srv s0) \<and> base_calls (srv s) = base_calls (srv s0) \<and> held s = held s0 \<and>
     length (conns s) = conn_count s0 \<and> W \<subseteq> sys_entries s0 \<and> (\<forall>l. poller_ready ctl interest (poller_at s l)) \<and>
     (\<forall>l d. even d \<longrightarrow> chan (poller_at s l) d = chan (poller_at s0 l) d) \<and>
     (\<forall>l d. odd d \<longrightarrow> ch_index (chan (poller_at s l) d) \<noteq> kNew \<longleftrightarrow> (\<exists>c \<in> W. d = conn_chan c \<and> l = conn_loop s0 c)) \<and>
     (\<forall>c < conn_count s0. tc_channel (cn (conns s ! c)) = conn_chan c \<and> pending (conns s ! c) = [] \<and>
        (c \<in> W \<longrightarrow> state (cn (conns s ! c)) = state (cn (conns s0 ! c))) \<and>
        calls (conns s ! c) = calls (conns s0 ! c) @ (if c \<in> sys_entries s0 - W then down_calls (conns s0 ! c) else []))"

lemma tearing_cong:
  assumes "tearing ctl interest s0 W s" "conn_objs (srv s') = conn_objs (srv s)" "srv_loop (srv s') = srv_loop (srv s)"
    "srv_acceptor (srv s') = srv_acceptor (srv s)" "base_calls (srv s') = base_calls (srv s)" "held s' = held s"
    "conns s' = conns s" "poller_at s' = poller_at s"
  shows "tearing ctl interest s0 W s'"
  using assms by (simp add: tearing_def)

lemma tearing_loop: "tearing ctl interest s0 W s \<Longrightarrow> conn_loop s = conn_loop s0"
  by (simp add: tearing_def conn_loop_def fun_eq_iff)

lemma drop_entry_simps [simp]:
  "conn_objs (srv (drop_entry c s)) = conn_objs (srv s)" "loopq (drop_entry c s) = loopq s"
  "conn_loop (drop_entry c s) = conn_loop s"
  "connections (srv (drop_entry c s)) = (connections (srv s))(co_name (conn_objs (srv s) ! c) := None)"
  by (simp_all add: drop_entry_def conn_loop_def fun_eq_iff)

lemma tearing_drop:
  assumes "tearing ctl interest s0 W s"
  shows "tearing ctl interest s0 W (drop_entry c s)"
  by (rule tearing_cong [OF assms]) (simp_all add: drop_entry_def poller_at_def fun_eq_iff)

lemma tearing_queue:
  assumes "tearing ctl interest s0 W s"
  shows "tearing ctl interest s0 W (s\<lparr>loopq := q\<rparr>)"
  by (rule tearing_cong [OF assms]) simp_all

text \<open>\<open>connectionDestoryed\<close> of a connection that waits for it.\<close>

lemma tearing_destroy:
  fixes s :: "'k system"
  assumes t: "tearing ctl interest s0 W s" and c: "c \<in> W"
  shows "\<exists>w. conn_do c (connectionDestoryed ctl (enter s c)) s = Inr (leave c w s) \<and> pending w = [] \<and>
    tearing ctl interest s0 (W - {c}) (leave c w s)"
proof -
  have n: "c < conn_count s0" and E: "c \<in> sys_entries s0" using t c by (auto simp: tearing_def sys_entries_def)
  have old: "tc_channel (cn (conns s ! c)) = conn_chan c" "pending (conns s ! c) = []"
      "state (cn (conns s ! c)) = state (cn (conns s0 ! c))" "calls (conns s ! c) = calls (conns s0 ! c)"
    using t c n by (simp_all add: tearing_def)
  have odd: "odd (conn_chan c)" by (simp add: conn_chan_def)
  have loop: "conn_loop s c = conn_loop s0 c" by (simp add: tearing_loop [OF t])
  have "ch_index (channel_of (enter s c)) \<noteq> kNew" using t c odd by (auto simp: tearing_def old(1) loop)
  moreover have "poller_ready ctl interest (poller (enter s c))" using t by (simp add: tearing_def)
  ultimately obtain w where w: "connectionDestoryed ctl (enter s c) = Inr w" "poller_ready ctl interest (poller w)"
      "tc_channel (cn w) = conn_chan c" "ch_index (chan (poller w) (conn_chan c)) = kNew"
      "\<And>d. d \<noteq> conn_chan c \<Longrightarrow> chan (poller w) d = chan (poller_at s (conn_loop s0 c)) d"
      "pending w = []" "calls w = calls (conns s0 ! c) @ down_calls (conns s0 ! c)"
    using connectionDestoryed_any [of ctl interest "enter s c"] by (auto simp: old loop down_calls_def)
  have run: "conn_do c (connectionDestoryed ctl (enter s c)) s = Inr (leave c w s)"
    using w(1,7) old(4) by (simp add: conn_do_def down_calls_def)
  have inj: "conn_chan d = conn_chan c \<longleftrightarrow> d = c" for d by (simp add: conn_chan_def)
  have "tearing ctl interest s0 (W - {c}) (leave c w s)"
    unfolding tearing_def
  proof (intro conjI allI impI)
    fix l d
    show "poller_ready ctl interest (poller_at (leave c w s) l)" using t w(2) by (simp add: tearing_def)
    show "chan (poller_at (leave c w s) l) d = chan (poller_at s0 l) d" if "even d"
      using t w(5) [of d] that odd by (auto simp: tearing_def loop)
    show "ch_index (chan (poller_at (leave c w s) l) d) \<noteq> kNew \<longleftrightarrow> (\<exists>c' \<in> W - {c}. d = conn_chan c' \<and> l = conn_loop s0 c')" if "odd d"
    proof (cases "d = conn_chan c \<and> l = conn_loop s0 c")
      case True
      then show ?thesis using w(4) by (auto simp: loop inj [symmetric])
    next
      case False
      then have "chan (poller_at (leave c w s) l) d = chan (poller_at s l) d" using w(5) [of d] by (auto simp: loop)
      then show ?thesis using t that False by (auto simp: tearing_def)
    qed
  next
    fix d assume d: "d < conn_count s0"
    show "tc_channel (cn (conns (leave c w s) ! d)) = conn_chan d"
      "pending (conns (leave c w s) ! d) = []"
      using t d w(3) n by (cases "d = c"; simp add: tearing_def)+
    show "state (cn (conns (leave c w s) ! d)) = state (cn (conns s0 ! d))" if "d \<in> W - {c}"
      using t d that by (simp add: tearing_def)
    show "calls (conns (leave c w s) ! d) =
        calls (conns s0 ! d) @ (if d \<in> sys_entries s0 - (W - {c}) then down_calls (conns s0 ! d) else [])"
      using t d w(7) n E by (cases "d = c"; simp add: tearing_def)
  qed (use t in \<open>auto simp: tearing_def\<close>)
  then show ?thesis using run w(6) by blast
qed

text \<open>
  With the queues: \<open>todo\<close> are the entries the destructor has not reached yet, the others wait in the queues
  of their loops, each once.
\<close>

definition waiting :: "nat list \<Rightarrow> 'k system \<Rightarrow> nat set" where
  "waiting todo s = set todo \<union> {c. DestroyedFn c \<in> set (loopq s (conn_loop s c))}"

definition tear_inv ::
  "'k epoll_ctl \<Rightarrow> ('k \<Rightarrow> int \<rightharpoonup> events \<times> channel_id) \<Rightarrow> 'k system \<Rightarrow> nat list \<Rightarrow> 'k system \<Rightarrow> bool" where
  "tear_inv ctl interest s0 todo s \<longleftrightarrow>
     tearing ctl interest s0 (waiting todo s) s \<and> distinct todo \<and>
     (\<forall>l. distinct (loopq s l)) \<and>
     (\<forall>l. \<forall>f \<in> set (loopq s l). \<exists>c. f = DestroyedFn c \<and> conn_loop s c = l \<and> c \<notin> set todo) \<and>
     (\<forall>c < conn_count s0. connections (srv s) (co_name (conn_objs (srv s0) ! c)) = Some c \<longleftrightarrow> c \<in> set todo)"

lemma tear_invD:
  assumes "tear_inv ctl interest s0 todo s"
  shows "tearing ctl interest s0 (waiting todo s) s" "distinct todo" "distinct (loopq s l)"
    "f \<in> set (loopq s l) \<Longrightarrow> \<exists>c. f = DestroyedFn c \<and> conn_loop s c = l \<and> c \<notin> set todo"
    "c < conn_count s0 \<Longrightarrow> connections (srv s) (co_name (conn_objs (srv s0) ! c)) = Some c \<longleftrightarrow> c \<in> set todo"
  using assms unfolding tear_inv_def by blast+

text \<open>The destructor reaches one more entry.\<close>

lemma drop_table:
  assumes inv: "tear_inv ctl interest s0 (c # cs) s" and d: "d < conn_count s0"
  shows "connections (srv (drop_entry c s)) (co_name (conn_objs (srv s0) ! d)) = Some d \<longleftrightarrow> d \<in> set cs"
proof -
  have objs: "conn_objs (srv s) = conn_objs (srv s0)" and c: "c < conn_count s0"
    using tear_invD(1) [OF inv] by (auto simp: tearing_def waiting_def sys_entries_def)
  have "c \<notin> set cs" using tear_invD(2) [OF inv] by simp
  moreover have "d = c" if "co_name (conn_objs (srv s0) ! d) = co_name (conn_objs (srv s0) ! c)" "d \<in> set cs"
    using that tear_invD(5) [OF inv d] tear_invD(5) [OF inv c] by simp
  ultimately show ?thesis using tear_invD(5) [OF inv d] by (auto simp: objs)
qed

lemma entry_now:
  fixes s :: "'k system"
  assumes inv: "tear_inv ctl interest s0 (c # cs) s"
  shows "\<exists>s'. conn_do c (connectionDestoryed ctl (enter (drop_entry c s) c)) (drop_entry c s) = Inr s' \<and>
    tear_inv ctl interest s0 cs s'"
proof -
  note D = tear_invD [OF inv]
  let ?s = "drop_entry c s"
  have free: "DestroyedFn c \<notin> set (loopq s l)" for l using D(4) [of "DestroyedFn c" l] by auto
  have c: "c \<in> waiting (c # cs) s" by (simp add: waiting_def)
  obtain w where w: "conn_do c (connectionDestoryed ctl (enter ?s c)) ?s = Inr (leave c w ?s)" "pending w = []"
      "tearing ctl interest s0 (waiting (c # cs) s - {c}) (leave c w ?s)"
    using tearing_destroy [OF tearing_drop [OF D(1)] c] by blast
  have q: "loopq (leave c w ?s) l = loopq s l" for l by (simp add: w(2))
  have "waiting cs (leave c w ?s) = waiting (c # cs) s - {c}"
    using D(2) free by (auto simp: waiting_def q)
  moreover have "\<exists>d. f = DestroyedFn d \<and> conn_loop s d = l \<and> d \<notin> set cs" if "f \<in> set (loopq s l)" for l f
    using D(4) [OF that] by auto
  ultimately have "tear_inv ctl interest s0 cs (leave c w ?s)"
    using w(3) D(2,3) drop_table [OF inv] unfolding tear_inv_def q by simp
  then show ?thesis using w(1) by blast
qed

lemma entry_queued:
  assumes inv: "tear_inv ctl interest s0 (c # cs) s"
  shows "tear_inv ctl interest s0 cs (queue_fns (conn_loop s c) [DestroyedFn c] (drop_entry c s))" (is "tear_inv _ _ _ _ ?s")
proof -
  note D = tear_invD [OF inv]
  have free: "DestroyedFn c \<notin> set (loopq s l)" for l using D(4) [of "DestroyedFn c" l] by auto
  have q: "loopq ?s = (loopq s)(conn_loop s c := loopq s (conn_loop s c) @ [DestroyedFn c])" by (simp add: queue_fns_def)
  have loop: "conn_loop ?s = conn_loop s" by (simp add: queue_fns_def)
  have "tearing ctl interest s0 (waiting (c # cs) s) ?s"
    unfolding queue_fns_def by (rule tearing_queue [OF tearing_drop [OF D(1)]])
  moreover have "waiting cs ?s = waiting (c # cs) s" by (auto simp: waiting_def q loop)
  moreover have "connections (srv ?s) = connections (srv (drop_entry c s))" by (simp add: queue_fns_def)
  moreover have "\<exists>d. f = DestroyedFn d \<and> conn_loop s d = l \<and> d \<notin> set cs" if "f \<in> set (loopq ?s l)" for l f
    using that D(2) D(4) [of f l] by (auto simp: q split: if_splits)
  ultimately show ?thesis
    using D(2,3) free drop_table [OF inv] unfolding tear_inv_def loop by (simp add: q)
qed

lemma destroy_entry_ok:
  fixes s :: "'k system"
  assumes "tear_inv ctl interest s0 (c # cs) s"
  shows "\<exists>s'. destroy_entry ctl c s = Inr s' \<and> tear_inv ctl interest s0 cs s'"
  using entry_now [OF assms] entry_queued [OF assms] by (auto simp: destroy_entry_def)

lemma destroy_entry_queue:
  assumes "destroy_entry ctl c s = Inr s'" "tear_inv ctl interest s0 (c # cs) s"
  shows "loopq s' = (if conn_loop s c = srv_loop (srv s) then loopq s
    else (loopq s)(conn_loop s c := loopq s (conn_loop s c) @ [DestroyedFn c]))"
proof (cases "conn_loop s c = srv_loop (srv s)")
  case True
  have "c \<in> waiting (c # cs) s" by (simp add: waiting_def)
  from tearing_destroy [OF tearing_drop [OF tear_invD(1) [OF assms(2)]] this, of c]
  obtain w where "conn_do c (connectionDestoryed ctl (enter (drop_entry c s) c)) (drop_entry c s) =
      Inr (leave c w (drop_entry c s))" "pending w = []" by blast
  then show ?thesis using True assms(1) by (auto simp: destroy_entry_def fun_eq_iff)
qed (use assms(1) in \<open>auto simp: destroy_entry_def queue_fns_def\<close>)

text \<open>A loop runs the next functor.\<close>

lemma turn_ok:
  fixes s :: "'k system"
  assumes inv: "tear_inv ctl interest s0 todo s"
  shows "\<exists>s'. sys_exec ctl (SysLoop l io) s = Inr s' \<and> tear_inv ctl interest s0 todo s' \<and>
    loopq s' = (loopq s)(l := tl (loopq s l))"
proof (cases "loopq s l")
  case Nil
  then show ?thesis using inv by (simp add: fun_upd_idem)
next
  case (Cons f fs)
  note D = tear_invD [OF inv]
  obtain c where f: "f = DestroyedFn c" and l: "conn_loop s c = l" and new: "c \<notin> set todo"
    using D(4) [of f l] Cons by auto
  let ?s = "s\<lparr>loopq := (loopq s)(l := fs)\<rparr>"
  have c: "c \<in> waiting todo s" using Cons f l by (simp add: waiting_def)
  obtain w where w: "conn_do c (connectionDestoryed ctl (enter ?s c)) ?s = Inr (leave c w ?s)" "pending w = []"
      "tearing ctl interest s0 (waiting todo s - {c}) (leave c w ?s)"
    using tearing_destroy [OF tearing_queue [OF D(1)] c] by blast
  have "c < conn_count s" using c D(1) by (auto simp: tearing_def sys_entries_def)
  then have "alive s c" using Cons f l by (simp add: alive_def)
  then have run: "sys_exec ctl (SysLoop l io) s = Inr (leave c w ?s)" using Cons f w(1) by (simp add: touch_def)
  have q: "loopq (leave c w ?s) = (loopq s)(l := fs)" by (simp add: w(2) fun_eq_iff)
  have "DestroyedFn c \<notin> set fs" using D(3) [of l] Cons f by simp
  then have "waiting todo (leave c w ?s) = waiting todo s - {c}"
    using Cons f l new by (auto simp: waiting_def q)
  moreover have "distinct (((loopq s)(l := fs)) l')"
      "\<forall>g \<in> set (((loopq s)(l := fs)) l'). \<exists>d. g = DestroyedFn d \<and> conn_loop s d = l' \<and> d \<notin> set todo" for l'
    using D(3) [of l'] D(4) [of _ l'] Cons by auto
  ultimately have "tear_inv ctl interest s0 todo (leave c w ?s)"
    using w(3) D(2,5) unfolding tear_inv_def q by simp
  then show ?thesis using run q Cons by simp
qed

text \<open>
  All steps: what a loop has taken is part of its queue, and the base loop gets nothing.
\<close>

definition td_inv ::
  "'k epoll_ctl \<Rightarrow> ('k \<Rightarrow> int \<rightharpoonup> events \<times> channel_id) \<Rightarrow> 'k system \<Rightarrow> 'k teardown \<Rightarrow> bool" where
  "td_inv ctl interest s0 t \<longleftrightarrow>
     tear_inv ctl interest s0 (td_todo t) (td_sys t) \<and> loopq (td_sys t) (srv_loop (srv s0)) = [] \<and>
     (\<forall>l n. td_place t l = InRound n \<longrightarrow> n \<le> length (loopq (td_sys t) l))"

text \<open>From the end of the destructor's body on, a loop that takes its queue takes all of it.\<close>

definition round_whole :: "nat \<Rightarrow> 'k teardown \<Rightarrow> bool" where
  "round_whole l t \<longleftrightarrow> td_todo t = [] \<and>
     (case td_place t l of InPoll \<Rightarrow> True | InRound n \<Rightarrow> n = length (loopq (td_sys t) l) | Ended \<Rightarrow> loopq (td_sys t) l = [])"

lemma td_inv_loop:
  "td_inv ctl interest s0 t \<Longrightarrow> srv_loop (srv (td_sys t)) = srv_loop (srv s0)"
  by (simp add: td_inv_def tear_inv_def tearing_def)

lemma td_exec_ok:
  fixes t :: "'k teardown"
  assumes inv: "td_inv ctl interest s0 t" and run: "td_exec ctl oper t = Some res"
  shows "\<exists>t'. res = Inr t' \<and> td_inv ctl interest s0 t' \<and> (round_whole l t \<longrightarrow> round_whole l t')"
proof (cases oper)
  case DestroyEntry
  then obtain c cs where c: "td_todo t = c # cs" using run by (cases "td_todo t") auto
  have tear: "tear_inv ctl interest s0 (c # cs) (td_sys t)" using inv c by (simp add: td_inv_def)
  obtain s' where s': "destroy_entry ctl c (td_sys t) = Inr s'" "tear_inv ctl interest s0 cs s'"
    using destroy_entry_ok [OF tear] by blast
  have "td_inv ctl interest s0 (t\<lparr>td_sys := s', td_todo := cs\<rparr>)"
    using inv s'(2) td_inv_loop [OF inv]
    by (auto simp: td_inv_def destroy_entry_queue [OF s'(1) tear] le_SucI)
  then show ?thesis using run DestroyEntry c s'(1) by (auto simp: round_whole_def)
next
  case (QuitLoop k)
  then show ?thesis using run inv by (auto simp: td_inv_def round_whole_def split: if_splits loop_place.splits)
next
  case (TakeQueue k)
  then show ?thesis using run inv by (auto simp: td_inv_def round_whole_def split: if_splits loop_place.splits)
next
  case (RunNext k io)
  then obtain n where n: "td_place t k = InRound (Suc n)"
    using run by (auto split: loop_place.splits nat.splits)
  obtain s' where s': "sys_exec ctl (SysLoop k io) (td_sys t) = Inr s'" "tear_inv ctl interest s0 (td_todo t) s'"
      "loopq s' = (loopq (td_sys t))(k := tl (loopq (td_sys t) k))"
    using turn_ok [of ctl interest s0 "td_todo t" "td_sys t" k io] inv by (auto simp: td_inv_def)
  have "Suc n \<le> length (loopq (td_sys t) k)" using inv n by (auto simp: td_inv_def)
  then have "td_inv ctl interest s0 (t\<lparr>td_sys := s', td_place := (td_place t)(k := InRound n)\<rparr>)"
    using inv s'(2) by (auto simp: td_inv_def s'(3))
  moreover have "round_whole l t \<longrightarrow> round_whole l (t\<lparr>td_sys := s', td_place := (td_place t)(k := InRound n)\<rparr>)"
    using n by (auto simp: round_whole_def s'(3) split: loop_place.splits)
  ultimately show ?thesis using run RunNext n s'(1) by (auto simp del: sys_exec.simps)
next
  case (EndRound k)
  then show ?thesis using run inv by (auto simp: td_inv_def round_whole_def split: if_splits loop_place.splits)
qed

lemma td_run_ok:
  fixes t :: "'k teardown"
  shows "td_inv ctl interest s0 t \<Longrightarrow> td_run ctl opers t = Some res \<Longrightarrow>
    \<exists>t'. res = Inr t' \<and> td_inv ctl interest s0 t' \<and> (\<forall>l. round_whole l t \<longrightarrow> round_whole l t')"
proof (induction opers arbitrary: t)
  case (Cons oper opers)
  then obtain res1 where res1: "td_exec ctl oper t = Some res1" by (cases "td_exec ctl oper t") simp_all
  obtain t1 where t1: "res1 = Inr t1" using td_exec_ok [OF Cons.prems(1) res1] by blast
  have "td_inv ctl interest s0 t1" "\<And>l. round_whole l t \<Longrightarrow> round_whole l t1"
    using td_exec_ok [OF Cons.prems(1) res1] t1 by blast+
  moreover have "td_run ctl opers t1 = Some res" using Cons.prems(2) res1 t1 by simp
  ultimately show ?case using Cons.IH by blast
qed auto

lemma td_exec_body: "td_exec ctl oper t = Some (Inr t') \<Longrightarrow> td_todo t = [] \<Longrightarrow> td_todo t' = []"
  by (cases oper)
    (auto simp: rbind_eq_Inr split: if_splits loop_place.splits nat.splits simp del: sys_exec.simps)

lemma td_run_body: "td_run ctl opers t = Some (Inr t') \<Longrightarrow> td_todo t = [] \<Longrightarrow> td_todo t' = []"
proof (induction opers arbitrary: t)
  case (Cons oper opers)
  then show ?case by (auto split: option.splits sum.splits dest: td_exec_body simp del: td_exec.simps)
qed simp

section \<open>Start and end\<close>

lemma at_rest:
  assumes inv: "sys_inv ctl interest {} s" and q: "\<And>l. loopq s l = []" and base: "base_calls (srv s) = []"
    and c: "c < conn_count s"
  shows "c \<in> sys_entries s \<longleftrightarrow> ch_index (chan (poller_at s (conn_loop s c)) (conn_chan c)) \<noteq> kNew"
proof -
  note srv = sys_invD(1) [OF inv]
  have cq: "cq s c = []" by (simp add: cq_def q)
  have E: "c \<in> sys_entries s \<longleftrightarrow> c \<notin> removed (srv s)"
    using c server_invD(6) [OF srv c] server_invD(7) [OF srv] by (simp add: sys_entries_def)
  have ok: "conn_ok ctl interest False s c" using sys_invD(7) [OF inv c] by simp
  have "c \<notin> removed (srv s)" if "conn_up ctl interest False s c" using that by (simp add: conn_up_def cq)
  moreover have "conn_up ctl interest False s c" if "c \<notin> removed (srv s)"
    using that ok by (auto simp: conn_ok_def conn_waits_def conn_gone_def cq)
  ultimately show ?thesis using E registered_up [OF ok] up_registered [OF ok] by blast
qed

lemma tear_start:
  assumes inv: "sys_inv ctl interest {} s" and q: "\<And>l. loopq s l = []" and base: "base_calls (srv s) = []"
    and order: "distinct order" "set order = sys_entries s"
  shows "tear_inv ctl interest s order s"
proof -
  note rest = at_rest [OF inv q base]
  have W: "waiting order s = sys_entries s" by (simp add: waiting_def q order(2))
  have reg: "ch_index (chan (poller_at s l) d) \<noteq> kNew \<longleftrightarrow> (\<exists>c \<in> sys_entries s. d = conn_chan c \<and> l = conn_loop s c)"
    if "odd d" for l d
  proof
    assume known: "ch_index (chan (poller_at s l) d) \<noteq> kNew"
    from channels_okD [OF sys_invD(5) [OF inv] known] that obtain c where "c < conn_count s" "d = conn_chan c" "conn_loop s c = l"
      by blast
    then show "\<exists>c \<in> sys_entries s. d = conn_chan c \<and> l = conn_loop s c" using known rest [of c] by auto
  next
    assume "\<exists>c \<in> sys_entries s. d = conn_chan c \<and> l = conn_loop s c"
    then show "ch_index (chan (poller_at s l) d) \<noteq> kNew" using rest by (auto simp: sys_entries_def)
  qed
  have "tearing ctl interest s (sys_entries s) s"
    unfolding tearing_def using reg sys_invD(2,3) [OF inv] conn_ok_base(1,2) [OF sys_invD(7) [OF inv]] by simp
  then show ?thesis using order by (simp add: tear_inv_def W q) (simp add: sys_entries_def)
qed

text \<open>When every loop has run its queue, no poller knows a connection, and the acceptor can go.\<close>

lemma acceptor_may:
  assumes inv: "sys_inv ctl interest {} s0" and t: "tearing ctl interest s0 {} s"
  shows "may_update (base_poller (srv s)) (acceptChannel (srv_acceptor (srv s0)))"
proof (cases "channels (base_poller (srv s)) (ch_fd (chan (base_poller (srv s)) (acceptChannel (srv_acceptor (srv s0)))))")
  case (Some d)
  let ?p = "base_poller (srv s)" and ?q = "base_poller (srv s0)" and ?acc = "acceptChannel (srv_acceptor (srv s0))"
  have at: "?p = poller_at s (srv_loop (srv s0))" "?q = poller_at s0 (srv_loop (srv s0))"
    using t by (simp_all add: base_poller_at tearing_def)
  have same: "even e \<Longrightarrow> chan ?p e = chan ?q e" and known: "ch_index (chan ?p e) \<noteq> kNew \<Longrightarrow> even e" for e
    using t by (auto simp: at tearing_def)
  have "poller_inv interest ?p" using t by (simp add: at(1) tearing_def poller_ready_def)
  then have d: "ch_fd (chan ?p d) = ch_fd (chan ?p ?acc)" "ch_index (chan ?p d) \<noteq> kNew"
    using Some poller_invD(2) [of interest ?p] by (auto simp: index_defs)
  then have "d = ?acc"
    using sys_invD(6) [OF inv] known [of d] same [of d] same [of ?acc] by (auto simp: acceptor_ok_def Let_def)
  then show ?thesis using d(2) by (simp add: may_update_def)
qed (simp add: may_update_def)

lemma members_ok:
  fixes s0 s :: "'k system"
  assumes inv: "sys_inv ctl interest {} s0" and t: "tearing ctl interest s0 {} s"
  shows "\<exists>s'. sys_members ctl s = Inr s' \<and> (\<forall>l. poller_ready ctl interest (poller_at s' l)) \<and>
    (\<forall>l d. ch_index (chan (poller_at s' l) d) \<noteq> kNew \<longrightarrow> even d \<and> (l, d) \<noteq> (srv_loop (srv s0), acceptChannel (srv_acceptor (srv s0))) \<and>
      chan (poller_at s' l) d = chan (poller_at s0 l) d) \<and>
    closed_fds (srv s') = closed_fds (srv s) @
      [idleFd (srv_acceptor (srv s0)), sockfd (acceptSocket (srv_acceptor (srv s0)))] \<and>
    conns s' = conns s \<and> (\<forall>c. alive s' c \<longleftrightarrow> alive s c)"
proof -
  let ?p = "base_poller (srv s)" and ?acc = "acceptChannel (srv_acceptor (srv s0))"
  have at: "?p = poller_at s (srv_loop (srv s0))" "base_poller (srv s0) = poller_at s0 (srv_loop (srv s0))"
    using t by (simp_all add: base_poller_at tearing_def)
  have ready: "poller_ready ctl interest ?p" and even_same: "even d \<Longrightarrow> chan ?p d = chan (base_poller (srv s0)) d"
    and known: "ch_index (chan ?p d) \<noteq> kNew \<Longrightarrow> even d" for d
    using t by (auto simp: at tearing_def)
  obtain p1 i where p1: "set_interest ctl DisableAll ?acc ?p = Inr p1" "poller_ready ctl interest p1" "i \<noteq> kNew"
      "chan p1 = (chan ?p)(?acc := (chan ?p ?acc)\<lparr>ch_events := interest_mask DisableAll (ch_events (chan ?p ?acc)), ch_index := i\<rparr>)"
    using epoll.set_ok [OF ready acceptor_may [OF inv t]] by blast
  obtain p2 where p2: "removeChannel ctl ?acc p1 = Inr p2" "poller_ready ctl interest p2"
      "chan p2 = (chan p1)(?acc := (chan p1 ?acc)\<lparr>ch_index := kNew\<rparr>)"
    using epoll.remove_ok [OF p1(2), of ?acc] p1(3,4) by auto
  let ?s = "s\<lparr>srv := (srv s)\<lparr>base_poller := p2, closed_fds := closed_fds (srv s) @
      [idleFd (srv_acceptor (srv s0)), sockfd (acceptSocket (srv_acceptor (srv s0)))]\<rparr>\<rparr>"
  have a: "srv_acceptor (srv s) = srv_acceptor (srv s0)" "srv_loop (srv s) = srv_loop (srv s0)" using t by (simp_all add: tearing_def)
  have run: "sys_members ctl s = Inr ?s"
    using p1(1) p2(1) by (simp add: sys_members_def Acceptor_delete_def a Socket_delete_def)
  have at': "poller_at ?s l = (if l = srv_loop (srv s0) then p2 else poller_at s l)" for l by (simp add: poller_at_def a)
  have "alive ?s c \<longleftrightarrow> alive s c" for c by (simp add: alive_def conn_loop_def)
  moreover have "even d \<and> (l, d) \<noteq> (srv_loop (srv s0), ?acc) \<and> chan (poller_at ?s l) d = chan (poller_at s0 l) d"
    if "ch_index (chan (poller_at ?s l) d) \<noteq> kNew" for l d
  proof (cases "l = srv_loop (srv s0)")
    case True
    then have "d \<noteq> ?acc" using that by (auto simp: at' p2(3))
    then show ?thesis using that True known [of d] even_same [of d] by (auto simp: at' p2(3) p1(4) at(2))
  next
    case False
    then have "even d" using that t by (auto simp: at' tearing_def)
    then show ?thesis using False t by (auto simp: at' tearing_def)
  qed
  moreover have "poller_ready ctl interest (poller_at ?s l)" for l using t p2(2) by (simp add: at' tearing_def)
  ultimately show ?thesis using run by (intro exI [of _ ?s]) simp
qed

text \<open>
  What is left of a server: no poller and no kernel knows a channel of a connection or of the acceptor, a
  connection exists only while user code keeps a pointer, and the calls the user has seen are complete.
\<close>

definition torn_down :: "('k \<Rightarrow> int \<rightharpoonup> events \<times> channel_id) \<Rightarrow> 'k system \<Rightarrow> 'k system \<Rightarrow> bool" where
  "torn_down interest s s' \<longleftrightarrow>
     (\<forall>l fd d. channels (poller_at s' l) fd = Some d \<longrightarrow>
        even d \<and> (l, d) \<noteq> (srv_loop (srv s), acceptChannel (srv_acceptor (srv s)))) \<and>
     (\<forall>l fd ev d. interest (kernel (poller_at s' l)) fd = Some (ev, d) \<longrightarrow>
        even d \<and> (l, d) \<noteq> (srv_loop (srv s), acceptChannel (srv_acceptor (srv s)))) \<and>
     (\<forall>c < conn_count s. (alive s' c \<longleftrightarrow> c \<in> set (held s)) \<and>
        calls (conns s' ! c) = calls (conns s ! c) @ (if c \<in> sys_entries s then down_calls (conns s ! c) else []))"

lemma tear_end:
  fixes s s2 :: "'k system"
  assumes inv: "sys_inv ctl interest {} s" and base: "base_calls (srv s) = []"
    and t: "tear_inv ctl interest s [] s2" and q: "\<And>l. loopq s2 l = []"
  shows "\<exists>s3. sys_members ctl s2 = Inr s3 \<and> torn_down interest s s3"
proof -
  note D = tear_invD [OF t]
  have W: "waiting [] s2 = {}" by (simp add: waiting_def q)
  note tearing = D(1) [unfolded W]
  obtain s3 where s3: "sys_members ctl s2 = Inr s3" "\<And>l. poller_ready ctl interest (poller_at s3 l)"
      "\<And>l d. ch_index (chan (poller_at s3 l) d) \<noteq> kNew \<Longrightarrow>
        even d \<and> (l, d) \<noteq> (srv_loop (srv s), acceptChannel (srv_acceptor (srv s)))"
      "conns s3 = conns s2" "\<And>c. alive s3 c \<longleftrightarrow> alive s2 c"
    using members_ok [OF inv tearing] by blast
  have p: "poller_inv interest (poller_at s3 l)" for l using s3(2) by (simp add: poller_ready_def)
  have "alive s2 c \<longleftrightarrow> c \<in> set (held s)" if "c < conn_count s" for c
    using that tearing D(5) [OF that] base by (simp add: alive_def q tearing_def)
  moreover have "calls (conns s2 ! c) = calls (conns s ! c) @ (if c \<in> sys_entries s then down_calls (conns s ! c) else [])"
    if "c < conn_count s" for c using that tearing by (simp add: tearing_def)
  moreover have "even d \<and> (l, d) \<noteq> (srv_loop (srv s), acceptChannel (srv_acceptor (srv s)))"
    if "channels (poller_at s3 l) fd = Some d \<or> interest (kernel (poller_at s3 l)) fd = Some (ev, d)" for l fd d ev
    using that s3(3) [of l d] by (auto simp: poller_invD(2,3) [OF p] index_defs)
  ultimately have "torn_down interest s s3" unfolding torn_down_def s3(4,5) by blast
  then show ?thesis using s3(1) by blast
qed

text \<open>
  The loops whose round the end of the destructor's body precedes have run all that was queued for them when
  they end; with them every \<open>connectionDestoryed\<close> has run.
\<close>

definition pool_loops :: "'k system \<Rightarrow> nat set" where
  "pool_loops s = {conn_loop s c |c. c \<in> sys_entries s \<and> conn_loop s c \<noteq> srv_loop (srv s)}"

lemma td_begin_inv:
  assumes "tear_inv ctl interest s order s" "\<And>l. loopq s l = []" "\<And>l. places l \<in> {InPoll, InRound 0}"
  shows "td_inv ctl interest s (td_begin order places s)"
proof -
  have "n = 0" if "places l = InRound n" for l n using assms(3) [of l] that by simp
  then show ?thesis using assms(1,2) by (auto simp: td_inv_def td_begin_def)
qed

lemma td_calls:
  assumes inv: "td_inv ctl interest s t" and c: "c \<in> sys_entries s - set (td_todo t)"
  shows "calls (conns (td_sys t) ! c) = calls (conns s ! c) @
    (if DestroyedFn c \<in> set (loopq (td_sys t) (conn_loop s c)) then [] else down_calls (conns s ! c))"
proof -
  have t: "tearing ctl interest s (waiting (td_todo t) (td_sys t)) (td_sys t)"
    using inv by (simp add: td_inv_def tear_inv_def)
  have "c < conn_count s" using c by (simp add: sys_entries_def)
  then show ?thesis using t c by (auto simp: tearing_def waiting_def tearing_loop [OF t])
qed

lemma ended_queues:
  assumes inv: "td_inv ctl interest s t" and whole: "\<And>l. l \<in> pool_loops s \<Longrightarrow> round_whole l t"
    and ended: "\<And>l. l \<in> pool_loops s \<Longrightarrow> td_place t l = loop_place.Ended"
  shows "loopq (td_sys t) l = []"
proof (cases "l \<in> pool_loops s")
  case True
  then show ?thesis using whole [OF True] ended [OF True] by (simp add: round_whole_def)
next
  case False
  note tear = inv [unfolded td_inv_def, THEN conjunct1]
  note D = tear_invD [OF tear]
  show ?thesis
  proof (rule ccontr)
    assume "loopq (td_sys t) l \<noteq> []"
    then obtain f where f: "f \<in> set (loopq (td_sys t) l)" by (cases "loopq (td_sys t) l") auto
    obtain c where c: "f = DestroyedFn c" "conn_loop (td_sys t) c = l" using D(4) [OF f] by blast
    have "c \<in> sys_entries s" using D(1) f c by (auto simp: tearing_def waiting_def)
    then have "l = srv_loop (srv s)" using False c(2) by (auto simp: pool_loops_def tearing_loop [OF D(1)])
    then show False using f inv by (simp add: td_inv_def)
  qed
qed

lemma td_end:
  fixes t :: "'k teardown"
  assumes sys: "sys_inv ctl interest {} s" and base: "base_calls (srv s) = []"
    and inv: "td_inv ctl interest s t" and body: "td_todo t = []" and poll: "\<And>l. l \<in> pool_loops s \<Longrightarrow> td_place t l = InPoll"
    and run: "td_run ctl opers t = Some (Inr t')" and ended: "\<And>l. l \<in> pool_loops s \<Longrightarrow> td_place t' l = loop_place.Ended"
  shows "\<exists>s3. sys_members ctl (td_sys t') = Inr s3 \<and> torn_down interest s s3"
proof -
  have inv': "td_inv ctl interest s t'" and keep: "\<And>l. round_whole l t \<Longrightarrow> round_whole l t'"
    using td_run_ok [OF inv run] by auto
  have whole: "round_whole l t'" if "l \<in> pool_loops s" for l
    using keep [of l] poll [OF that] body by (simp add: round_whole_def)
  have q: "loopq (td_sys t') l = []" for l by (rule ended_queues [OF inv' whole ended])
  have "td_todo t' = []" using td_run_body [OF run body] .
  then have "tear_inv ctl interest s [] (td_sys t')" using inv' by (simp add: td_inv_def)
  then show ?thesis by (rule tear_end [OF sys base _ q])
qed

text \<open>A loop whose \<open>quit_\<close> is set ends when it is scheduled, and so do all.\<close>

lemma td_run_append:
  "td_run ctl opers t = Some (Inr t') \<Longrightarrow> td_run ctl (opers @ opers') t = td_run ctl opers' t'"
  by (induction opers arbitrary: t) (auto split: option.splits sum.splits simp del: td_exec.simps)

lemma round_runs:
  fixes t :: "'k teardown"
  shows "td_inv ctl interest s0 t \<Longrightarrow> td_place t l = InRound n \<Longrightarrow>
    \<exists>t'. td_run ctl (replicate n (RunNext l io)) t = Some (Inr t') \<and> td_place t' = (td_place t)(l := InRound 0) \<and>
      td_quit t' = td_quit t"
proof (induction n arbitrary: t)
  case 0
  then show ?case by (simp add: fun_upd_idem)
next
  case (Suc n)
  obtain s' where s': "sys_exec ctl (SysLoop l io) (td_sys t) = Inr s'"
    using turn_ok [of ctl interest s0 "td_todo t" "td_sys t" l io] Suc.prems(1) by (auto simp: td_inv_def)
  let ?t = "t\<lparr>td_sys := s', td_place := (td_place t)(l := InRound n)\<rparr>"
  have run: "td_exec ctl (RunNext l io) t = Some (Inr ?t)" using Suc.prems(2) s' by (simp del: sys_exec.simps)
  have inv: "td_inv ctl interest s0 ?t" using td_exec_ok [OF Suc.prems(1) run] by auto
  have "td_place ?t l = InRound n" by simp
  with inv obtain t' where "td_run ctl (replicate n (RunNext l io)) ?t = Some (Inr t')"
      "td_place t' = (td_place ?t)(l := InRound 0)" "td_quit t' = td_quit ?t"
    using Suc.IH [of ?t] by blast
  then show ?case using run by (intro exI [of _ t']) (simp add: fun_eq_iff del: td_exec.simps)
qed

lemma loop_ends:
  fixes t :: "'k teardown"
  assumes inv: "td_inv ctl interest s0 t" and body: "td_todo t = []" and place: "td_place t l = InPoll"
  shows "\<exists>steps t'. td_run ctl steps t = Some (Inr t') \<and> td_place t' = (td_place t)(l := loop_place.Ended)"
proof -
  fix io :: conn_io
  let ?n = "length (loopq (td_sys t) l)"
  let ?t = "t\<lparr>td_quit := insert l (td_quit t), td_place := (td_place t)(l := InRound ?n)\<rparr>"
  have start: "td_run ctl [QuitLoop l, TakeQueue l] t = Some (Inr ?t)" using body place by simp
  have "td_inv ctl interest s0 ?t" using td_run_ok [OF inv start] by auto
  then obtain t' where t': "td_run ctl (replicate ?n (RunNext l io)) ?t = Some (Inr t')"
      "td_place t' = (td_place t)(l := InRound 0)" "td_quit t' = insert l (td_quit t)"
    using round_runs [of ctl interest s0 ?t l ?n io] by auto
  have "td_run ctl ([QuitLoop l, TakeQueue l] @ replicate ?n (RunNext l io) @ [EndRound l]) t =
      Some (Inr (t'\<lparr>td_place := (td_place t)(l := loop_place.Ended)\<rparr>))"
    unfolding td_run_append [OF start] td_run_append [OF t'(1)] using t'(2,3) by simp
  then show ?thesis by fastforce
qed

lemma loops_end:
  fixes t :: "'k teardown"
  assumes "finite L"
  shows "td_inv ctl interest s0 t \<Longrightarrow> td_todo t = [] \<Longrightarrow> \<forall>l \<in> L. td_place t l = InPoll \<Longrightarrow>
    \<exists>steps t'. td_run ctl steps t = Some (Inr t') \<and> (\<forall>l. td_place t' l = (if l \<in> L then loop_place.Ended else td_place t l))"
  using assms
proof (induction L arbitrary: t)
  case empty
  show ?case by (rule exI [of _ "[]"]) simp
next
  case (insert l L)
  obtain steps t1 where t1: "td_run ctl steps t = Some (Inr t1)" "td_place t1 = (td_place t)(l := loop_place.Ended)"
    using loop_ends [OF insert.prems(1,2), of l] insert.prems(3) by auto
  have inv: "td_inv ctl interest s0 t1" "td_todo t1 = []"
    using td_run_ok [OF insert.prems(1) t1(1)] td_run_body [OF t1(1) insert.prems(2)] by auto
  have "\<forall>k \<in> L. td_place t1 k = InPoll" using insert.hyps(2) insert.prems(3) t1(2) by auto
  then obtain steps' t2 where t2: "td_run ctl steps' t1 = Some (Inr t2)"
      "\<forall>k. td_place t2 k = (if k \<in> L then loop_place.Ended else td_place t1 k)"
    using insert.IH [OF inv] by blast
  have "td_run ctl (steps @ steps') t = Some (Inr t2)" using t2(1) by (simp add: td_run_append [OF t1(1)])
  then show ?case using t1(2) t2(2) by (intro exI [of _ "steps @ steps'"] exI [of _ t2]) auto
qed

lemma finite_pool_loops: "finite (pool_loops s)"
proof -
  have "pool_loops s \<subseteq> conn_loop s ` {..<conn_count s}" by (auto simp: pool_loops_def sys_entries_def)
  then show ?thesis by (rule finite_subset) simp
qed

text \<open>
  A loop that is behind its swap while the destructor still queues ends without running what comes later: of two
  connections of one loop the second is never destroyed in its loop.
\<close>

lemma teardown_can_drop:
  assumes inv: "td_inv ctl interest s t" and todo: "td_todo t = [c, d]" and q: "loopq (td_sys t) l = []"
    and loops: "conn_loop s c = l" "conn_loop s d = l" "l \<noteq> srv_loop (srv s)" and place: "td_place t l = InPoll"
  shows "\<exists>t'. td_run ctl [DestroyEntry, TakeQueue l, DestroyEntry, QuitLoop l, RunNext l io, EndRound l] t = Some (Inr t') \<and>
    td_place t' l = loop_place.Ended \<and> loopq (td_sys t') l = [DestroyedFn d] \<and>
    calls (conns (td_sys t') ! d) = calls (conns s ! d)"
proof -
  note tear = inv [unfolded td_inv_def, THEN conjunct1, unfolded todo]
  have loop: "conn_loop (td_sys t) = conn_loop s" "srv_loop (srv (td_sys t)) = srv_loop (srv s)"
    using tearing_loop [OF tear_invD(1) [OF tear]] td_inv_loop [OF inv] by simp_all
  obtain s1 where s1: "destroy_entry ctl c (td_sys t) = Inr s1" "tear_inv ctl interest s [d] s1"
    using destroy_entry_ok [OF tear] by blast
  have q1: "loopq s1 l = [DestroyedFn c]" using destroy_entry_queue [OF s1(1) tear] loops q by (simp add: loop)
  have loop1: "conn_loop s1 = conn_loop s" "srv_loop (srv s1) = srv_loop (srv s)"
    using tear_invD(1) [OF s1(2)] by (simp_all add: tearing_loop) (simp add: tearing_def)
  obtain s2 where s2: "destroy_entry ctl d s1 = Inr s2" "tear_inv ctl interest s [] s2"
    using destroy_entry_ok [OF s1(2)] by blast
  have q2: "loopq s2 l = [DestroyedFn c, DestroyedFn d]"
    using destroy_entry_queue [OF s2(1) s1(2)] loops q1 by (simp add: loop1)
  obtain s3 where s3: "sys_exec ctl (SysLoop l io) s2 = Inr s3" "tear_inv ctl interest s [] s3" "loopq s3 l = [DestroyedFn d]"
    using turn_ok [OF s2(2), of l io] q2 by auto
  let ?t = "t\<lparr>td_sys := s3, td_todo := [], td_place := (td_place t)(l := loop_place.Ended), td_quit := insert l (td_quit t)\<rparr>"
  have run: "td_run ctl [DestroyEntry, TakeQueue l, DestroyEntry, QuitLoop l, RunNext l io, EndRound l] t = Some (Inr ?t)"
    using todo place s1(1) q1 s2(1) s3(1) by (simp del: sys_exec.simps)
  have t3: "tearing ctl interest s (waiting [] s3) s3" by (rule tear_invD(1) [OF s3(2)])
  have "d \<in> waiting [] s3" using s3(3) loops by (simp add: waiting_def tearing_loop [OF t3])
  then have "calls (conns s3 ! d) = calls (conns s ! d)" using t3 by (auto simp: tearing_def sys_entries_def)
  then show ?thesis using run s3(3) by simp
qed

text \<open>The sample server of one connection is destroyed while the connection is up.\<close>

lemma sample_destroy:
  assumes "TcpServer_new 3 4 0 0 sample_base (Some 0) sample_addr ''echo'' kNotReusePort = Inr s0"
  shows "case sys_run map_ctl sample_open (sample_system s0) of Inl _ \<Rightarrow> False | Inr s \<Rightarrow>
    connections (srv s) (co_name (conn_objs (srv s) ! 0)) = Some 0 \<and> calls (conns s ! 0) = [ConnectionCall kConnected] \<and>
    conn_loop s 0 = 1 \<and> srv_loop (srv s) = 0 \<and>
    (case td_run map_ctl [EndRound 1, DestroyEntry] (td_begin [0] (\<lambda>_. InRound 0) s) of Some (Inr t) \<Rightarrow>
       td_todo t = [] \<and> td_place t 1 = InPoll
     | _ \<Rightarrow> False)"
  using assms by (clarsimp simp: sample_sys_defs drop_entry_def td_begin_def destroy_entry_def)

section \<open>Properties\<close>

text \<open>C15: a server can be destroyed while connections are open. Take any state that a run from a started server
  with no \<open>send\<close> or \<open>shutdown\<close> of another thread interrupted reaches and in which no functor waits, and let no event come in
  from then on. The destructor, on the thread of the base loop, goes through the table in whatever
  order, the loops take and run their queues meanwhile and end when the pool has set their \<open>quit_\<close>: no
  step fails, and the user is told of a connection that was up that it is down exactly when its
  \<open>connectionDestoryed\<close> runs (of one that was shutting down, never). If the loops that have connections are
  not yet behind the swap of \<open>doPendingFunctors\<close> when the body of the destructor is at its end, then these loops can end, and whatever
  the steps from there on, when these loops have ended and the acceptor is destroyed no poller and no kernel
  knows a channel of a connection or of the acceptor, a connection exists only while user code keeps a pointer to
  it, and the user was told once of every connection that was up that it is down. (Without that condition
  a loop can end with a \<open>connectionDestoryed\<close> in its queue: \<open>teardown_can_drop\<close>.)\<close>

theorem TcpServer_teardown:
  fixes ps :: "nat \<Rightarrow> 'k EPollPoller"
  assumes "TcpServer_new socket_fd null_fd answer ch p loop addr nm opt = Inr s0"
    and "infra_ready ctl interest fds p" "even ch" "ch_index (chan p ch) = kNew" "channels p socket_fd = None"
      "socket_fd \<in> set fds" "\<And>l. infra_ready ctl interest fds (ps l)"
    and "list_all uninterrupted opers"
      "sys_pres ctl opers (system_new (TcpServer_start new_loop (server_setThreadNum n s0)) wc ps fds)"
    and "sys_run ctl opers (system_new (TcpServer_start new_loop (server_setThreadNum n s0)) wc ps fds) = Inr s"
    and "base_calls (srv s) = []" "\<And>l. loopq s l = []" "distinct order" "set order = sys_entries s"
    and "\<And>l. places l \<in> {InPoll, InRound 0}" "td_run ctl steps (td_begin order places s) = Some res"
  shows "\<exists>t. res = Inr t \<and>
    (\<forall>c \<in> sys_entries s - set (td_todo t). calls (conns (td_sys t) ! c) = calls (conns s ! c) @
       (if DestroyedFn c \<in> set (loopq (td_sys t) (conn_loop s c)) then [] else down_calls (conns s ! c))) \<and>
    (td_todo t = [] \<and> (\<forall>l \<in> pool_loops s. td_place t l = InPoll) \<longrightarrow>
      (\<exists>steps' t'. td_run ctl steps' t = Some (Inr t') \<and> (\<forall>l \<in> pool_loops s. td_place t' l = loop_place.Ended)) \<and>
      (\<forall>steps' t'. td_run ctl steps' t = Some (Inr t') \<and> (\<forall>l \<in> pool_loops s. td_place t' l = loop_place.Ended) \<longrightarrow>
        (\<exists>s3. sys_members ctl (td_sys t') = Inr s3 \<and> torn_down interest s s3)))"
proof -
  have inv: "sys_inv ctl interest {} s"
    using sys_run_ok [OF system_new_inv [OF assms(1-7)] assms(8,9)] assms(10) by simp
  obtain t where t: "res = Inr t" "td_inv ctl interest s t"
    using td_run_ok [OF td_begin_inv [OF tear_start [OF inv assms(12,11,13,14)] assms(12,15)] assms(16)] by blast
  have "\<exists>steps' t'. td_run ctl steps' t = Some (Inr t') \<and> (\<forall>l \<in> pool_loops s. td_place t' l = loop_place.Ended)"
    if "td_todo t = []" "\<forall>l \<in> pool_loops s. td_place t l = InPoll"
    using loops_end [OF finite_pool_loops t(2) that] by (metis (full_types))
  then show ?thesis using t(1) td_calls [OF t(2)] td_end [OF inv assms(11) t(2)] by blast
qed

theorem TcpServer_teardown_witness:
  "\<exists>s0 s t steps t' s3. TcpServer_new 3 4 0 0 sample_base (Some 0) sample_addr ''echo'' kNotReusePort = Inr s0 \<and>
    sys_run map_ctl sample_open (sample_system s0) = Inr s \<and>
    td_run map_ctl [EndRound 1, DestroyEntry] (td_begin [0] (\<lambda>_. InRound 0) s) = Some (Inr t) \<and>
    td_run map_ctl steps t = Some (Inr t') \<and> sys_members map_ctl (td_sys t') = Inr s3 \<and>
    \<not> alive s3 0 \<and> calls (conns s3 ! 0) = [ConnectionCall kConnected, ConnectionCall kDisconnected]"
proof -
  obtain s0 where s0: "TcpServer_new 3 4 0 0 sample_base (Some 0) sample_addr ''echo'' kNotReusePort = Inr s0"
    by (rule sample_server)
  obtain s where s: "sys_run map_ctl sample_open (sample_system s0) = Inr s"
      "conn_count s = 1" "state (cn (conns s ! 0)) = kConnected" "\<And>l. loopq s l = []" "base_calls (srv s) = []" "held s = []"
      "connections (srv s) (co_name (conn_objs (srv s) ! 0)) = Some 0" "calls (conns s ! 0) = [ConnectionCall kConnected]"
      "conn_loop s 0 = 1"
    using sample_open_run [OF s0] sample_destroy [OF s0] by (cases "sys_run map_ctl sample_open (sample_system s0)") auto
  note td = sample_destroy [OF s0, unfolded s(1) sum.case, THEN conjunct2, THEN conjunct2, THEN conjunct2, THEN conjunct2]
  obtain t where t: "td_run map_ctl [EndRound 1, DestroyEntry] (td_begin [0] (\<lambda>_. InRound 0) s) = Some (Inr t)"
    using td by (fastforce split: option.splits sum.splits simp del: td_run.simps)
  have E: "distinct [0 :: nat]" "set [0] = sys_entries s" using s(2,7) by (auto simp: sys_entries_def)
  have "\<forall>l \<in> pool_loops s. l = 1" using s(9) by (auto simp: pool_loops_def E(2) [symmetric])
  then have body: "td_todo t = []" "\<forall>l \<in> pool_loops s. td_place t l = InPoll"
    using td [unfolded t option.case sum.case] by auto
  have "\<exists>steps t'. td_run map_ctl steps t = Some (Inr t') \<and> (\<exists>s3. sys_members map_ctl (td_sys t') = Inr s3 \<and> torn_down (\<lambda>k. k) s s3)"
    using TcpServer_teardown [OF s0 sample_infra(1) _ sample_infra(2,3) _ _ sample_uninterrupted(1)
        sample_open_pres [OF s0, unfolded sample_system_def] s(1) [unfolded sample_system_def] s(5,4) E _ t]
      sample_infra(1) body by (simp del: td_run.simps) blast
  then obtain steps t' s3 where *: "td_run map_ctl steps t = Some (Inr t')" "sys_members map_ctl (td_sys t') = Inr s3"
      "torn_down (\<lambda>k. k) s s3" by blast
  have "\<not> alive s3 0 \<and> calls (conns s3 ! 0) = [ConnectionCall kConnected, ConnectionCall kDisconnected]"
    using *(3) s E(2) by (auto simp: torn_down_def down_calls_def)
  then show ?thesis using s0 s(1) t *(1,2) by blast
qed

end
