(* ===== verification/Example_Echo.thy ===== *)
theory Example_Echo
  imports Net_TcpConnection Net_Server
begin

text \<open>
  The echo server of \<open>example/testserver.cc\<close>: a \<open>TcpServer\<close> with three loops whose message callback sends
  back what it has read and shuts the connection down; its connection callback does nothing. Here the
  callback meets the connection that calls it.
\<close>

section \<open>EchoServer\<close>

definition EchoServer_new ::
  "int \<Rightarrow> int \<Rightarrow> int \<Rightarrow> channel_id \<Rightarrow> 'k EPollPoller \<Rightarrow> nat option \<Rightarrow> sockaddr_in \<Rightarrow> string \<Rightarrow> 'k TcpServer result" where
  "EchoServer_new socket_fd null_fd bind_answer ch p loop addr nm =
     rbind (TcpServer_new socket_fd null_fd bind_answer ch p loop addr nm kNotReusePort) (\<lambda>s.
       Inr (server_setThreadNum 3 s))"

definition EchoServer_start :: "(nat \<Rightarrow> nat) \<Rightarrow> 'k TcpServer \<Rightarrow> 'k TcpServer" where
  "EchoServer_start = TcpServer_start"

text \<open>\<open>onMessage\<close> runs in the loop thread of the connection, with the connection's input buffer.\<close>

definition EchoServer_onMessage ::
  "'k epoll_ctl \<Rightarrow> (char list \<Rightarrow> int + nat) \<Rightarrow> int \<Rightarrow> 'k conn_env \<Rightarrow> 'k conn_env result" where
  "EchoServer_onMessage ctl write errno0 w =
     rbind (retrieveAllAsString (inputBuffer (cn w))) (\<lambda>(msg, b).
     rbind (conn_send ctl True write errno0 msg (set_cn (\<lambda>c. c\<lparr>inputBuffer := b\<rparr>) w)) (\<lambda>w'.
       Inr (conn_shutdown True w')))"

text \<open>A readable connection of the echo server: \<open>handleRead\<close>, which calls the message callback or not.\<close>

definition echo_read :: "'k epoll_ctl \<Rightarrow> conn_io \<Rightarrow> Timestamp \<Rightarrow> 'k conn_env \<Rightarrow> 'k conn_env result" where
  "echo_read ctl io t w =
     rbind (conn_handleRead ctl (io_readv io) (io_sockopt io) t w) (\<lambda>w'.
       case drop (length (calls w)) (calls w') of
         [MessageCall _] \<Rightarrow> EchoServer_onMessage ctl (io_write io) (io_errno io) w'
       | _ \<Rightarrow> Inr w')"

section \<open>Reading and answering\<close>

lemma handleRead_message:
  assumes inv: "conn_inv ctl interest w" and pre: "conn_pre (OnRead t, io) w"
    and msg: "io_readv io (readFd_vec (inputBuffer (cn w))) = Inr bytes" "bytes \<noteq> []"
  obtains b where "conn_handleRead ctl (io_readv io) sockopt t w =
      Inr (conn_calls [MessageCall t] (w\<lparr>cn := (cn w)\<lparr>inputBuffer := b\<rparr>\<rparr>))"
    "Buffer_inv b" "Buffer_content b = Buffer_content (inputBuffer (cn w)) @ bytes"
proof -
  have spec: "readv_spec (io_readv io)"
    and room: "length (buffer (inputBuffer (cn w))) + 2 * extrabuf_size + kCheapPrepend \<le> max_size"
    using pre by simp_all
  obtain n e b where "readFd (io_readv io) (inputBuffer (cn w)) = Inr (n, e, b)" "Buffer_inv b"
      "n = int (length bytes)" "Buffer_content b = Buffer_content (inputBuffer (cn w)) @ bytes"
    using readFd_ok [OF conn_invD(3) [OF inv] spec room] msg(1) by auto
  moreover from this msg(2) have "n > 0" by simp
  ultimately show ?thesis using that [of b] by (simp add: conn_handleRead_def Let_def)
qed

lemma retrieveAllAsString_ok:
  assumes "Buffer_inv b"
  shows "retrieveAllAsString b = Inr (Buffer_content b, retrieveAll b)"
  using retrieveAsString_ok [OF assms, of "readableBytes b"] Buffer_sizes(3) [OF assms]
  by (simp add: retrieveAllAsString_def retrieve_def)

lemma shutdown_step:
  assumes inv: "conn_inv ctl interest w"
  shows "conn_inv ctl interest (conn_shutdown True w)" "stream_of (conn_shutdown True w) = stream_of w"
    "inputBuffer (cn (conn_shutdown True w)) = inputBuffer (cn w)"
    "outputBuffer (cn (conn_shutdown True w)) = outputBuffer (cn w)"
    "state (cn (conn_shutdown True w)) = (if state (cn w) = kConnected then kDisconnecting else state (cn w))"
    "state (cn w) = kConnected \<Longrightarrow> Buffer_content (outputBuffer (cn w)) = [] \<Longrightarrow> shut (conn_shutdown True w)"
  using conn_step [OF inv, of "(UserShutdown True, undefined)"] conn_invD(7) [OF inv]
  by (auto simp: conn_shutdown_def setState_def shutdownInLoop_def)

lemma onMessage_ok:
  assumes inv: "conn_inv ctl interest w"
    and pre: "state (cn w) = kConnected \<Longrightarrow> send_pre io (Buffer_content (inputBuffer (cn w))) w"
  shows "\<exists>w'. EchoServer_onMessage ctl (io_write io) (io_errno io) w = Inr w' \<and> conn_inv ctl interest w' \<and>
    Buffer_content (inputBuffer (cn w')) = [] \<and>
    (if state (cn w) = kConnected
     then stream_of w' = stream_of w @ taken io (Buffer_content (inputBuffer (cn w))) w \<and> state (cn w') = kDisconnecting \<and>
       (Buffer_content (outputBuffer (cn w')) = [] \<longrightarrow> shut w')
     else stream_of w' = stream_of w \<and> state (cn w') = state (cn w))"
proof -
  note D = conn_invD [OF inv]
  let ?msg = "Buffer_content (inputBuffer (cn w))"
  let ?w1 = "w\<lparr>cn := (cn w)\<lparr>inputBuffer := retrieveAll (inputBuffer (cn w))\<rparr>\<rparr>"
  have inv1: "conn_inv ctl interest ?w1" using D retrieveAll_ok(1) [OF D(3)] by (intro conn_invI) auto
  have empty: "Buffer_content (inputBuffer (cn ?w1)) = []" using retrieveAll_ok(2) [OF D(3)] by simp
  have run: "EchoServer_onMessage ctl (io_write io) (io_errno io) w =
      rbind (conn_send ctl True (io_write io) (io_errno io) ?msg ?w1) (\<lambda>w'. Inr (conn_shutdown True w'))"
    by (simp add: EchoServer_onMessage_def retrieveAllAsString_ok [OF D(3)])
  show ?thesis
  proof (cases "state (cn w) = kConnected")
    case True
    have "send_pre io ?msg ?w1" using pre [OF True] by (simp add: send_pre_def)
    moreover have "taken io ?msg ?w1 = taken io ?msg w" "stream_of ?w1 = stream_of w"
      by (simp_all add: taken_def direct_write_def stream_of_def)
    ultimately obtain w2 where w2: "sendInLoop ctl (io_write io) (io_errno io) ?msg ?w1 = Inr w2"
        "conn_inv ctl interest w2" "stream_of w2 = stream_of w @ taken io ?msg w"
        "inputBuffer (cn w2) = inputBuffer (cn ?w1)" "state (cn w2) = kConnected"
      using sendInLoop_ok [OF inv1, of io ?msg] True by auto
    then have "EchoServer_onMessage ctl (io_write io) (io_errno io) w = Inr (conn_shutdown True w2)"
      using run True by (simp add: conn_send_def)
    then show ?thesis using True w2 shutdown_step [OF w2(2)] empty by simp
  next
    case False
    then have "EchoServer_onMessage ctl (io_write io) (io_errno io) w = Inr (conn_shutdown True ?w1)"
      using run by (simp add: conn_send_def)
    then show ?thesis using False shutdown_step [OF inv1] empty by (simp add: stream_of_def)
  qed
qed

lemma echo_read_message:
  assumes inv: "conn_inv ctl interest w" and pre: "conn_pre (OnRead t, io) w"
    and msg: "io_readv io (readFd_vec (inputBuffer (cn w))) = Inr bytes" "bytes \<noteq> []"
    and send: "state (cn w) = kConnected \<Longrightarrow> send_pre io (Buffer_content (inputBuffer (cn w)) @ bytes) w"
  shows "\<exists>w'. echo_read ctl io t w = Inr w' \<and> conn_inv ctl interest w' \<and> Buffer_content (inputBuffer (cn w')) = [] \<and>
    (if state (cn w) = kConnected
     then stream_of w' = stream_of w @ taken io (Buffer_content (inputBuffer (cn w)) @ bytes) w \<and>
       state (cn w') = kDisconnecting \<and> (Buffer_content (outputBuffer (cn w')) = [] \<longrightarrow> shut w')
     else stream_of w' = stream_of w \<and> state (cn w') = state (cn w))"
proof -
  obtain b where b: "conn_handleRead ctl (io_readv io) (io_sockopt io) t w =
      Inr (conn_calls [MessageCall t] (w\<lparr>cn := (cn w)\<lparr>inputBuffer := b\<rparr>\<rparr>))"
    "Buffer_inv b" "Buffer_content b = Buffer_content (inputBuffer (cn w)) @ bytes"
    by (rule handleRead_message [OF inv pre msg])
  let ?w1 = "conn_calls [MessageCall t] (w\<lparr>cn := (cn w)\<lparr>inputBuffer := b\<rparr>\<rparr>)"
  have inv1: "conn_inv ctl interest ?w1"
    using conn_invD [OF inv] b(2) by (intro conn_invI) (auto simp: conn_calls_def)
  have run: "echo_read ctl io t w = EchoServer_onMessage ctl (io_write io) (io_errno io) ?w1"
    by (simp add: echo_read_def b(1) conn_calls_def)
  have same: "stream_of ?w1 = stream_of w" "taken io xs ?w1 = taken io xs w" "state (cn ?w1) = state (cn w)"
      "Buffer_content (inputBuffer (cn ?w1)) = Buffer_content (inputBuffer (cn w)) @ bytes" for xs
    using b(3) by (simp_all add: conn_calls_def stream_of_def taken_def direct_write_def)
  have "send_pre io (Buffer_content (inputBuffer (cn ?w1))) ?w1" if "state (cn ?w1) = kConnected"
    using send that same b(3) by (simp add: send_pre_def conn_calls_def)
  note step = onMessage_ok [OF inv1 this]
  show ?thesis using step [unfolded same] unfolding run .
qed

section \<open>Properties\<close>

text \<open>C10: the echo server echoes the first message and closes. On a new connection, the bytes of the first read
  come back exactly, however the kernel splits the writes, and then the write side is closed; the input
  buffer is empty. Bytes that arrive later are read and dropped: nothing is added to the stream.\<close>

theorem EchoServer_echoes:
  assumes "conn_fresh ctl interest w0" "connectionEstablished ctl w0 = Inr w" "Buffer_content (inputBuffer (cn w)) = []"
    and "conn_pre (OnRead t, io) w" "io_readv io (readFd_vec (inputBuffer (cn w))) = Inr msg" "msg \<noteq> []"
    and "send_pre io msg w" "\<not> send_fault (io_write io msg) (io_errno io)"
    and "list_all makes_progress ios" "length msg \<le> length ios"
  shows "\<exists>w1 w'. echo_read ctl io t w = Inr w1 \<and>
    Buffer_content (inputBuffer (cn w1)) = [] \<and> state (cn w1) = kDisconnecting \<and>
    conn_run ctl (map (\<lambda>io. (OnWrite, io)) ios) w1 = Inr w' \<and> wire w' = msg \<and> shut w' \<and>
    (\<forall>t2 io2 more. conn_pre (OnRead t2, io2) w1 \<and> io_readv io2 (readFd_vec (inputBuffer (cn w1))) = Inr more \<and> more \<noteq> [] \<longrightarrow>
      (\<exists>w2. echo_read ctl io2 t2 w1 = Inr w2 \<and> stream_of w2 = msg \<and> Buffer_content (inputBuffer (cn w2)) = []))"
proof -
  have w: "conn_inv ctl interest w" "stream_of w = []" "state (cn w) = kConnected"
    using connectionEstablished_ok [OF assms(1)] assms(2) by auto
  have "taken io msg w = msg" using w(3) assms(8) by (simp add: taken_def)
  then obtain w1 where w1: "echo_read ctl io t w = Inr w1" "conn_inv ctl interest w1"
      "Buffer_content (inputBuffer (cn w1)) = []" "stream_of w1 = msg" "state (cn w1) = kDisconnecting"
      "Buffer_content (outputBuffer (cn w1)) = [] \<longrightarrow> shut w1"
    using echo_read_message [OF w(1) assms(4-6)] assms(3,7) w(2,3) by auto
  have "length (Buffer_content (outputBuffer (cn w1))) \<le> length ios"
    using assms(10) w1(4) by (auto simp: stream_of_def)
  from drain [OF w1(2,5) assms(9) this w1(6)] obtain w' where
    w': "conn_run ctl (map (\<lambda>io. (OnWrite, io)) ios) w1 = Inr w'" "wire w' = msg" "shut w'"
    using w1(4) by (auto simp: stream_of_def)
  have "\<exists>w2. echo_read ctl io2 t2 w1 = Inr w2 \<and> stream_of w2 = msg \<and> Buffer_content (inputBuffer (cn w2)) = []"
    if "conn_pre (OnRead t2, io2) w1" "io_readv io2 (readFd_vec (inputBuffer (cn w1))) = Inr more" "more \<noteq> []"
    for t2 io2 more
    using echo_read_message [OF w1(2) that] w1(4,5) by auto
  with w1 w' show ?thesis by blast
qed

text \<open>Five bytes arrive on the sample connection, whose kernel takes three bytes of every write.\<close>

definition hello_io :: conn_io where
  "hello_io = sample_io\<lparr>io_readv := \<lambda>vec. Inr (take (sum_list vec) ''hello'')\<rparr>"

theorem EchoServer_echoes_witness:
  "\<exists>w w1 w'. connectionEstablished map_ctl sample_env = Inr w \<and> echo_read map_ctl hello_io (Timestamp 1) w = Inr w1 \<and>
    conn_run map_ctl (map (\<lambda>io. (OnWrite, io)) (replicate 5 sample_io)) w1 = Inr w' \<and> wire w' = ''hello'' \<and> shut w'"
proof -
  obtain w where w: "connectionEstablished map_ctl sample_env = Inr w" "stream_of w = []"
    by (rule sample_established)
  have b: "inputBuffer (cn w) = Buffer_new 4" by (rule sample_channel [OF w(1)])
  have "wirteableBytes (Buffer_new 4) = 4" by (simp add: Buffer_new_def wirteableBytes_def sz_add_def sz_sub_def kCheapPrepend_def)
  then have read: "io_readv hello_io (readFd_vec (inputBuffer (cn w))) = Inr ''hello''"
    by (simp add: b readFd_vec_def hello_io_def extrabuf_size_def)
  have "Buffer_content (inputBuffer (cn w)) = []" using Buffer_new_ok [of 4] by (simp add: b max_size_def)
  moreover have "conn_pre (OnRead (Timestamp 1), hello_io) w"
    by (auto simp: b readv_spec_def hello_io_def Buffer_new_def extrabuf_size_def kCheapPrepend_def max_size_def sz_add_def)
  moreover have "send_pre hello_io ''hello'' w"
    using sample_send_pre [OF w(2), of "''hello''"] by (simp add: send_pre_def hello_io_def)
  moreover have "\<not> send_fault (io_write hello_io ''hello'') (io_errno hello_io)"
    by (simp add: hello_io_def sample_io_def send_fault_def)
  moreover have "list_all makes_progress (replicate 5 sample_io)"
    using sample_io_spec by (auto simp: makes_progress_def list_all_iff sample_io_def)
  ultimately show ?thesis
    using EchoServer_echoes [OF sample_fresh w(1), of "Timestamp 1" hello_io "''hello''" "replicate 5 sample_io"] read w(1)
    by auto
qed

end
