(* ===== verification/Example_Stress.thy ===== *)
theory Example_Stress
  imports Base_Timestamp "HOL-Library.Multiset"
begin

text \<open>
  The load generator \<open>example/stress_client.cc\<close>: its command line, the two loops that send a message and
  read the answer, the workers that share one counter of attempts, and the statistics. The answers of
  the system calls are arguments.
\<close>

section \<open>Command line\<close>

record Config =
  host :: string
  port_text :: string
  total :: int
  concurrency :: int
  messageSize :: int
  timeoutMs :: int

definition Config_default :: Config where
  "Config_default = \<lparr>host = ''127.0.0.1'', port_text = ''8080'', total = 10000, concurrency = 100,
     messageSize = 16, timeoutMs = 1000\<rparr>"

text \<open>
  \<open>strtol\<close> to base ten: white space, a sign, digits; without a digit nothing is consumed. The result is
  the value, limited to \<open>long\<close>, and what is left of the text.
\<close>

definition isspace :: "char \<Rightarrow> bool" where
  "isspace c \<longleftrightarrow> c \<in> {CHR '' '', CHR 0x09, CHR 0x0A, CHR 0x0B, CHR 0x0C, CHR 0x0D}"

definition isdigit :: "char \<Rightarrow> bool" where
  "isdigit c \<longleftrightarrow> 48 \<le> (of_char c :: nat) \<and> (of_char c :: nat) \<le> 57"

definition strtol :: "string \<Rightarrow> int \<times> string" where
  "strtol txt =
     (let s = dropWhile isspace txt;
          neg = (s \<noteq> [] \<and> hd s = CHR ''-'');
          ds = (if s \<noteq> [] \<and> (hd s = CHR ''-'' \<or> hd s = CHR ''+'') then tl s else s);
          digits = takeWhile isdigit ds;
          v = (if neg then - int (dec_val digits) else int (dec_val digits))
      in if digits = [] then (0, txt)
         else (max (- (2 ^ 63)) (min (2 ^ 63 - 1) v), dropWhile isdigit ds))"

definition parseInt :: "string \<Rightarrow> int option" where
  "parseInt txt =
     (let (result, rest) = strtol txt
      in if rest = txt \<or> rest \<noteq> [] \<or> result \<le> 0 \<or> result > 100000000 then None else Some result)"

text \<open>
  \<open>parseArgs\<close> on the arguments behind the program name: \<open>Inl\<close> is a refusal, with whether help was asked
  for.
\<close>

definition parse_into :: "string list \<Rightarrow> nat \<Rightarrow> (int \<Rightarrow> Config \<Rightarrow> Config) \<Rightarrow> Config \<Rightarrow> Config option" where
  "parse_into args i store c =
     (if i < length args then (case parseInt (args ! i) of None \<Rightarrow> None | Some v \<Rightarrow> Some (store v c)) else Some c)"

definition parseArgs :: "string list \<Rightarrow> bool + Config" where
  "parseArgs args =
     (if args \<noteq> [] \<and> (hd args = ''-h'' \<or> hd args = ''--help'') then Inl True
      else let c0 = (if args \<noteq> [] then Config_default\<lparr>host := hd args\<rparr> else Config_default);
               c1 = (if 1 < length args then c0\<lparr>port_text := args ! 1\<rparr> else c0)
      in case parse_into args 2 (\<lambda>v c. c\<lparr>total := v\<rparr>) c1 of None \<Rightarrow> Inl False | Some c2 \<Rightarrow>
         (case parse_into args 3 (\<lambda>v c. c\<lparr>concurrency := v\<rparr>) c2 of None \<Rightarrow> Inl False | Some c3 \<Rightarrow>
         (case parse_into args 4 (\<lambda>v c. c\<lparr>messageSize := v\<rparr>) c3 of None \<Rightarrow> Inl False | Some c4 \<Rightarrow>
         (case parse_into args 5 (\<lambda>v c. c\<lparr>timeoutMs := v\<rparr>) c4 of None \<Rightarrow> Inl False | Some c5 \<Rightarrow>
          if 6 < length args then Inl False
          else Inr (c5\<lparr>concurrency := min (concurrency c5) (total c5)\<rparr>)))))"

section \<open>Address and time-out\<close>

text \<open>\<open>getaddrinfo\<close> answers with an error or a list of addresses with their lengths.\<close>

definition sizeof_sockaddr_storage :: nat where "sizeof_sockaddr_storage = 128"

definition resolveAddress :: "int + (nat \<times> 'a) list \<Rightarrow> (nat \<times> 'a) option" where
  "resolveAddress answer =
     (case answer of Inl rc \<Rightarrow> None
      | Inr results \<Rightarrow> find (\<lambda>(ai_addrlen, addr). ai_addrlen \<le> sizeof_sockaddr_storage) results)"

definition setTimeout :: "int \<Rightarrow> int \<times> int" where
  "setTimeout ms = (cdiv ms 1000, crem ms 1000 * 1000)"

section \<open>One attempt\<close>

text \<open>
  \<open>send i bytes\<close> is the answer of the \<open>i\<close>-th call of \<open>send\<close> on this socket, \<open>recv i want\<close> that of \<open>recv\<close>.
  Both loops end on an answer that is not positive. \<open>writeAll\<close> also returns the bytes sent.
\<close>

function writeAll :: "(nat \<Rightarrow> string \<Rightarrow> int) \<Rightarrow> nat \<Rightarrow> string \<Rightarrow> nat \<Rightarrow> bool \<times> string" where
  "writeAll send i data written =
     (if written < length data
      then let n = send i (drop written data)
           in if n \<le> 0 then (False, [])
              else let (ok, sent) = writeAll send (Suc i) data (written + nat n)
                   in (ok, take (nat n) (drop written data) @ sent)
      else (True, []))"
  by pat_completeness auto
termination by (relation "measure (\<lambda>(send, i, data, written). length data - written)") auto

declare writeAll.simps [simp del]

function readExpected :: "(nat \<Rightarrow> nat \<Rightarrow> int) \<Rightarrow> nat \<Rightarrow> nat \<Rightarrow> nat \<Rightarrow> nat option" where
  "readExpected recv i expected got =
     (if got < expected
      then let want = min 4096 (expected - got); n = recv i want
           in if n \<le> 0 then None else readExpected recv (Suc i) expected (got + nat n)
      else Some got)"
  by pat_completeness auto
termination by (relation "measure (\<lambda>(recv, i, expected, got). expected - got)") auto

declare readExpected.simps [simp del]

text \<open>The system during one attempt, and how the attempt ends. Every descriptor is closed again.\<close>

record attempt_io =
  a_socket :: int
  a_connect :: int
  a_send :: "nat \<Rightarrow> string \<Rightarrow> int"
  a_recv :: "nat \<Rightarrow> nat \<Rightarrow> int"
  a_latency :: int

datatype outcome = ConnectFail | SendFail | RecvFail | Success nat int

definition attempt :: "string \<Rightarrow> attempt_io \<Rightarrow> outcome \<times> int list" where
  "attempt message io =
     (let fd = a_socket io
      in if fd < 0 then (ConnectFail, [])
         else if a_connect io \<noteq> 0 then (ConnectFail, [fd])
         else if \<not> fst (writeAll (a_send io) 0 message 0) then (SendFail, [fd])
         else case readExpected (a_recv io) 0 (length message) 0 of
           None \<Rightarrow> (RecvFail, [fd])
         | Some bytes \<Rightarrow> (Success bytes (a_latency io), [fd]))"

section \<open>The workers\<close>

record Stats =
  success :: int
  connectFail :: int
  sendFail :: int
  recvFail :: int
  bytesRead :: int

text \<open>
  A worker is about to fetch a number, makes attempt \<open>k\<close>, adds to the statistics of a success one after
  the other, or has ended. \<open>next_id\<close> is the shared counter.
\<close>

datatype worker_pc = Fetch | Attempting int | AddBytes nat int | AddSuccess int | PushLatency int | Finished

record stress =
  next_id :: int
  stats :: Stats
  latenciesUs :: "int list"
  pcs :: "worker_pc list"

definition count_outcome :: "outcome \<Rightarrow> Stats \<Rightarrow> Stats" where
  "count_outcome r st =
     (case r of ConnectFail \<Rightarrow> st\<lparr>connectFail := wrap32 (connectFail st + 1)\<rparr>
      | SendFail \<Rightarrow> st\<lparr>sendFail := wrap32 (sendFail st + 1)\<rparr>
      | RecvFail \<Rightarrow> st\<lparr>recvFail := wrap32 (recvFail st + 1)\<rparr>
      | Success bytes latency \<Rightarrow> st)"

definition after_outcome :: "outcome \<Rightarrow> worker_pc" where
  "after_outcome r = (case r of Success bytes latency \<Rightarrow> AddBytes bytes latency | _ \<Rightarrow> Fetch)"

text \<open>\<open>world k\<close> is the system during attempt \<open>k\<close>.\<close>

inductive worker_step :: "Config \<Rightarrow> string \<Rightarrow> (int \<Rightarrow> attempt_io) \<Rightarrow> stress \<Rightarrow> stress \<Rightarrow> bool"
  for cfg message world where
  fetch:
    "i < length (pcs s) \<Longrightarrow> pcs s ! i = Fetch \<Longrightarrow>
     worker_step cfg message world s (s\<lparr>next_id := wrap32 (next_id s + 1),
       pcs := (pcs s)[i := if next_id s \<ge> total cfg then Finished else Attempting (next_id s)]\<rparr>)"
| attempted:
    "i < length (pcs s) \<Longrightarrow> pcs s ! i = Attempting k \<Longrightarrow> attempt message (world k) = (r, closed) \<Longrightarrow>
     worker_step cfg message world s (s\<lparr>stats := count_outcome r (stats s), pcs := (pcs s)[i := after_outcome r]\<rparr>)"
| add_bytes:
    "i < length (pcs s) \<Longrightarrow> pcs s ! i = AddBytes bytes latency \<Longrightarrow>
     worker_step cfg message world s
       (s\<lparr>stats := (stats s)\<lparr>bytesRead := bytesRead (stats s) + int bytes\<rparr>, pcs := (pcs s)[i := AddSuccess latency]\<rparr>)"
| add_success:
    "i < length (pcs s) \<Longrightarrow> pcs s ! i = AddSuccess latency \<Longrightarrow>
     worker_step cfg message world s
       (s\<lparr>stats := (stats s)\<lparr>success := wrap32 (success (stats s) + 1)\<rparr>, pcs := (pcs s)[i := PushLatency latency]\<rparr>)"
| push_latency:
    "i < length (pcs s) \<Longrightarrow> pcs s ! i = PushLatency latency \<Longrightarrow>
     worker_step cfg message world s (s\<lparr>latenciesUs := latenciesUs s @ [latency], pcs := (pcs s)[i := Fetch]\<rparr>)"

definition stress_begin :: "Config \<Rightarrow> stress" where
  "stress_begin cfg =
     \<lparr>next_id = 0, stats = \<lparr>success = 0, connectFail = 0, sendFail = 0, recvFail = 0, bytesRead = 0\<rparr>,
      latenciesUs = [], pcs = replicate (nat (concurrency cfg)) Fetch\<rparr>"

inductive stress_reach :: "Config \<Rightarrow> string \<Rightarrow> (int \<Rightarrow> attempt_io) \<Rightarrow> stress \<Rightarrow> bool" for cfg message world where
  stress_init: "stress_reach cfg message world (stress_begin cfg)"
| stress_next: "stress_reach cfg message world s \<Longrightarrow> worker_step cfg message world s s' \<Longrightarrow> stress_reach cfg message world s'"

section \<open>Report\<close>

definition failed :: "Stats \<Rightarrow> int" where
  "failed st = connectFail st + sendFail st + recvFail st"

definition percentile :: "int list \<Rightarrow> double \<Rightarrow> int result" where
  "percentile values p =
     (if values = [] then Inr 0
      else rbind (double_to_int64 (double_mult p (int (length values - 1)))) (\<lambda>index.
           rbind (if index < 0 then Inl Overflow else read_range values (nat index) 1) (\<lambda>v. Inr (hd v))))"

text \<open>
  What \<open>main\<close> prints when the workers have ended, up to the rates, which need the elapsed time: the counters, the
  sum of the latencies, and the percentiles of the sorted latencies in microseconds. The literals 0.95 and
  0.99 are the nearest \<open>double\<close>s.
\<close>

fun sum_latencies :: "int list \<Rightarrow> int \<Rightarrow> int result" where
  "sum_latencies [] acc = Inr acc"
| "sum_latencies (l # ls) acc = rbind (int64 (acc + l)) (sum_latencies ls)"

record Report =
  r_success :: int
  r_failed :: int
  r_sum :: int
  r_p50 :: int
  r_p95 :: int
  r_p99 :: int
  r_max :: int

definition stress_report :: "stress \<Rightarrow> Report result" where
  "stress_report s =
     (let ls = sort (latenciesUs s) in
      rbind (sum_latencies ls 0) (\<lambda>total_us.
      rbind (percentile ls (Finite 1 (- 1))) (\<lambda>p50.
      rbind (percentile ls (Finite 8556839292003942 (- 53))) (\<lambda>p95.
      rbind (percentile ls (Finite 8917127262193582 (- 53))) (\<lambda>p99.
      rbind (percentile ls (Finite 1 0)) (\<lambda>mx.
        Inr \<lparr>r_success = success (stats s), r_failed = failed (stats s), r_sum = total_us,
          r_p50 = p50, r_p95 = p95, r_p99 = p99, r_max = mx\<rparr>))))))"

definition usage :: "string \<Rightarrow> string" where
  "usage program =
     ''Usage: '' @ program @ '' [host] [port] [total] [concurrency] [message_size] [timeout_ms]'' @ [CHR 0x0A] @
     ''Example:'' @ [CHR 0x0A] @
     ''  '' @ program @ '' 127.0.0.1 8080 50000 500 64 1000'' @ [CHR 0x0A]"

definition stress_message :: "Config \<Rightarrow> string" where
  "stress_message cfg = replicate (nat (messageSize cfg)) (CHR ''x'')"

text \<open>What \<open>main\<close> returns: help, a wrong command line or address, and the outcome of the run.\<close>

definition exit_code :: "string list \<Rightarrow> int + (nat \<times> 'a) list \<Rightarrow> (Config \<Rightarrow> Stats) \<Rightarrow> int" where
  "exit_code args answer run =
     (case parseArgs args of
        Inl showHelp \<Rightarrow> if showHelp then 0 else 1
      | Inr cfg \<Rightarrow>
          (case resolveAddress answer of None \<Rightarrow> 1 | Some a \<Rightarrow> if failed (run cfg) = 0 then 0 else 2))"

section \<open>The loops\<close>

definition send_spec :: "(nat \<Rightarrow> string \<Rightarrow> int) \<Rightarrow> bool" where
  "send_spec send \<longleftrightarrow> (\<forall>i xs. send i xs \<le> int (length xs))"

definition recv_spec :: "(nat \<Rightarrow> nat \<Rightarrow> int) \<Rightarrow> bool" where
  "recv_spec recv \<longleftrightarrow> (\<forall>i want. recv i want \<le> int want)"

text \<open>\<open>writeAll\<close> sends a prefix, and reports success exactly when it is everything.\<close>

lemma writeAll_sends:
  "send_spec send \<Longrightarrow> written \<le> length data \<Longrightarrow> writeAll send i data written = (ok, sent) \<Longrightarrow>
    \<exists>rest. drop written data = sent @ rest \<and> (ok \<longleftrightarrow> rest = [])"
proof (induction send i data written arbitrary: ok sent rule: writeAll.induct)
  case (1 send i data written)
  let ?n = "send i (drop written data)"
  show ?case
  proof (cases "written < length data \<and> ?n > 0")
    case True
    then have more: "written < length data" "\<not> ?n \<le> 0" by simp_all
    obtain sent' where r: "writeAll send (Suc i) data (written + nat ?n) = (ok, sent')"
        "sent = take (nat ?n) (drop written data) @ sent'"
      using 1(4) more by (subst (asm) writeAll.simps) (auto simp: Let_def split: prod.splits)
    have "?n \<le> int (length (drop written data))" using 1(2) unfolding send_spec_def by blast
    then have le: "written + nat ?n \<le> length data" using more by simp
    obtain rest where "drop (written + nat ?n) data = sent' @ rest" "ok \<longleftrightarrow> rest = []"
      using 1(1) [OF more(1) refl more(2) 1(2) le r(1)] by blast
    then have "drop written data = sent @ rest"
      using r(2) append_take_drop_id [of "nat ?n" "drop written data"] by (simp add: add.commute)
    then show ?thesis using \<open>ok \<longleftrightarrow> rest = []\<close> by blast
  next
    case False
    then show ?thesis using 1(3,4) by (subst (asm) writeAll.simps) (auto simp: Let_def split: if_splits)
  qed
qed

lemma readExpected_exact:
  "recv_spec recv \<Longrightarrow> got \<le> expected \<Longrightarrow> readExpected recv i expected got = Some n \<Longrightarrow> n = expected"
proof (induction recv i expected got rule: readExpected.induct)
  case (1 recv i expected got)
  let ?want = "min 4096 (expected - got)"
  show ?case
  proof (cases "got < expected")
    case True
    then have n: "\<not> recv i ?want \<le> 0" "readExpected recv (Suc i) expected (got + nat (recv i ?want)) = Some n"
      using 1(4) by (subst (asm) readExpected.simps, simp add: Let_def split: if_splits)+
    have "recv i ?want \<le> int ?want" using 1(2) unfolding recv_spec_def by blast
    then have "got + nat (recv i ?want) \<le> expected" using True n(1) by simp
    from 1(1) [OF True refl refl n(1) 1(2) this n(2)] show ?thesis .
  next
    case False
    then show ?thesis using 1(3,4) by (subst (asm) readExpected.simps) simp
  qed
qed

lemma attempt_bytes:
  "recv_spec (a_recv io) \<Longrightarrow> attempt message io = (Success bytes latency, closed) \<Longrightarrow> bytes = length message"
  using readExpected_exact [of "a_recv io" 0 "length message" 0]
  by (auto simp: attempt_def Let_def split: if_splits option.splits)

text \<open>Every descriptor that was opened is closed.\<close>

lemma attempt_closes: "attempt message io = (r, closed) \<Longrightarrow> closed = (if a_socket io < 0 then [] else [a_socket io])"
  by (auto simp: attempt_def Let_def split: if_splits option.splits)

section \<open>The command line\<close>

lemma digit_char_is_digit: "d < 10 \<Longrightarrow> isdigit (digit_char d) \<and> \<not> isspace (digit_char d) \<and> digit_char d \<notin> {CHR ''-'', CHR ''+''}"
proof -
  have "list_all (\<lambda>d. isdigit (digit_char d) \<and> \<not> isspace (digit_char d) \<and> digit_char d \<notin> {CHR ''-'', CHR ''+''}) [0..<10]"
    by code_simp
  then show "d < 10 \<Longrightarrow> ?thesis" by (auto simp: list_all_iff)
qed

lemma parseInt_print:
  assumes "0 < n" "n \<le> 100000000"
  shows "parseInt (int_dec n) = Some n"
proof -
  let ?s = "nat_dec (nat n)"
  have s: "int_dec n = ?s" using assms by (simp add: int_dec_def)
  obtain d cs where d: "?s = digit_char d # cs" "d < 10" using nat_dec_hd by blast
  have all: "\<forall>c\<in>set ?s. isdigit c" using nat_dec_digits [of "nat n"] digit_char_is_digit by fastforce
  then have tw: "takeWhile isdigit ?s = ?s" "dropWhile isdigit ?s = []" by (simp_all add: takeWhile_eq_all_conv)
  have hd: "dropWhile isspace ?s = ?s" "hd ?s \<noteq> CHR ''-''" "hd ?s \<noteq> CHR ''+''" "?s \<noteq> []"
    using d digit_char_is_digit [OF d(2)] by auto
  have "strtol ?s = (n, [])" using assms hd by (simp add: strtol_def Let_def tw)
  then show ?thesis using assms \<open>?s \<noteq> []\<close> by (simp add: s parseInt_def)
qed

lemma parseInt_bounds: "parseInt txt = Some v \<Longrightarrow> 0 < v \<and> v \<le> 100000000"
  by (auto simp: parseInt_def Let_def split: if_splits prod.splits)

lemma parse_into_bounds:
  assumes "parse_into args i store c = Some c'"
  shows "c' = c \<or> (\<exists>v. 0 < v \<and> v \<le> 100000000 \<and> c' = store v c)"
  using assms parseInt_bounds by (auto simp: parse_into_def split: if_splits option.splits)

definition good_config :: "Config \<Rightarrow> bool" where
  "good_config c \<longleftrightarrow> 0 < total c \<and> total c \<le> 100000000 \<and> 0 < concurrency c \<and> concurrency c \<le> 100000000 \<and>
     0 < messageSize c \<and> messageSize c \<le> 100000000 \<and> 0 < timeoutMs c \<and> timeoutMs c \<le> 100000000"

lemma parse_into_good:
  assumes "parse_into args i store c = Some c'" "good_config c"
    and "\<And>v. 0 < v \<Longrightarrow> v \<le> 100000000 \<Longrightarrow> good_config (store v c)"
  shows "good_config c'"
  using parse_into_bounds [OF assms(1)] assms(2,3) by auto

lemma parseArgs_good:
  assumes "parseArgs args = Inr cfg"
  shows "good_config cfg \<and> concurrency cfg \<le> total cfg"
proof -
  let ?c0 = "if args \<noteq> [] then Config_default\<lparr>host := hd args\<rparr> else Config_default"
  let ?c1 = "if 1 < length args then ?c0\<lparr>port_text := args ! 1\<rparr> else ?c0"
  obtain c2 c3 c4 c5 where c: "parse_into args 2 (\<lambda>v c. c\<lparr>total := v\<rparr>) ?c1 = Some c2"
      "parse_into args 3 (\<lambda>v c. c\<lparr>concurrency := v\<rparr>) c2 = Some c3"
      "parse_into args 4 (\<lambda>v c. c\<lparr>messageSize := v\<rparr>) c3 = Some c4"
      "parse_into args 5 (\<lambda>v c. c\<lparr>timeoutMs := v\<rparr>) c4 = Some c5"
      "cfg = c5\<lparr>concurrency := min (concurrency c5) (total c5)\<rparr>"
    using assms unfolding parseArgs_def Let_def by (auto split: if_splits option.splits)
  have "good_config ?c1" by (simp add: good_config_def Config_default_def)
  with c(1) have "good_config c2" by (rule parse_into_good) (use \<open>good_config ?c1\<close> in \<open>simp add: good_config_def\<close>)
  with c(2) have "good_config c3" by (rule parse_into_good) (use \<open>good_config c2\<close> in \<open>simp add: good_config_def\<close>)
  with c(3) have "good_config c4" by (rule parse_into_good) (use \<open>good_config c3\<close> in \<open>simp add: good_config_def\<close>)
  with c(4) have "good_config c5" by (rule parse_into_good) (use \<open>good_config c4\<close> in \<open>simp add: good_config_def\<close>)
  then show ?thesis by (auto simp: c(5) good_config_def min_def)
qed

section \<open>Every attempt is counted once\<close>

fun in_flight :: "worker_pc \<Rightarrow> bool" where
  "in_flight (Attempting k) = True"
| "in_flight (AddBytes b l) = True"
| "in_flight (AddSuccess l) = True"
| "in_flight _ = False"

fun bytes_added :: "worker_pc \<Rightarrow> bool" where
  "bytes_added (AddSuccess l) = True"
| "bytes_added _ = False"

fun pushing :: "worker_pc \<Rightarrow> bool" where
  "pushing (PushLatency l) = True"
| "pushing _ = False"

fun finished :: "worker_pc \<Rightarrow> bool" where
  "finished Finished = True"
| "finished _ = False"

definition pc_count :: "(worker_pc \<Rightarrow> bool) \<Rightarrow> worker_pc list \<Rightarrow> int" where
  "pc_count P ws = int (length (filter P ws))"

lemma pc_count_update:
  assumes "i < length ws"
  shows "pc_count P (ws[i := pc]) = pc_count P ws + of_bool (P pc) - of_bool (P (ws ! i))"
  using arg_cong [OF length_filter_update [OF assms, of P pc], of int] by (simp add: pc_count_def)

lemma pc_count_nonneg: "0 \<le> pc_count P ws"
  by (simp add: pc_count_def)

lemma pc_count_lt:
  assumes "i < length ws" "\<not> P (ws ! i)"
  shows "pc_count P ws < int (length ws)"
proof -
  have "length (filter P ws) < length ws" using assms nth_mem by (intro length_filter_less) blast+
  then show ?thesis by (simp add: pc_count_def)
qed

definition stress_inv :: "Config \<Rightarrow> string \<Rightarrow> stress \<Rightarrow> bool" where
  "stress_inv cfg message s \<longleftrightarrow>
     int (length (pcs s)) = concurrency cfg \<and>
     0 \<le> next_id s \<and> next_id s \<le> total cfg + pc_count finished (pcs s) \<and>
     0 \<le> success (stats s) \<and> 0 \<le> connectFail (stats s) \<and> 0 \<le> sendFail (stats s) \<and> 0 \<le> recvFail (stats s) \<and>
     success (stats s) + failed (stats s) + pc_count in_flight (pcs s) = min (next_id s) (total cfg) \<and>
     int (length (latenciesUs s)) + pc_count pushing (pcs s) = success (stats s) \<and>
     bytesRead (stats s) = int (length message) * (success (stats s) + pc_count bytes_added (pcs s)) \<and>
     (\<forall>b l. AddBytes b l \<in> set (pcs s) \<longrightarrow> b = length message) \<and>
     (pc_count finished (pcs s) > 0 \<longrightarrow> next_id s \<ge> total cfg)"

lemma wrap32_small: "- (2 ^ 31) \<le> i \<Longrightarrow> i < 2 ^ 31 \<Longrightarrow> wrap32 i = i"
  by (simp add: wrap32_def)

lemma stress_invD:
  assumes "stress_inv cfg message s"
  shows "int (length (pcs s)) = concurrency cfg" "0 \<le> next_id s" "next_id s \<le> total cfg + pc_count finished (pcs s)"
    "0 \<le> success (stats s)" "0 \<le> connectFail (stats s)" "0 \<le> sendFail (stats s)" "0 \<le> recvFail (stats s)"
    "success (stats s) + failed (stats s) + pc_count in_flight (pcs s) = min (next_id s) (total cfg)"
    "int (length (latenciesUs s)) + pc_count pushing (pcs s) = success (stats s)"
    "bytesRead (stats s) = int (length message) * (success (stats s) + pc_count bytes_added (pcs s))"
    "AddBytes b l \<in> set (pcs s) \<Longrightarrow> b = length message"
    "pc_count finished (pcs s) > 0 \<Longrightarrow> next_id s \<ge> total cfg"
  using assms by (auto simp: stress_inv_def)

text \<open>The counters stay far from the limits of \<open>int\<close>.\<close>

lemma stress_bounds:
  assumes inv: "stress_inv cfg message s" and cfg: "good_config cfg"
  shows "next_id s \<le> 200000000" "success (stats s) \<le> 100000000" "connectFail (stats s) \<le> 100000000"
    "sendFail (stats s) \<le> 100000000" "recvFail (stats s) \<le> 100000000"
proof -
  note D = stress_invD [OF inv]
  have "pc_count finished (pcs s) \<le> int (length (pcs s))" by (simp add: pc_count_def)
  then show "next_id s \<le> 200000000" using D(1,3) cfg by (simp add: good_config_def)
  have "success (stats s) + failed (stats s) \<le> total cfg"
    using D(8) pc_count_nonneg [of in_flight "pcs s"] by linarith
  then show "success (stats s) \<le> 100000000" "connectFail (stats s) \<le> 100000000"
    "sendFail (stats s) \<le> 100000000" "recvFail (stats s) \<le> 100000000"
    using D(4-7) cfg by (simp_all add: good_config_def failed_def)
qed

lemma AddBytes_update: "AddBytes b l \<in> set (ws[i := pc]) \<Longrightarrow> AddBytes b l \<in> set ws \<or> pc = AddBytes b l"
  using set_update_subset_insert [of ws i pc] by auto

lemma worker_step_inv:
  assumes "worker_step cfg message world s s'" "stress_inv cfg message s" "good_config cfg"
    "\<And>k. recv_spec (a_recv (world k))"
  shows "stress_inv cfg message s'"
  using assms(1,2)
proof (induction rule: worker_step.induct)
  case (fetch i s)
  note D = stress_invD [OF fetch.prems] and B = stress_bounds [OF fetch.prems assms(3)]
  note upd = pc_count_update [OF fetch(1), unfolded fetch(2)]
  have "wrap32 (next_id s + 1) = next_id s + 1" using B(1) D(2) by (intro wrap32_small) simp_all
  then show ?case
    using D pc_count_nonneg [of finished "pcs s"]
    unfolding stress_inv_def by (auto simp: upd dest!: AddBytes_update)
next
  case (attempted i s k r closed)
  note D = stress_invD [OF attempted.prems] and B = stress_bounds [OF attempted.prems assms(3)]
  note upd = pc_count_update [OF attempted(1), unfolded attempted(2)]
  have "r = Success b l \<Longrightarrow> b = length message" for b l using attempt_bytes [OF assms(4)] attempted(3) by blast
  then show ?case
    using D B unfolding stress_inv_def
    by (cases r) (auto simp: upd count_outcome_def after_outcome_def failed_def wrap32_small dest!: AddBytes_update)
next
  case (add_bytes i s bytes latency)
  note D = stress_invD [OF add_bytes.prems]
  note upd = pc_count_update [OF add_bytes(1), unfolded add_bytes(2)]
  have "bytes = length message" using D(11) add_bytes(1,2) nth_mem by metis
  then show ?case
    using D unfolding stress_inv_def by (auto simp: upd failed_def distrib_left dest!: AddBytes_update)
next
  case (add_success i s latency)
  note D = stress_invD [OF add_success.prems] and B = stress_bounds [OF add_success.prems assms(3)]
  note upd = pc_count_update [OF add_success(1), unfolded add_success(2)]
  show ?case
    using D B unfolding stress_inv_def
    by (auto simp: upd failed_def wrap32_small distrib_left dest!: AddBytes_update)
next
  case (push_latency i s latency)
  note D = stress_invD [OF push_latency.prems]
  note upd = pc_count_update [OF push_latency(1), unfolded push_latency(2)]
  show ?case
    using D unfolding stress_inv_def by (auto simp: upd dest!: AddBytes_update)
qed

lemma stress_reach_inv:
  assumes "stress_reach cfg message world s" "good_config cfg" "\<And>k. recv_spec (a_recv (world k))"
  shows "stress_inv cfg message s"
  using assms(1)
proof (induction rule: stress_reach.induct)
  case stress_init
  then show ?case using assms(2) by (simp add: stress_inv_def stress_begin_def pc_count_def failed_def good_config_def)
next
  case (stress_next s s')
  then show ?case using worker_step_inv assms(2,3) by blast
qed

text \<open>Every step brings the run closer to its end, and until then some worker can take one.\<close>

fun pc_weight :: "worker_pc \<Rightarrow> nat" where
  "pc_weight (Attempting k) = 5"
| "pc_weight (AddBytes b l) = 4"
| "pc_weight (AddSuccess l) = 3"
| "pc_weight (PushLatency l) = 2"
| "pc_weight _ = 0"

definition stress_measure :: "Config \<Rightarrow> stress \<Rightarrow> nat" where
  "stress_measure cfg s =
     6 * nat (total cfg + int (length (pcs s)) - next_id s) + sum_list (map pc_weight (pcs s))"

lemma weight_update:
  assumes "i < length ws"
  shows "sum_list (map pc_weight (ws[i := pc])) + pc_weight (ws ! i) = sum_list (map pc_weight ws) + pc_weight pc"
proof -
  have "pc_weight (ws ! i) \<le> sum_list (map pc_weight ws)" using assms by (intro member_le_sum_list) auto
  then show ?thesis using assms by (simp add: map_update sum_list_update)
qed

lemma worker_step_measure:
  assumes "worker_step cfg message world s s'" "stress_inv cfg message s" "good_config cfg"
  shows "stress_measure cfg s' < stress_measure cfg s"
  using assms(1,2)
proof (induction rule: worker_step.induct)
  case (fetch i s)
  note D = stress_invD [OF fetch.prems]
  have "wrap32 (next_id s + 1) = next_id s + 1"
    using stress_bounds(1) [OF fetch.prems assms(3)] D(2) by (intro wrap32_small) simp_all
  moreover have "next_id s < total cfg + int (length (pcs s))"
    using D(3) pc_count_lt [OF fetch(1), of finished] fetch(2) by simp
  moreover have "pc_weight (if next_id s \<ge> total cfg then Finished else Attempting (next_id s)) \<le> 5" by simp
  ultimately show ?case
    using weight_update [OF fetch(1), of "if next_id s \<ge> total cfg then Finished else Attempting (next_id s)"] fetch(2)
    by (simp add: stress_measure_def)
next
  case (attempted i s k r closed)
  then show ?case
    using weight_update [OF attempted(1), of "after_outcome r"]
    by (cases r) (simp_all add: stress_measure_def after_outcome_def)
next
  case (add_bytes i s bytes latency)
  then show ?case using weight_update [OF add_bytes(1), of "AddSuccess latency"] by (simp add: stress_measure_def)
next
  case (add_success i s latency)
  then show ?case using weight_update [OF add_success(1), of "PushLatency latency"] by (simp add: stress_measure_def)
next
  case (push_latency i s latency)
  then show ?case using weight_update [OF push_latency(1), of Fetch] by (simp add: stress_measure_def)
qed

lemma worker_progress:
  assumes "i < length (pcs s)" "pcs s ! i \<noteq> Finished"
  shows "\<exists>s'. worker_step cfg message world s s'"
proof (cases "pcs s ! i")
  case (Attempting k)
  obtain r closed where "attempt message (world k) = (r, closed)" by fastforce
  from attempted [OF assms(1) Attempting, of message world r closed] this show ?thesis by blast
qed (use assms in \<open>blast intro: fetch add_bytes add_success push_latency\<close>)+

section \<open>Percentiles\<close>

text \<open>
  For a share between zero and one the index stays inside the vector, also after the product has been
  rounded to a \<open>double\<close>.
\<close>

lemma round53_le:
  assumes A: "0 \<le> A" "A \<le> N * 2 ^ f" and N: "0 \<le> N" "N < 2 ^ 53"
  shows "\<exists>q k. round53 A (- int f) = Finite q (int k - int f) \<and> 0 \<le> q \<and> k \<le> f \<and> q * 2 ^ k \<le> N * 2 ^ f"
proof -
  define k where "k = bit_length (nat A) - 53"
  define q where "q = A div 2 ^ k"
  define q' where "q' = (if 2 * (A mod 2 ^ k) > 2 ^ k \<or> 2 * (A mod 2 ^ k) = 2 ^ k \<and> odd q then q + 1 else q)"
  have rd: "round53 A (- int f) = Finite (sgn A * q') (int k - int f)"
    using A(1) by (simp add: round53_def Let_def k_def q_def q'_def)
  have "N * 2 ^ f < 2 ^ 53 * 2 ^ f" using N(2) by (intro mult_strict_right_mono) simp_all
  with A(2) have "A < 2 ^ 53 * 2 ^ f" by (rule le_less_trans)
  then have "A < 2 ^ (53 + f)" unfolding power_add .
  then have "nat A < 2 ^ (53 + f)" using A(1) by (simp add: nat_less_iff)
  then have k: "k \<le> f" using bit_length_le [of "nat A" "53 + f"] by (simp add: k_def)
  define M where "M = N * 2 ^ (f - k)"
  have M: "N * 2 ^ f = M * 2 ^ k" using k by (simp add: M_def power_add [symmetric] mult.assoc)
  have eq: "A = q * 2 ^ k + A mod 2 ^ k" unfolding q_def by (rule div_mult_mod_eq [symmetric])
  have q: "0 \<le> q" using A(1) by (simp add: q_def pos_imp_zdiv_nonneg_iff)
  have "q \<le> M" using zdiv_mono1 [OF A(2) [unfolded M], of "2 ^ k"] by (simp add: q_def)
  have "q' \<le> M"
  proof (cases "q = M")
    case True
    then have "A \<le> q * 2 ^ k" using A(2) [unfolded M] by simp
    then have "A mod 2 ^ k \<le> 0" using eq by linarith
    then have "A mod 2 ^ k = 0" by (simp add: order_antisym)
    then show ?thesis using True by (simp add: q'_def)
  next
    case False
    then show ?thesis using \<open>q \<le> M\<close> by (simp add: q'_def)
  qed
  then have "q' * 2 ^ k \<le> N * 2 ^ f" unfolding M by (simp add: mult_right_mono)
  moreover have "0 \<le> q'" using q by (simp add: q'_def)
  ultimately have "0 \<le> sgn A * q' \<and> sgn A * q' * 2 ^ k \<le> N * 2 ^ f" using A(1) N(1) by (cases "A = 0") auto
  then show ?thesis using rd k by blast
qed

lemma percentile_in_range:
  assumes "0 \<le> m" "m \<le> 2 ^ f" "int (length values) \<le> 2 ^ 53"
  shows "\<exists>v. percentile values (Finite m (- int f)) = Inr v \<and> (values \<noteq> [] \<longrightarrow> v \<in> set values)"
proof (cases "values = []")
  case False
  let ?N = "int (length values - 1)"
  have N: "0 \<le> ?N" "?N < 2 ^ 53" using False assms(3) by (auto simp: of_nat_diff Suc_le_eq)
  have "0 \<le> m * ?N" "m * ?N \<le> ?N * 2 ^ f" using assms(1) mult_right_mono [OF assms(2) N(1)] by (simp_all add: mult.commute)
  from round53_le [OF this N] obtain q k where q: "round53 (m * ?N) (- int f) = Finite q (int k - int f)"
      "0 \<le> q" "k \<le> f" "q * 2 ^ k \<le> ?N * 2 ^ f" by blast
  let ?i = "q div 2 ^ (f - k)"
  have "(2::int) ^ f = 2 ^ (f - k) * 2 ^ k" using q(3) by (simp add: power_add [symmetric])
  then have "q * 2 ^ k \<le> ?N * 2 ^ (f - k) * 2 ^ k" using q(4) by (simp add: mult.assoc)
  then have "q \<le> ?N * 2 ^ (f - k)" by simp
  then have "?i \<le> ?N" using zdiv_mono1 [of q "?N * 2 ^ (f - k)" "2 ^ (f - k)"] by simp
  moreover have "0 \<le> ?i" using q(2) by (simp add: pos_imp_zdiv_nonneg_iff)
  moreover have "double_to_int64 (double_mult (Finite m (- int f)) ?N) = int64 ?i"
    using q(1-3) by (auto simp: cdiv_nonneg nat_diff_distrib split: if_splits)
  moreover have "?i < 2 ^ 63" using \<open>?i \<le> ?N\<close> N(2) by simp
  ultimately have "percentile values (Finite m (- int f)) = rbind (read_range values (nat ?i) 1) (\<lambda>v. Inr (hd v))"
    using False by (simp add: percentile_def int64_def)
  moreover have lt: "nat ?i < length values" using \<open>0 \<le> ?i\<close> \<open>?i \<le> ?N\<close> False by (cases "values") auto
  moreover have "hd (take 1 (drop (nat ?i) values)) = values ! nat ?i"
    using lt by (simp add: hd_drop_conv_nth)
  ultimately show ?thesis by (simp add: read_range_def Suc_le_eq)
qed (simp add: percentile_def)

lemma sum_latencies_ok:
  "0 \<le> acc \<Longrightarrow> list_all (\<lambda>l. 0 \<le> l) ls \<Longrightarrow> acc + sum_list ls < 2 ^ 63 \<Longrightarrow>
    sum_latencies ls acc = Inr (acc + sum_list ls)"
proof (induction ls arbitrary: acc)
  case (Cons l ls)
  have "0 \<le> sum_list ls" using Cons.prems(2) by (auto simp: list_all_iff intro: sum_list_nonneg)
  then show ?case using Cons by (simp add: int64_def add.assoc)
qed simp

lemma percentile_max:
  assumes "ls \<noteq> []" "int (length ls) \<le> 2 ^ 53"
  shows "percentile ls (Finite 1 0) = Inr (last ls)"
proof -
  let ?N = "int (length ls - 1)"
  have "\<bar>?N\<bar> < 2 ^ 53" using assms by (cases ls) auto
  then have "double_to_int64 (double_mult (Finite 1 0) ?N) = Inr ?N" by (simp add: round53_small int64_def)
  moreover have "hd (take 1 (drop (length ls - 1) ls)) = last ls"
    using assms(1) by (simp add: hd_drop_conv_nth last_conv_nth)
  ultimately show ?thesis using assms(1) by (simp add: percentile_def read_range_def)
qed

lemma last_sorted_Max:
  fixes ls :: "int list"
  assumes "sorted ls" "ls \<noteq> []"
  shows "last ls = Max (set ls)"
proof (rule Max_eqI [symmetric])
  show "l \<le> last ls" if "l \<in> set ls" for l
    using assms that by (cases ls rule: rev_cases) (auto simp: sorted_append)
qed (use assms in auto)

text \<open>
  The report never fails: it gives the sum of the latencies, percentiles that are latencies of the run, and
  the largest of them.
\<close>

lemma stress_report_ok:
  assumes "list_all (\<lambda>l. 0 \<le> l) (latenciesUs s)" "sum_list (latenciesUs s) < 2 ^ 63"
    "int (length (latenciesUs s)) \<le> 2 ^ 53"
  shows "\<exists>r. stress_report s = Inr r \<and> r_success r = success (stats s) \<and> r_failed r = failed (stats s) \<and>
    r_sum r = sum_list (latenciesUs s) \<and>
    (latenciesUs s \<noteq> [] \<longrightarrow> {r_p50 r, r_p95 r, r_p99 r} \<subseteq> set (latenciesUs s) \<and> r_max r = Max (set (latenciesUs s)))"
proof -
  let ?ls = "sort (latenciesUs s)"
  have len: "int (length ?ls) \<le> 2 ^ 53" using assms(3) by simp
  have sum: "sum_list ?ls = sum_list (latenciesUs s)" by (metis mset_sort sum_mset_sum_list)
  have "sum_latencies ?ls 0 = Inr (sum_list (latenciesUs s))"
    using sum_latencies_ok [of 0 ?ls] assms(1,2) sum by (simp add: list_all_iff)
  moreover obtain a where a: "percentile ?ls (Finite 1 (- 1)) = Inr a" "?ls \<noteq> [] \<longrightarrow> a \<in> set ?ls"
    using percentile_in_range [of 1 1 ?ls] len by auto
  moreover obtain b where b: "percentile ?ls (Finite 8556839292003942 (- 53)) = Inr b" "?ls \<noteq> [] \<longrightarrow> b \<in> set ?ls"
    using percentile_in_range [of 8556839292003942 53 ?ls] len by auto
  moreover obtain c where c: "percentile ?ls (Finite 8917127262193582 (- 53)) = Inr c" "?ls \<noteq> [] \<longrightarrow> c \<in> set ?ls"
    using percentile_in_range [of 8917127262193582 53 ?ls] len by auto
  moreover obtain d where d: "percentile ?ls (Finite 1 0) = Inr d" "?ls \<noteq> [] \<longrightarrow> d = last ?ls"
    using percentile_max [OF _ len] by (cases "?ls = []") (auto simp: percentile_def)
  moreover have ne: "?ls \<noteq> []" if "latenciesUs s \<noteq> []" using that by (metis set_sort set_empty)
  moreover have "last ?ls = Max (set (latenciesUs s))" if "latenciesUs s \<noteq> []"
    using that last_sorted_Max [OF sorted_sort ne] by simp
  ultimately show ?thesis by (auto simp: stress_report_def)
qed

section \<open>Properties\<close>

text \<open>C31: the load generator counts every attempt exactly once. For every accepted command line, however the workers
  interleave and whatever the system answers: the shared counter never comes near its limit; as long as a
  worker has not ended some worker can go on, and every step reduces a number, so that every run ends;
  and when all workers have ended, successes and failures add up to the number of attempts asked for, with
  one latency and exactly the bytes of one message for each success.\<close>

theorem stress_accounting:
  assumes "parseArgs args = Inr cfg" "\<And>k. recv_spec (a_recv (world k))"
    and "stress_reach cfg (stress_message cfg) world s"
  shows "0 \<le> next_id s \<and> next_id s \<le> total cfg + concurrency cfg \<and>
    (\<forall>s'. worker_step cfg (stress_message cfg) world s s' \<longrightarrow> stress_measure cfg s' < stress_measure cfg s) \<and>
    (if \<forall>pc\<in>set (pcs s). pc = Finished
     then success (stats s) + failed (stats s) = total cfg \<and> int (length (latenciesUs s)) = success (stats s) \<and>
       bytesRead (stats s) = success (stats s) * messageSize cfg
     else \<exists>s'. worker_step cfg (stress_message cfg) world s s')"
proof -
  have cfg: "good_config cfg" using parseArgs_good [OF assms(1)] by simp
  have inv: "stress_inv cfg (stress_message cfg) s" using stress_reach_inv [OF assms(3) cfg assms(2)] .
  note D = stress_invD [OF inv]
  have fin: "pc_count finished (pcs s) \<le> concurrency cfg" using D(1) by (simp add: pc_count_def flip: D(1))
  show ?thesis
  proof (cases "\<forall>pc\<in>set (pcs s). pc = Finished")
    case True
    then have none: "pc_count P (pcs s) = 0" if "\<not> P Finished" for P
      using that by (auto simp: pc_count_def filter_empty_conv)
    have "filter finished (pcs s) = pcs s" using True by (auto simp: filter_id_conv)
    then have "pc_count finished (pcs s) > 0" using D(1) cfg by (simp add: pc_count_def good_config_def)
    then have "next_id s \<ge> total cfg" by (rule D(12))
    then show ?thesis
      using True D(2,3,8,9,10) fin none [of in_flight] none [of pushing] none [of bytes_added]
        worker_step_measure [OF _ inv cfg] cfg
      by (auto simp: stress_message_def good_config_def)
  next
    case False
    then obtain i where "i < length (pcs s)" "pcs s ! i \<noteq> Finished" by (auto simp: in_set_conv_nth)
    from worker_progress [OF this] show ?thesis
      using False D(2,3) fin worker_step_measure [OF _ inv cfg] by auto
  qed
qed

text \<open>One attempt by one worker, on a system that takes and returns everything at once.\<close>

definition sample_args :: "string list" where
  "sample_args = [''localhost'', ''80'', ''1'', ''1'', ''5'']"

definition sample_config :: Config where
  "sample_config = \<lparr>host = ''localhost'', port_text = ''80'', total = 1, concurrency = 1, messageSize = 5, timeoutMs = 1000\<rparr>"

definition sample_world :: "int \<Rightarrow> attempt_io" where
  "sample_world k = \<lparr>a_socket = 3, a_connect = 0, a_send = \<lambda>i xs. int (length xs), a_recv = \<lambda>i want. int want, a_latency = 70\<rparr>"

definition sample_stats :: Stats where
  "sample_stats = \<lparr>success = 1, connectFail = 0, sendFail = 0, recvFail = 0, bytesRead = 5\<rparr>"

lemma sample_parse: "parseArgs sample_args = Inr sample_config"
proof -
  have "parseInt ''1'' = Some 1" "parseInt ''5'' = Some 5" by code_simp+
  then show ?thesis
    by (simp add: parseArgs_def sample_args_def parse_into_def Config_default_def sample_config_def)
qed

lemma sample_attempt: "attempt ''xxxxx'' (sample_world k) = (Success 5 70, [3])"
  by (simp add: attempt_def sample_world_def writeAll.simps readExpected.simps)

lemma sample_stress_reach:
  "stress_reach sample_config (stress_message sample_config) sample_world
    \<lparr>next_id = 2, stats = sample_stats, latenciesUs = [70], pcs = [Finished]\<rparr>"
proof -
  let ?st = "\<lambda>n b. \<lparr>success = n, connectFail = 0, sendFail = 0, recvFail = 0, bytesRead = b\<rparr>"
  let ?s = "\<lambda>n st l pc. \<lparr>next_id = n, stats = st, latenciesUs = l, pcs = [pc]\<rparr>"
  let ?R = "stress_reach sample_config (stress_message sample_config) sample_world"
  have msg: "stress_message sample_config = ''xxxxx''"
    by (simp add: stress_message_def sample_config_def numeral_eq_Suc)
  have w: "wrap32 1 = 1" "wrap32 2 = 2" by (simp_all add: wrap32_def)
  have t: "total sample_config = 1" by (simp add: sample_config_def)
  have "?R (?s 0 (?st 0 0) [] Fetch)"
    using stress_init [of sample_config] by (simp add: stress_begin_def sample_config_def)
  from stress_next [OF this fetch [of 0]] have "?R (?s 1 (?st 0 0) [] (Attempting 0))" by (simp add: w t)
  from stress_next [OF this attempted [of 0 _ 0 _ _ "Success 5 70" "[3]"]]
  have "?R (?s 1 (?st 0 0) [] (AddBytes 5 70))"
    by (simp add: msg sample_attempt count_outcome_def after_outcome_def)
  from stress_next [OF this add_bytes [of 0 _ 5 70]] have "?R (?s 1 (?st 0 5) [] (AddSuccess 70))" by simp
  from stress_next [OF this add_success [of 0 _ 70]] have "?R (?s 1 (?st 1 5) [] (PushLatency 70))" by (simp add: w)
  from stress_next [OF this push_latency [of 0 _ 70]] have "?R (?s 1 (?st 1 5) [70] Fetch)" by simp
  from stress_next [OF this fetch [of 0]] have "?R (?s 2 (?st 1 5) [70] Finished)" by (simp add: w t)
  then show ?thesis by (simp add: sample_stats_def)
qed

theorem stress_accounting_witness:
  "parseArgs sample_args = Inr sample_config \<and> success sample_stats + failed sample_stats = total sample_config \<and>
    bytesRead sample_stats = success sample_stats * messageSize sample_config"
  using stress_accounting [OF sample_parse _ sample_stress_reach] sample_parse
  by (simp add: recv_spec_def sample_world_def)

end
