(* ===== verification/Spec2Isabelle.thy ===== *)
theory Spec2Isabelle
  imports Log_Async Base_Threads Net_TimerFd Net_EventLoop Net_Teardown Example_Echo Example_Stress
begin

text \<open>
  \<^bold>\<open>A verification library for mymuduo\<close>, a reactor network library in C++ (\<open>src/src\<close>) with an asynchronous
  logger and two example programs (\<open>src/example\<close>).

  \<^bold>\<open>The program.\<close> Each thread that does I/O runs an \<open>EventLoop\<close>: it blocks in its \<open>EPollPoller\<close>, lets every
  active \<open>Channel\<close> call its callbacks, and then runs the functors that other threads queued; an event
  descriptor wakes it up. A \<open>TimerQueue\<close> is one more channel, on a timer descriptor. A \<open>TcpServer\<close> owns an
  \<open>Acceptor\<close> in its base loop; for every accepted descriptor it asks its \<open>EventLoopThreadPool\<close> for a loop and
  hands a new \<open>TcpConnection\<close> to that loop. A connection has two \<open>Buffer\<close>s; a send writes at once what the
  kernel takes and keeps the rest until the descriptor is writable. Log statements build a record in a
  \<open>LogStream\<close> on a \<open>FixedBuffer\<close>; \<open>AsyncLogging\<close> collects records in large buffers, which its own thread
  writes to a rolling \<open>LogFile\<close>. \<open>ThreadPool\<close> is a bounded queue of tasks with worker threads.

  \<^bold>\<open>Theories and sources.\<close>

  \<^item> \<open>Cpp_Prelude\<close>: failures (\<open>fault\<close>) and the result type \<open>fault + 'a\<close> with \<open>rbind\<close>, \<open>size_t\<close> arithmetic with its
    wrap-around, bounds-checked memory, C division, decimal printing, generic lemmas.
  \<^item> \<open>Net_Buffer\<close>: \<open>net/Buffer\<close>. \<open>Log_Stream\<close>: \<open>logger/FixedBuffer\<close>, \<open>LogStream\<close>. \<open>Base_Timestamp\<close>: \<open>base/Timestamp\<close>, with
    the product of a \<open>double\<close> rounded to 53 bits, and the two index functions of \<open>utils/CircularBuffer\<close>.
  \<^item> \<open>Log_Logger\<close>: \<open>logger/Logging\<close>. \<open>Log_File\<close>: \<open>logger/FileUtil\<close>, \<open>LogFile\<close>. \<open>Log_Async\<close>: \<open>logger/AsyncLogging\<close>.
  \<^item> \<open>Net_Poller\<close>: \<open>net/Channel\<close>, \<open>Poller\<close>, \<open>EPollPoller\<close>. \<open>Net_TcpConnection\<close>: \<open>net/TcpConnection\<close>.
    \<open>Net_Timer\<close>: \<open>net/Timer\<close>, \<open>TimerId\<close>, \<open>TimerQueue\<close>, and \<open>Net_TimerFd\<close> what holds of its descriptor. \<open>Net_EventLoop\<close>: \<open>net/EventLoop\<close>, \<open>DefaultPoller\<close>.
  \<^item> \<open>Net_Acceptor\<close>: \<open>net/InetAddress\<close>, \<open>Socket\<close>, \<open>Acceptor\<close>. \<open>Net_Server\<close>: \<open>net/EventLoopThread\<close>,
    \<open>EventLoopThreadPool\<close>, \<open>TcpServer\<close>. \<open>Base_Threads\<close>: \<open>base/CurrentThread\<close>, \<open>Thread\<close>, \<open>ThreadPool\<close>.
  \<^item> \<open>Net_System\<close>: a server, its loops and its connections together, with the references that keep a connection
    alive, and the invariant of that system. \<open>Net_Lifetime\<close>: every step keeps it, and what follows. \<open>Net_Progress\<close>: the
    queues run empty. \<open>Net_Teardown\<close>: the destructor of the server with open connections.
  \<^item> \<open>Example_Echo\<close>: \<open>example/testserver.cc\<close>. \<open>Example_Stress\<close>: \<open>example/stress_client.cc\<close>.

  \<^bold>\<open>How state and operations correspond.\<close> A class is a record with the members of the class (a trailing
  underscore is dropped, a prefix is added where a name is taken), an enum a datatype, a member function
  one definition on that record with the conditions and early returns of the source. A constructor is
  \<open>C_new\<close>, a destructor \<open>C_delete\<close>. An operation that can throw, abort, leave its memory or go through a null
  or freed pointer returns \<open>Inl\<close> of that failure. Memory that is shared or freed is explicit: timers live in
  a heap, connections and loops are numbers. What the library calls in the system (\<open>read\<close>, \<open>write\<close>, \<open>epoll_ctl\<close>,
  \<open>accept4\<close>, clocks, \<open>fopen\<close>, \<open>fwrite\<close>, the allocator) is an argument of the definition; what is assumed of it is a named
  predicate (\<open>write_spec\<close>, \<open>readv_spec\<close>, \<open>epoll_spec\<close>, \<open>epoll_total\<close>, \<open>fwrite_spec\<close>, \<open>recv_spec\<close>). Callbacks of the user are
  recorded as calls, functors as values that say what was bound. Threads are step relations or lists of
  steps in which one critical section, or one access outside of them, is one step; every interleaving
  of these is covered. Waiting on a condition variable is a state of its own in the thread pool.

  \<^bold>\<open>Interfaces.\<close> \<open>byte_queue\<close> is the contract of \<open>Buffer\<close> (its FIFO refinement), \<open>text_sink\<close> what \<open>AsyncLogging\<close> needs
  of a log file, \<open>channel_registry\<close> what owners of channels need of the poller, \<open>round_robin\<close> what the server
  needs of its loop pool. Each is a locale, interpreted on the definitions of the component that provides
  it (\<open>buf\<close>, \<open>logfile\<close>, \<open>epoll\<close>, \<open>elp\<close>), and the clients use the facts of the interpretation.
  \<open>op_machine\<close> (in \<open>Cpp_Prelude\<close>) is the contract of a component driven by operations, from one operation to every
  sequence of them; it is interpreted on connections (\<open>conn\<close>), the server (\<open>server\<close>), the timer queue (\<open>tq\<close>)
  and the composed system (\<open>sys\<close>).

  \<^bold>\<open>What is shown.\<close>

  \<^item> Streams: a buffer is a queue of bytes; a connection puts on the wire exactly the accepted messages in
    order, under any partial writes; a shutdown waits for them and then takes effect; closing happens
    once and leaves nothing in poller and kernel; the echo server returns what it read first.
  \<^item> Event loop: poller, channels and kernel agree; functors run once, in order, and no wakeup is lost (but
    functors that the loop's own thread queues before \<open>loop()\<close> may wait through the first poll); a running loop ends after
    \<open>quit\<close>; the one read of a freed timer that can happen is that at the end of \<open>addTimer\<close> on another thread,
    none leaks, due timers run in order, and the timer descriptor always covers every waiting timer.
  \<^item> Server: the book of connections is exact, names are unique, loops are chosen in turn, addresses print
    and read back; an acceptor can be created, listens and is destroyed on any usable poller.
  \<^item> The whole: in every interleaving of accepting, events, functors of all loops and user code in which \<open>send\<close> and
    \<open>shutdown\<close> on other threads are not interrupted between test and queueing, no connection is used after its end, pollers and kernel know only channels of connections that exist, also
    when descriptors are used again, and a closed connection is destroyed once the queues are empty, which
    they are after a bounded number of turns of the loops alone. A server at rest can be destroyed with connections open,
    interleaved with its loops: no step fails, and if the loops are before their swap when the destructor has queued
    everything, nothing of it stays in a poller and the user hears once that each of them is down.
  \<^item> Logging: no record overruns its buffer; records have the documented shape; files receive every line,
    also from the asynchronous logger, until it is stopped; stopping it returns.
  \<^item> Threads: the task queue is bounded and first in first out, tasks are neither lost nor run twice, and
    nobody sleeps while there is work; the workers of the load generator count every attempt once and end.
  \<^item> Where the code does not do what it means to do, the failing behaviour is proved: timers of a loop go
    through a null pointer; \<open>addTimer\<close> of another thread can read a timer that the loop has deleted; a quit before the loop starts is lost; a restarted thread pool faults when it
    is stopped; a message queued from another thread before \<open>shutdown\<close> is written to the closed side and kept nowhere, and a \<open>send\<close> that is interrupted between
    its test and its \<open>queueInLoop\<close> can run on a freed connection; what waits in the front end when the
    asynchronous logger is stopped in the back end's last round is lost; appending to a full disk never returns.

  \<^bold>\<open>Bounds and termination.\<close> No model uses fuel. The one loop that need not end, that of \<open>FileUtil::append\<close>, is
  a \<open>partial_function\<close> whose value \<open>None\<close> is not returning; that it returns when the stream makes progress, and
  that it does not otherwise, are both theorems. All other loops are total functions. Hypotheses on sizes
  (\<open>Buffer_room\<close>, \<open>send_pre\<close>, \<open>conn_pre\<close>) say that a vector stays below \<open>max_size\<close>, so that \<open>resize\<close> does not throw; the
  only other numeric limits are those of the types.

  \<^bold>\<open>Not modelled.\<close> \<open>noncopyable.h\<close> and \<open>Callbacks.h\<close> have no behaviour. \<open>CircularBuffer\<close> is unfinished in the source and
  does not compile; only its index arithmetic is here. Setters of callbacks that are always set are not state of the models, and socket options have no
  effect beyond their value. In \<open>Net_Teardown\<close> the destructor of the server runs on the thread of the base loop, starts when no functor
  waits, and no event arrives until it is done; what the code does otherwise is the use of a freed server (the
  close callback binds the plain pointer). A loop that is behind its swap when the last \<open>connectionDestoryed\<close> is queued may
  end without running it (\<open>teardown_can_drop\<close>). Calls of user code in a callback are steps of their own after it; those of
  the functors in \<open>Net_Progress\<close> do nothing. \<open>shutdown\<close> on another thread is one step. \<open>TcpServer::start\<close> hands \<open>listen\<close> to the base loop
  as a functor also on that loop's own thread, where the code calls it at once. The signal \<open>SIGPIPE\<close> is not modelled, and the answer of \<open>write\<close> is
  not tied to the state of the write side. The memory model below critical
  sections (unsynchronised reads of flags) is sequentially consistent. The floating-point rates in the
  report of \<open>stress_client\<close> and the layout of its lines, and the build scripts, are left out.
\<close>

end
